(* ===== verification/Prelude.thy ===== *)
theory Prelude
  imports Main "HOL-Library.Word"
begin

text \<open>
  Shared ground of the development: the Go values every component uses (machine
  integers, errors, panics, slices), the automation collections, and generic lemmas on
  words and lists.

  \<^item> \<open>int64\<close> and \<open>int32\<close> are Go's \<open>int\<close> (64 bits on the platforms the program is built
    for) and \<open>int32\<close>: arithmetic wraps and \<open>sint\<close> reads the value. They are used where
    the code does arithmetic; a size that the code only compares (a configured batch
    size against 0 or against a length) is a plain \<open>int\<close>.
  \<^item> \<open>go_err\<close> is a value of Go's \<open>error\<close> interface: made by the program
    (\<open>errors.New\<close>, \<open>fmt.Errorf\<close>), wrapped with \<open>%w\<close>, or handed over by a library.
    A Go result \<open>(T, error)\<close> is the pair \<open>'a \<times> go_err option\<close>, because both
    halves can be present at once; \<open>None\<close> is \<open>nil\<close>.
  \<^item> \<open>go_panic\<close> is the value a goroutine panics with; a computation that may panic
    has type \<open>go_panic + 'a\<close>.
  \<^item> a Go string or \<open>[]byte\<close> is a list of bytes, Isabelle's \<open>char list\<close>.
\<close>

section \<open>Machine integers\<close>

type_synonym int64 = "64 word"
type_synonym int32 = "32 word"
type_synonym bytes = string

section \<open>Errors and panics\<close>

datatype go_err =
    GoErr string               \<comment> \<open>\<open>errors.New\<close>, or \<open>fmt.Errorf\<close> without \<open>%w\<close>\<close>
  | GoErrWrap string go_err    \<comment> \<open>\<open>fmt.Errorf\<close> with \<open>%w\<close>\<close>
  | LibErr string              \<comment> \<open>an error value produced by a library\<close>

datatype go_panic =
    SliceOutOfRange
  | NilDeref
  | IndexOutOfRange
  | SendOnClosedChannel
  | CloseOfClosedChannel
  | NegativeWaitGroup
  | PanicMsg string            \<comment> \<open>\<open>panic\<close> with a string\<close>
  | PanicErr go_err            \<comment> \<open>\<open>panic\<close> with an error value\<close>

named_theorems go_defs \<open>definitions of small operations that proofs unfold together\<close>
named_theorems go_simps \<open>rewrite rules for results, slices and machine integers\<close>

definition go_bind :: "(go_panic + 'a) \<Rightarrow> ('a \<Rightarrow> go_panic + 'b) \<Rightarrow> go_panic + 'b" where
  "go_bind r f = (case r of Inl p \<Rightarrow> Inl p | Inr a \<Rightarrow> f a)"

lemma go_bind_simps [simp, go_simps]:
  "go_bind (Inl p) f = Inl p"
  "go_bind (Inr a) f = f a"
  by (simp_all add: go_bind_def)

lemma go_bind_Inr_iff: "go_bind r f = Inr b \<longleftrightarrow> (\<exists>a. r = Inr a \<and> f a = Inr b)"
  by (cases r) auto

section \<open>Slices\<close>

text \<open>
  \<open>len\<close> yields an \<open>int\<close>, so a slice has fewer than \<open>2\<^sup>6\<^sup>3\<close> elements;
  \<open>fits\<close> says so where a proof needs it. \<open>slice_from\<close> is \<open>xs[lo:]\<close> and
  \<open>slice\<close> is \<open>xs[lo:hi]\<close>, with the bounds checks of the language. (Go checks \<open>hi\<close>
  against the capacity; the only use below has \<open>hi\<close> less than the length
  whenever \<open>lo\<close> is valid.)
\<close>

definition go_len :: "'a list \<Rightarrow> int64" where
  "go_len xs = word_of_nat (length xs)"

definition fits :: "'a list \<Rightarrow> bool" where
  "fits xs \<longleftrightarrow> length xs < 2 ^ 63"

definition slice_from :: "int64 \<Rightarrow> 'a list \<Rightarrow> go_panic + 'a list" where
  "slice_from lo xs =
     (if 0 \<le> sint lo \<and> sint lo \<le> int (length xs)
      then Inr (drop (nat (sint lo)) xs) else Inl SliceOutOfRange)"

definition slice :: "int64 \<Rightarrow> int64 \<Rightarrow> 'a list \<Rightarrow> go_panic + 'a list" where
  "slice lo hi xs =
     (if 0 \<le> sint lo \<and> sint lo \<le> sint hi \<and> sint hi \<le> int (length xs)
      then Inr (take (nat (sint hi - sint lo)) (drop (nat (sint lo)) xs))
      else Inl SliceOutOfRange)"

lemma sint_of_int64: "- (2 ^ 63) \<le> i \<Longrightarrow> i < 2 ^ 63 \<Longrightarrow> sint (word_of_int i :: int64) = i"
  by (simp add: sint_sbintrunc' signed_take_bit_int_eq_self)

lemma sint_int64_range: "- (2 ^ 63) \<le> sint (w :: int64)" "sint (w :: int64) < 2 ^ 63"
  using sint_range_size [of w] by (simp_all add: word_size)

lemma sint_go_len [go_simps]: "fits xs \<Longrightarrow> sint (go_len xs) = int (length xs)"
  using sint_of_int64 [of "int (length xs)"] by (simp add: go_len_def fits_def)

lemma sint_add_int64:
  "- (2 ^ 63) \<le> sint a + sint b \<Longrightarrow> sint a + sint b < 2 ^ 63 \<Longrightarrow>
   sint (a + b :: int64) = sint a + sint b"
  using sint_of_int64 [of "sint a + sint b"] by (simp flip: wi_hom_add)

lemma sint_diff_int64:
  "- (2 ^ 63) \<le> sint a - sint b \<Longrightarrow> sint a - sint b < 2 ^ 63 \<Longrightarrow>
   sint (a - b :: int64) = sint a - sint b"
  using sint_of_int64 [of "sint a - sint b"] by (simp flip: wi_hom_sub)

lemma sint_of_int32: "- (2 ^ 31) \<le> i \<Longrightarrow> i < 2 ^ 31 \<Longrightarrow> sint (word_of_int i :: int32) = i"
  by (simp add: sint_sbintrunc' signed_take_bit_int_eq_self)

lemma sint_add_int32:
  "- (2 ^ 31) \<le> sint a + sint b \<Longrightarrow> sint a + sint b < 2 ^ 31 \<Longrightarrow>
   sint (a + b :: int32) = sint a + sint b"
  using sint_of_int32 [of "sint a + sint b"] by (simp flip: wi_hom_add)

section \<open>Lists cut into chunks\<close>

text \<open>
  \<open>chunks n xs\<close> cuts \<open>xs\<close> into consecutive runs of \<open>n\<close> elements, the last one
  possibly shorter; there is no empty run.
\<close>

function chunks :: "nat \<Rightarrow> 'a list \<Rightarrow> 'a list list" where
  "chunks n xs =
     (if xs = [] then [] else if n = 0 \<or> length xs \<le> n then [xs]
      else take n xs # chunks n (drop n xs))"
  by pat_completeness auto
termination
  by (relation "measure (\<lambda>(n, xs). length xs)") auto

declare chunks.simps [simp del]

lemma chunks_Nil [simp]: "chunks n [] = []"
  by (simp add: chunks.simps)

lemma chunks_short: "xs \<noteq> [] \<Longrightarrow> length xs \<le> n \<Longrightarrow> chunks n xs = [xs]"
  by (simp add: chunks.simps)

lemma chunks_long: "0 < n \<Longrightarrow> n < length xs \<Longrightarrow> chunks n xs = take n xs # chunks n (drop n xs)"
  by (subst chunks.simps) auto

lemma concat_chunks [simp]: "concat (chunks n xs) = xs"
proof (induction n xs rule: chunks.induct)
  case (1 n xs)
  then show ?case by (subst chunks.simps) auto
qed

lemma chunks_bounds: "0 < n \<Longrightarrow> b \<in> set (chunks n xs) \<Longrightarrow> b \<noteq> [] \<and> length b \<le> n"
proof (induction n xs rule: chunks.induct)
  case (1 n xs)
  then show ?case
    by (auto simp: chunks.simps [of n xs] split: if_splits)
qed

lemma chunks_full: "0 < n \<Longrightarrow> b \<in> set (butlast (chunks n xs)) \<Longrightarrow> length b = n"
proof (induction n xs rule: chunks.induct)
  case (1 n xs)
  then show ?case
    by (auto simp: chunks.simps [of n xs] split: if_splits)
qed

lemma sum_length_take_le: "sum_list (map length (take j bs)) \<le> length (concat bs)"
proof -
  have "length (concat (take j bs)) \<le> length (concat (take j bs) @ concat (drop j bs))"
    by simp
  then show ?thesis
    by (metis append_take_drop_id concat_append length_concat)
qed

lemma chunks_eq_Nil [simp]: "chunks n xs = [] \<longleftrightarrow> xs = []"
  by (subst chunks.simps) auto

section \<open>Printing integers\<close>

text \<open>The decimal form of an integer, as \<open>%v\<close>, \<open>%d\<close> and \<open>strconv\<close> print it.\<close>

definition digit :: "nat \<Rightarrow> char" where
  "digit n = char_of (48 + n)"

fun digits :: "nat \<Rightarrow> string" where
  "digits n = (if n < 10 then [digit n] else digits (n div 10) @ [digit (n mod 10)])"

declare digits.simps [simp del]

definition itoa :: "int \<Rightarrow> string" where
  "itoa i = (if i < 0 then CHR ''-'' # digits (nat (- i)) else digits (nat i))"

definition is_digit :: "char \<Rightarrow> bool" where
  "is_digit c \<longleftrightarrow> 48 \<le> (of_char c :: nat) \<and> of_char c \<le> (57 :: nat)"

end
