(* ===== verification/Batch.thy ===== *)
theory Batch
  imports Prelude
begin

text \<open>
  The package \<open>internal/batch\<close> (\<open>batch.go\<close>): cutting a slice into batches.
  \<open>GetBatch\<close> returns the batch that starts at an index and whether more follow;
  \<open>GetBatches\<close> calls it in a loop. The Kinesis client uses \<open>GetBatch\<close> in a loop of
  its own. The loop of \<open>GetBatches\<close> may run forever (a batch size of 0), so it is a
  \<open>partial_function (option)\<close>: \<open>None\<close> is a call that never returns.
\<close>

definition GetBatch :: "int64 \<Rightarrow> int64 \<Rightarrow> 'a list \<Rightarrow> go_panic + ('a list \<times> bool)" where
  "GetBatch start batchSize items =
     (if sint (go_len items - start) \<le> sint batchSize
      then go_bind (slice_from start items) (\<lambda>batch. Inr (batch, False))
      else go_bind (slice start (start + batchSize) items) (\<lambda>batch. Inr (batch, True)))"

partial_function (option) GetBatches_loop ::
    "int64 \<Rightarrow> 'a list \<Rightarrow> int64 \<Rightarrow> 'a list list \<Rightarrow> (go_panic + 'a list list) option" where
  "GetBatches_loop batchSize items start batches =
     (case GetBatch start batchSize items of
        Inl p \<Rightarrow> Some (Inl p)
      | Inr r \<Rightarrow>
          (if snd r then GetBatches_loop batchSize items (start + batchSize) (batches @ [fst r])
           else Some (Inr (batches @ [fst r]))))"

definition GetBatches :: "int64 \<Rightarrow> 'a list \<Rightarrow> (go_panic + 'a list list) option" where
  "GetBatches batchSize items =
     (if items = [] then Some (Inr []) else GetBatches_loop batchSize items 0 [])"

section \<open>One batch\<close>

lemma GetBatch_last:
  assumes "fits items" "0 \<le> sint start" "sint start \<le> int (length items)"
    and "int (length items) - sint start \<le> sint batchSize"
  shows "GetBatch start batchSize items = Inr (drop (nat (sint start)) items, False)"
proof -
  have "sint (go_len items - start) = int (length items) - sint start"
    using assms by (subst sint_diff_int64) (auto simp: go_simps fits_def)
  with assms show ?thesis by (simp add: GetBatch_def slice_from_def)
qed

lemma GetBatch_more:
  assumes "fits items" "0 \<le> sint start" "0 \<le> sint batchSize"
    and "sint batchSize < int (length items) - sint start"
  shows "GetBatch start batchSize items =
           Inr (take (nat (sint batchSize)) (drop (nat (sint start)) items), True)"
    and "sint (start + batchSize) = sint start + sint batchSize"
proof -
  have d: "sint (go_len items - start) = int (length items) - sint start"
    using assms by (subst sint_diff_int64) (auto simp: go_simps fits_def)
  show s: "sint (start + batchSize) = sint start + sint batchSize"
    using assms by (intro sint_add_int64) (auto simp: fits_def)
  from assms d s show "GetBatch start batchSize items =
      Inr (take (nat (sint batchSize)) (drop (nat (sint start)) items), True)"
    by (simp add: GetBatch_def slice_def)
qed

text \<open>
  Whatever the arguments, a batch that says more follow leaves fewer items for the next
  call if the batch size is positive: the measure of every loop around \<open>GetBatch\<close>.
\<close>

lemma GetBatch_progress:
  assumes "GetBatch start batchSize items = Inr (b, True)" and "0 < sint batchSize"
  shows "nat (sint (go_len items - (start + batchSize))) < nat (sint (go_len items - start))"
proof -
  from assms(1) have "sint batchSize < sint (go_len items - start)"
    by (auto simp: GetBatch_def go_bind_Inr_iff split: if_splits)
  moreover have "sint (go_len items - start - batchSize) = sint (go_len items - start) - sint batchSize"
    using calculation assms(2) sint_int64_range [of "go_len items - start"]
    by (intro sint_diff_int64) auto
  ultimately show ?thesis using assms(2) by (simp add: diff_diff_eq)
qed

section \<open>All batches\<close>

lemma GetBatches_loop_chunks:
  assumes "fits items" "0 < sint batchSize" "0 \<le> sint start" "sint start < int (length items)"
  shows "GetBatches_loop batchSize items start batches =
           Some (Inr (batches @ chunks (nat (sint batchSize)) (drop (nat (sint start)) items)))"
  using assms(3,4)
proof (induction "nat (int (length items) - sint start)" arbitrary: start batches
    rule: less_induct)
  case less
  let ?n = "nat (sint batchSize)" and ?rest = "drop (nat (sint start)) items"
  show ?case
  proof (cases "int (length items) - sint start \<le> sint batchSize")
    case True
    moreover have "chunks ?n ?rest = [?rest]"
      using True less.prems by (intro chunks_short) auto
    ultimately show ?thesis
      using less.prems assms(1)
      by (subst GetBatches_loop.simps) (simp add: GetBatch_last)
  next
    case False
    then have more: "sint batchSize < int (length items) - sint start" by simp
    note gb = GetBatch_more [OF assms(1) less.prems(1) _ more]
    have "chunks ?n ?rest = take ?n ?rest # chunks ?n (drop ?n ?rest)"
      using more assms(2) less.prems by (intro chunks_long) auto
    moreover have "drop ?n ?rest = drop (nat (sint (start + batchSize))) items"
      using gb(2) assms(2) less.prems by (simp add: nat_add_distrib add.commute)
    moreover have "GetBatches_loop batchSize items (start + batchSize) (batches @ [take ?n ?rest]) =
        Some (Inr ((batches @ [take ?n ?rest]) @
          chunks ?n (drop (nat (sint (start + batchSize))) items)))"
      using gb(2) assms(2) less.prems more by (intro less.hyps) auto
    ultimately show ?thesis
      using gb(1) assms(2) by (subst GetBatches_loop.simps) simp
  qed
qed

text \<open>
  C30. For every positive batch size, \<open>GetBatches\<close> returns, does not panic, and its
  result is the reference cutting of the items into consecutive runs: joined together
  the batches are the items in order, none is empty or longer than the batch size, and all
  but the last have exactly the batch size.
\<close>

theorem GetBatches_correct:
  assumes "fits items" and "0 < sint batchSize"
  shows "\<exists>bs. GetBatches batchSize items = Some (Inr bs)
           \<and> bs = chunks (nat (sint batchSize)) items
           \<and> concat bs = items
           \<and> (\<forall>b \<in> set bs. b \<noteq> [] \<and> length b \<le> nat (sint batchSize))
           \<and> (\<forall>b \<in> set (butlast bs). length b = nat (sint batchSize))"
proof -
  let ?bs = "chunks (nat (sint batchSize)) items"
  have "GetBatches batchSize items = Some (Inr ?bs)"
    using assms by (auto simp: GetBatches_def GetBatches_loop_chunks)
  moreover have "0 < nat (sint batchSize)" using assms(2) by simp
  ultimately show ?thesis
    by (intro exI [of _ ?bs]) (auto simp: chunks_full dest: chunks_bounds [rotated])
qed

theorem GetBatches_correct_witness:
  "GetBatches 2 [10, 20, 30, 40, 50 :: int] = Some (Inr [[10, 20], [30, 40], [50]])"
proof -
  have "fits [10, 20, 30, 40, 50 :: int]" and "0 < sint (2 :: int64)"
    by (simp_all add: fits_def)
  from GetBatches_correct [OF this] show ?thesis
    by (simp add: chunks.simps)
qed

text \<open>
  C31. A batch size of 0 on a non-empty slice never returns: \<open>GetBatch\<close> yields an
  empty batch and says that more follow, and the start index does not move.
\<close>

theorem GetBatches_zero_diverges:
  assumes "fits items" and "items \<noteq> []"
  shows "GetBatches 0 items = None"
proof -
  have step: "GetBatch 0 0 items = Inr ([], True)"
    using GetBatch_more(1) [OF assms(1), of 0 0] assms(2) by simp
  have "False" if "GetBatches_loop 0 items 0 batches = Some r" for batches r
  proof -
    have "b = 0 \<longrightarrow> xs = items \<longrightarrow> s = 0 \<longrightarrow> False"
      if "GetBatches_loop b xs s acc = Some r"
      for b s :: int64 and xs :: "'a list" and acc r
      using that
    proof (rule GetBatches_loop.raw_induct
        [where P = "\<lambda>b xs s acc r. b = 0 \<longrightarrow> xs = items \<longrightarrow> s = 0 \<longrightarrow> False", rotated])
      fix f b xs s acc r
      assume IH: "\<And>b xs s acc r. f b xs s acc = Some r \<Longrightarrow> b = 0 \<longrightarrow> xs = items \<longrightarrow> s = 0 \<longrightarrow> False"
        and eq: "(case GetBatch s b xs of Inl p \<Rightarrow> Some (Inl p)
              | Inr r \<Rightarrow> if snd r then f b xs (s + b) (acc @ [fst r])
                        else Some (Inr (acc @ [fst r]))) = Some r"
      show "b = 0 \<longrightarrow> xs = items \<longrightarrow> s = 0 \<longrightarrow> False"
      proof (intro impI)
        assume "b = 0" "xs = items" "s = 0"
        with eq step have "f 0 items 0 (acc @ [[]]) = Some r" by simp
        from IH [OF this] show False by simp
      qed
    qed
    with that show False by blast
  qed
  then have "GetBatches_loop 0 items 0 [] = None"
    by (cases "GetBatches_loop 0 items 0 []") blast+
  with assms(2) show ?thesis by (simp add: GetBatches_def)
qed

theorem GetBatches_zero_diverges_witness: "GetBatches 0 [7 :: int] = None"
proof -
  have "fits [7 :: int]" and "[7 :: int] \<noteq> []" by (simp_all add: fits_def)
  then show ?thesis by (rule GetBatches_zero_diverges)
qed

end
