(* ===== verification/Kinesis.thy ===== *)
theory Kinesis
  imports Batch
begin

text \<open>
  The package \<open>internal/kinesis\<close> (\<open>kinesis.go\<close>): the client that puts records on an
  AWS Kinesis stream. It keeps a service handle and the expiry time of its credentials,
  replaces the handle when the credentials of an assumed role are about to expire, and puts
  records in batches of at most 500.

  The AWS SDK, the clock and the option library are not part of the repository: they are
  the parameters \<open>aws\<close> (a record of functions), \<open>apply_opts\<close> and \<open>required\<close>. Every
  call to the SDK or the clock is appended to a history, and every answer is a function
  of the history so far and of the request, so that a theorem about all \<open>aws\<close> covers every
  behaviour of the service, also one that changes its answers over time. Logging is left
  out.
\<close>

section \<open>Time\<close>

text \<open>
  A \<open>time.Time\<close> is the number of nanoseconds since the Unix epoch; \<open>Unix\<close> rounds
  down to seconds as Go's method does, and \<open>zero_time\<close> is \<open>time.Time{}\<close>, midnight of
  1 January of year 1.
\<close>

type_synonym time = int

definition Unix :: "time \<Rightarrow> int" where
  "Unix t = t div 10 ^ 9"

definition zero_time :: time where
  "zero_time = - 62135596800 * 10 ^ 9"

definition minutes :: "int \<Rightarrow> time" where
  "minutes n = n * 60 * 10 ^ 9"

section \<open>The data of the package\<close>

text \<open>A \<open>*zap.Logger\<close>: only whether it is \<open>nil\<close> matters.\<close>

type_synonym logger = "unit option"

record Credentials =
  AccessKey_c :: string
  SecretKey_c :: string
  SessionToken_c :: string

record Item =
  PartitionKey_i :: string
  Item_i :: bytes

record 'k KinesisClient =
  svc :: "'k option"
  logger_c :: logger
  region_c :: string
  endpoint_c :: string
  role_c :: string
  creds_c :: Credentials
  credsExpireAt :: time

definition MaxPutRecordsBatchSize :: int64 where
  "MaxPutRecordsBatchSize = 500"

section \<open>The service, as a parameter\<close>

record put_entry =
  Data :: bytes
  PartitionKey :: string

record put_input =
  Records :: "put_entry list"
  StreamName_p :: string

record put_output =
  FailedRecordCount :: "int32 option"  \<comment> \<open>a pointer in the SDK\<close>

text \<open>The options passed to \<open>config.LoadDefaultConfig\<close>; \<open>None\<close> is an option not given.\<close>

record load_opts =
  lo_region :: string
  lo_retry_max :: "int option"
  lo_http_timeout :: "time option"
  lo_base_endpoint :: "string option"
  lo_static_creds :: "(string \<times> string \<times> string) option"

record sts_response =
  sts_AccessKeyID :: string
  sts_SecretAccessKey :: string
  sts_SessionToken :: string
  sts_Expires :: time

text \<open>\<open>DescribeStreamOutput\<close>, as far as \<open>GetRecords\<close> reads it: every level is a pointer.\<close>

record shard =
  StartingSequenceNumber :: "string option option"  \<comment> \<open>the range, then the number in it\<close>

record describe_output =
  StreamDescription :: "shard list option"

datatype ('k, 'c) aws_call =
    NowCall
  | LoadCall load_opts
  | RetrieveCall 'c string
  | PutRecordCall 'k put_entry string
  | PutRecordsCall 'k put_input
  | DescribeCall 'k string
  | IteratorCall 'k string string string
  | GetRecordsCall 'k "string option"

type_synonym ('k, 'c) history = "('k, 'c) aws_call list"

record ('k, 'c) aws =
  aws_now :: "('k, 'c) history \<Rightarrow> time"
  aws_load :: "('k, 'c) history \<Rightarrow> load_opts \<Rightarrow> 'c \<times> go_err option"
  aws_retrieve :: "('k, 'c) history \<Rightarrow> 'c \<Rightarrow> string \<Rightarrow> sts_response \<times> go_err option"
  aws_from_config :: "'c \<Rightarrow> 'k"
  aws_put_record :: "('k, 'c) history \<Rightarrow> 'k \<Rightarrow> put_entry \<Rightarrow> string \<Rightarrow> string option \<times> go_err option"
  aws_put_records :: "('k, 'c) history \<Rightarrow> 'k \<Rightarrow> put_input \<Rightarrow> put_output option \<times> go_err option"
  aws_describe :: "('k, 'c) history \<Rightarrow> 'k \<Rightarrow> string \<Rightarrow> describe_output option \<times> go_err option"
  aws_iterator :: "('k, 'c) history \<Rightarrow> 'k \<Rightarrow> string \<Rightarrow> string \<Rightarrow> string
                    \<Rightarrow> string option option \<times> go_err option"
  aws_get_records :: "('k, 'c) history \<Rightarrow> 'k \<Rightarrow> string option \<Rightarrow> string list option \<times> go_err option"

section \<open>Creating and refreshing the client\<close>

text \<open>
  \<open>getClient\<close> builds a service handle: with a role, it loads a configuration for STS,
  retrieves credentials for the role and loads a second configuration with them; without a
  role it uses the configured credentials. The result is Go's
  \<open>(KinesisAPI, time.Time, error)\<close>.
\<close>

definition sts_load_opts :: "'k KinesisClient \<Rightarrow> load_opts" where
  "sts_load_opts c =
     \<lparr>lo_region = region_c c, lo_retry_max = Some 3, lo_http_timeout = Some (10 * 10 ^ 9),
      lo_base_endpoint = None, lo_static_creds = None\<rparr>"

definition role_load_opts :: "'k KinesisClient \<Rightarrow> sts_response \<Rightarrow> load_opts" where
  "role_load_opts c r =
     \<lparr>lo_region = region_c c, lo_retry_max = None, lo_http_timeout = None,
      lo_base_endpoint = Some (endpoint_c c),
      lo_static_creds = Some (sts_AccessKeyID r, sts_SecretAccessKey r, sts_SessionToken r)\<rparr>"

definition local_load_opts :: "'k KinesisClient \<Rightarrow> load_opts" where
  "local_load_opts c =
     \<lparr>lo_region = region_c c, lo_retry_max = None, lo_http_timeout = None,
      lo_base_endpoint = Some (endpoint_c c),
      lo_static_creds = Some (AccessKey_c (creds_c c), SecretKey_c (creds_c c),
        SessionToken_c (creds_c c))\<rparr>"

definition getClient :: "('k, 'c) aws \<Rightarrow> 'k KinesisClient \<Rightarrow> ('k, 'c) history
    \<Rightarrow> ('k option \<times> time \<times> go_err option) \<times> ('k, 'c) history" where
  "getClient aws c h =
     (if role_c c \<noteq> '''' then
        let (cfg, err) = aws_load aws h (sts_load_opts c);
            h1 = h @ [LoadCall (sts_load_opts c)]
        in case err of Some e \<Rightarrow> ((None, zero_time, Some e), h1)
           | None \<Rightarrow>
        let (resp, err) = aws_retrieve aws h1 cfg (role_c c);
            h2 = h1 @ [RetrieveCall cfg (role_c c)]
        in case err of Some e \<Rightarrow> ((None, zero_time, Some e), h2)
           | None \<Rightarrow>
        let (cfg2, err) = aws_load aws h2 (role_load_opts c resp);
            h3 = h2 @ [LoadCall (role_load_opts c resp)]
        in case err of Some e \<Rightarrow> ((None, zero_time, Some e), h3)
           | None \<Rightarrow> ((Some (aws_from_config aws cfg2), sts_Expires resp, None), h3)
      else
        let (cfg, err) = aws_load aws h (local_load_opts c);
            h1 = h @ [LoadCall (local_load_opts c)]
        in case err of Some e \<Rightarrow> ((None, zero_time, Some e), h1)
           | None \<Rightarrow> ((Some (aws_from_config aws cfg), zero_time, None), h1))"

text \<open>
  \<open>refreshClient\<close> runs before each put: only with a role, and only when the credentials
  expire within three minutes. An error is logged and the old handle stays.
\<close>

definition refreshClient :: "('k, 'c) aws \<Rightarrow> 'k KinesisClient \<Rightarrow> ('k, 'c) history
    \<Rightarrow> 'k KinesisClient \<times> ('k, 'c) history" where
  "refreshClient aws c h =
     (if role_c c \<noteq> '''' then
        let now = aws_now aws h; h1 = h @ [NowCall] in
        if Unix (credsExpireAt c) \<le> Unix (now + minutes 3) then
          let ((k, expire, err), h2) = getClient aws c h1 in
          case err of Some e \<Rightarrow> (c, h2)
          | None \<Rightarrow> (c\<lparr>credsExpireAt := expire, svc := k\<rparr>, h2)
        else (c, h1)
      else (c, h))"

text \<open>
  The options of \<open>New\<close>, as a datatype; applying them and checking the required ones is
  the option library's work, hence the parameters \<open>apply_opts\<close> and \<open>required\<close>.
\<close>

datatype kinesis_option =
    WithRegion string
  | WithEndpoint string
  | WithRole string
  | WithCredentials Credentials
  | WithLogger_k logger

type_synonym ('o, 's) apply_fun = "'o list \<Rightarrow> 's \<Rightarrow> 's \<times> go_err option"
type_synonym ('o, 's) required_fun = "'o list \<Rightarrow> 's \<Rightarrow> go_err option"

definition empty_client :: "'k KinesisClient" where
  "empty_client = \<lparr>svc = None, logger_c = None, region_c = '''', endpoint_c = '''',
     role_c = '''', creds_c = \<lparr>AccessKey_c = '''', SecretKey_c = '''', SessionToken_c = ''''\<rparr>,
     credsExpireAt = zero_time\<rparr>"

definition checkRequired_k ::
    "(kinesis_option, 'k KinesisClient) required_fun \<Rightarrow> 'k KinesisClient \<Rightarrow> go_err option" where
  "checkRequired_k required c =
     required [WithRegion '''', WithEndpoint '''', WithLogger_k None] c"

definition New_k :: "(kinesis_option, 'k KinesisClient) apply_fun
    \<Rightarrow> (kinesis_option, 'k KinesisClient) required_fun \<Rightarrow> ('k, 'c) aws
    \<Rightarrow> kinesis_option list \<Rightarrow> ('k, 'c) history
    \<Rightarrow> ('k KinesisClient option \<times> go_err option) \<times> ('k, 'c) history" where
  "New_k apply_opts required aws opt h =
     (case apply_opts opt empty_client of
        (_, Some e) \<Rightarrow> ((None, Some e), h)
      | (c, None) \<Rightarrow>
          (case checkRequired_k required c of
             Some e \<Rightarrow> ((None, Some e), h)
           | None \<Rightarrow>
               let ((k, expire, err), h1) = getClient aws c h in
               case err of
                 Some e \<Rightarrow> ((None, Some e), h1)
               | None \<Rightarrow> ((Some (c\<lparr>credsExpireAt := expire, svc := k\<rparr>), None), h1)))"

text \<open>
  The factory of clients, \<open>KinesisFactory\<close>, has no state: its \<open>Get\<close> is \<open>New\<close>. The
  provider is a non-\<open>nil\<close> interface.
\<close>

definition KinesisFactory_Get :: "(kinesis_option, 'k KinesisClient) apply_fun
    \<Rightarrow> (kinesis_option, 'k KinesisClient) required_fun \<Rightarrow> ('k, 'c) aws
    \<Rightarrow> kinesis_option list \<Rightarrow> ('k, 'c) history
    \<Rightarrow> ('k KinesisClient option \<times> go_err option) \<times> ('k, 'c) history" where
  "KinesisFactory_Get apply_opts required aws opt h = New_k apply_opts required aws opt h"

definition NewKinesisProvider :: "(kinesis_option, 'k KinesisClient) apply_fun
    \<Rightarrow> (kinesis_option, 'k KinesisClient) required_fun \<Rightarrow> ('k, 'c) aws
    \<Rightarrow> (kinesis_option list \<Rightarrow> ('k, 'c) history
         \<Rightarrow> ('k KinesisClient option \<times> go_err option) \<times> ('k, 'c) history) option" where
  "NewKinesisProvider apply_opts required aws = Some (KinesisFactory_Get apply_opts required aws)"

section \<open>Putting records\<close>

definition PutRecord :: "('k, 'c) aws \<Rightarrow> bytes \<Rightarrow> string \<Rightarrow> string \<Rightarrow> 'k KinesisClient
    \<Rightarrow> ('k, 'c) history
    \<Rightarrow> (go_panic + string option \<times> go_err option) \<times> 'k KinesisClient \<times> ('k, 'c) history" where
  "PutRecord aws event stream partitionKey c h =
     (let (c1, h1) = refreshClient aws c h; entry = \<lparr>Data = event, PartitionKey = partitionKey\<rparr> in
      case svc c1 of None \<Rightarrow> (Inl NilDeref, c1, h1)
      | Some k \<Rightarrow> (Inr (aws_put_record aws h1 k entry stream), c1, h1 @ [PutRecordCall k entry stream]))"

definition to_entry :: "Item \<Rightarrow> put_entry" where
  "to_entry item = \<lparr>Data = Item_i item, PartitionKey = PartitionKey_i item\<rparr>"

text \<open>
  One turn of the loop of \<open>PutRecords\<close>: the request, the sum of failed records kept
  in an \<open>int32\<close> that wraps, the dereference of a count that the service may leave out.
\<close>

definition put_batch :: "('k, 'c) aws \<Rightarrow> Item list \<Rightarrow> string \<Rightarrow> int32 \<Rightarrow> 'k KinesisClient
    \<Rightarrow> ('k, 'c) history
    \<Rightarrow> (go_panic + int32 \<times> go_err option) \<times> 'k KinesisClient \<times> ('k, 'c) history" where
  "put_batch aws batch stream failed c h =
     (let (c1, h1) = refreshClient aws c h;
          input = \<lparr>Records = map to_entry batch, StreamName_p = stream\<rparr> in
      case svc c1 of None \<Rightarrow> (Inl NilDeref, c1, h1)
      | Some k \<Rightarrow>
          let (putOutput, err) = aws_put_records aws h1 k input;
              h2 = h1 @ [PutRecordsCall k input] in
          case putOutput of None \<Rightarrow> (Inr (failed, err), c1, h2)
          | Some out \<Rightarrow>
              (case FailedRecordCount out of None \<Rightarrow> (Inl NilDeref, c1, h2)
               | Some n \<Rightarrow> (Inr (failed + n, err), c1, h2)))"

function PutRecords_loop :: "('k, 'c) aws \<Rightarrow> Item list \<Rightarrow> string \<Rightarrow> int64 \<Rightarrow> int32
    \<Rightarrow> 'k KinesisClient \<Rightarrow> ('k, 'c) history
    \<Rightarrow> (go_panic + int \<times> go_err option) \<times> 'k KinesisClient \<times> ('k, 'c) history" where
  "PutRecords_loop aws items stream start failed c h =
     (case GetBatch start MaxPutRecordsBatchSize items of
        Inl p \<Rightarrow> (Inl p, c, h)
      | Inr (batch, notDone) \<Rightarrow>
          (case put_batch aws batch stream failed c h of
             (Inl p, c', h') \<Rightarrow> (Inl p, c', h')
           | (Inr (failed', Some e), c', h') \<Rightarrow> (Inr (sint failed', Some e), c', h')
           | (Inr (failed', None), c', h') \<Rightarrow>
               if notDone
               then PutRecords_loop aws items stream (start + MaxPutRecordsBatchSize) failed' c' h'
               else (Inr (sint failed', None), c', h')))"
  by pat_completeness auto
termination
  by (relation "measure (\<lambda>(aws, items, stream, start, failed, c, h).
        nat (sint (go_len items - start)))")
     (auto simp: MaxPutRecordsBatchSize_def simp del: nat_less_eq_zless zless_nat_conj intro!: GetBatch_progress)

declare PutRecords_loop.simps [simp del]

definition PutRecords :: "('k, 'c) aws \<Rightarrow> Item list \<Rightarrow> string
    \<Rightarrow> 'k KinesisClient \<Rightarrow> ('k, 'c) history
    \<Rightarrow> (go_panic + int \<times> go_err option) \<times> 'k KinesisClient \<times> ('k, 'c) history" where
  "PutRecords aws items stream c h = PutRecords_loop aws items stream 0 0 c h"


section \<open>Reading records\<close>

text \<open>
  \<open>GetRecords\<close> is for the integration tests only. An error of the last call panics
  (the \<open>if\<close> after it in the source is dead code); a missing iterator output is
  dereferenced.
\<close>

definition starting_sequence :: "describe_output option \<Rightarrow> go_err + string" where
  "starting_sequence description =
     (case description of None \<Rightarrow> Inl (GoErr ''description is nil'')
      | Some d \<Rightarrow>
     (case StreamDescription d of None \<Rightarrow> Inl (GoErr ''stream description is nil'')
      | Some shards \<Rightarrow>
     (case shards of [] \<Rightarrow> Inl (GoErr ''no shards found'')
      | s # _ \<Rightarrow>
     (case StartingSequenceNumber s of None \<Rightarrow> Inl (GoErr ''sequence number range is nil'')
      | Some number \<Rightarrow>
     (case number of None \<Rightarrow> Inl (GoErr ''starting sequence number is nil'')
      | Some sequenceNo \<Rightarrow> Inr sequenceNo)))))"

definition read_shard :: "('k, 'c) aws \<Rightarrow> string \<Rightarrow> 'k \<Rightarrow> string \<Rightarrow> ('k, 'c) history
    \<Rightarrow> (go_panic + string list option \<times> go_err option) \<times> ('k, 'c) history" where
  "read_shard aws stream k sequenceNo h =
     (let shardId = ''shardId-000000000000'';
          (iteratorOutput, err) = aws_iterator aws h k shardId sequenceNo stream;
          h1 = h @ [IteratorCall k shardId sequenceNo stream] in
      case err of Some e \<Rightarrow> (Inr (None, Some e), h1)
      | None \<Rightarrow>
     (case iteratorOutput of None \<Rightarrow> (Inl NilDeref, h1)
      | Some shardIterator \<Rightarrow>
     (let (records, err) = aws_get_records aws h1 k shardIterator;
          h2 = h1 @ [GetRecordsCall k shardIterator] in
      case err of Some e \<Rightarrow> (Inl (PanicErr e), h2) | None \<Rightarrow> (Inr (records, None), h2))))"

definition GetRecords :: "('k, 'c) aws \<Rightarrow> string \<Rightarrow> 'k KinesisClient \<Rightarrow> ('k, 'c) history
    \<Rightarrow> (go_panic + string list option \<times> go_err option) \<times> ('k, 'c) history" where
  "GetRecords aws stream c h =
     (case svc c of None \<Rightarrow> (Inl NilDeref, h)
      | Some k \<Rightarrow>
     (let (description, err) = aws_describe aws h k stream; h1 = h @ [DescribeCall k stream] in
      case err of Some e \<Rightarrow> (Inr (None, Some e), h1)
      | None \<Rightarrow>
     (case starting_sequence description of Inl e \<Rightarrow> (Inr (None, Some e), h1)
      | Inr sequenceNo \<Rightarrow> read_shard aws stream k sequenceNo h1)))"

section \<open>What the history records\<close>

fun puts :: "('k, 'c) history \<Rightarrow> put_input list" where
  "puts [] = []"
| "puts (x # xs) = (case x of PutRecordsCall k i \<Rightarrow> [i] | _ \<Rightarrow> []) @ puts xs"

text \<open>
  The answers the service gave to the put requests of a stretch of calls \<open>xs\<close> that
  follows the history \<open>h\<close>.
\<close>

fun put_answers :: "('k, 'c) aws \<Rightarrow> ('k, 'c) history \<Rightarrow> ('k, 'c) history
    \<Rightarrow> (put_output option \<times> go_err option) list" where
  "put_answers aws h [] = []"
| "put_answers aws h (x # xs) =
     (case x of PutRecordsCall k i \<Rightarrow> [aws_put_records aws h k i] | _ \<Rightarrow> [])
     @ put_answers aws (h @ [x]) xs"

definition count_of :: "put_output option \<times> go_err option \<Rightarrow> int32" where
  "count_of a = (case fst a of None \<Rightarrow> 0
     | Some out \<Rightarrow> (case FailedRecordCount out of None \<Rightarrow> 0 | Some n \<Rightarrow> n))"

lemma puts_append [simp]: "puts (xs @ ys) = puts xs @ puts ys"
  by (induction xs) auto

lemma put_answers_append [simp]:
  "put_answers aws h (xs @ ys) = put_answers aws h xs @ put_answers aws (h @ xs) ys"
  by (induction xs arbitrary: h) auto

lemma put_answers_no_puts: "puts xs = [] \<Longrightarrow> put_answers aws h xs = []"
  by (induction xs arbitrary: h) (auto split: aws_call.splits)

lemma length_put_answers: "length (put_answers aws h xs) = length (puts xs)"
  by (induction xs arbitrary: h) (auto split: aws_call.splits)

section \<open>The client is created and refreshed\<close>

lemma getClient_frame:
  assumes "getClient aws c h = ((k, expire, err), h')"
  shows "\<exists>ext. h' = h @ ext \<and> puts ext = []" and "err = None \<Longrightarrow> k \<noteq> None"
  using assms
  by (auto simp: getClient_def Let_def split: if_splits prod.splits option.splits)

lemma refreshClient_frame:
  assumes "refreshClient aws c h = (c', h')"
  shows "\<exists>ext. h' = h @ ext \<and> puts ext = []"
    and "svc c \<noteq> None \<Longrightarrow> svc c' \<noteq> None"
    and "c' = c\<lparr>credsExpireAt := credsExpireAt c', svc := svc c'\<rparr>"
  using assms
  by (auto simp: refreshClient_def Let_def split: if_splits prod.splits option.splits
      dest: getClient_frame)

lemma New_k_svc: "New_k ap rq aws opt h = ((Some c, e), h') \<Longrightarrow> svc c \<noteq> None \<and> e = None"
  by (auto simp: New_k_def split: if_splits prod.splits option.splits dest: getClient_frame)

lemma New_k_ok: "New_k ap rq aws opt h = ((r, None), h') \<Longrightarrow> \<exists>c. r = Some c \<and> svc c \<noteq> None"
  by (auto simp: New_k_def split: if_splits prod.splits option.splits dest: getClient_frame)


section \<open>What \<open>PutRecords\<close> asks of the service\<close>

definition put_request :: "string \<Rightarrow> Item list \<Rightarrow> put_input" where
  "put_request stream batch = \<lparr>Records = map to_entry batch, StreamName_p = stream\<rparr>"

text \<open>The batches of a call: at most 500 items each, and one empty batch for no items.\<close>

definition put_batches :: "Item list \<Rightarrow> Item list list" where
  "put_batches items = (if items = [] then [[]] else chunks 500 items)"

lemma put_batches_not_Nil [simp]: "put_batches items \<noteq> []"
  by (simp add: put_batches_def)

lemma concat_put_batches [simp]: "concat (put_batches items) = items"
  by (simp add: put_batches_def)

lemma put_batches_le: "b \<in> set (put_batches items) \<Longrightarrow> length b \<le> 500"
  using chunks_bounds [of 500 b items] by (auto simp: put_batches_def split: if_splits)

lemma put_batch_effect:
  assumes "put_batch aws b stream failed c h = (r, c', h')" and "svc c \<noteq> None"
  shows "\<exists>ext ans. h' = h @ ext \<and> puts ext = [put_request stream b]
           \<and> put_answers aws h ext = [ans] \<and> svc c' \<noteq> None
           \<and> (\<forall>n e. r = Inr (n, e) \<longrightarrow> n = failed + count_of ans \<and> e = snd ans)"
proof -
  obtain c1 h1 where rc: "refreshClient aws c h = (c1, h1)" by fastforce
  from refreshClient_frame [OF rc] assms(2) obtain ext k
    where ext: "h1 = h @ ext" "puts ext = []" and k: "svc c1 = Some k" by auto
  let ?ans = "aws_put_records aws h1 k (put_request stream b)"
  have "h' = h @ (ext @ [PutRecordsCall k (put_request stream b)])" "svc c' \<noteq> None"
    and "\<forall>n e. r = Inr (n, e) \<longrightarrow> n = failed + count_of ?ans \<and> e = snd ?ans"
    using assms(1) rc ext k
    by (auto simp: put_batch_def put_request_def count_of_def Let_def
        split: option.splits prod.splits)
  then show ?thesis
    using ext put_answers_no_puts [of ext aws h]
    by (intro exI [of _ "ext @ [PutRecordsCall k (put_request stream b)]"] exI [of _ ?ans]) simp
qed

text \<open>
  The loop, from any start index: the requests are a non-empty initial part of the batches
  of what is left, all of them if the loop ends without an error, and the last
  answer is the one whose error is returned.
\<close>

definition loop_effect where
  "loop_effect aws stream items failed c' h h' r \<longleftrightarrow>
     (\<exists>ext j. h' = h @ ext \<and> svc c' \<noteq> None \<and> 0 < j \<and> j \<le> length (put_batches items)
        \<and> puts ext = map (put_request stream) (take j (put_batches items))
        \<and> (\<forall>n e. r = Inr (n, e) \<longrightarrow>
             n = sint (failed + sum_list (map count_of (put_answers aws h ext)))
             \<and> map snd (put_answers aws h ext) = replicate (j - 1) None @ [e]
             \<and> (e = None \<longrightarrow> j = length (put_batches items))))"

lemma loop_effect_single:
  assumes "h' = h @ ext" "puts ext = [put_request stream b]" "put_answers aws h ext = [ans]"
    and "svc c' \<noteq> None" "b # bs = put_batches items"
    and "\<And>n e. r = Inr (n, e) \<Longrightarrow> n = sint (failed + count_of ans) \<and> e = snd ans
           \<and> (e = None \<longrightarrow> bs = [])"
  shows "loop_effect aws stream items failed c' h h' r"
  unfolding loop_effect_def
  using assms by (intro exI [of _ ext] exI [of _ 1]) (auto simp flip: assms(5))

lemma loop_effect_step:
  assumes "h1 = h @ ext1" "puts ext1 = [put_request stream b]" "put_answers aws h ext1 = [ans]"
    and "snd ans = None" "put_batches items = b # put_batches rest"
    and "loop_effect aws stream rest (failed + count_of ans) c' h1 h' r"
  shows "loop_effect aws stream items failed c' h h' r"
proof -
  from assms(6) obtain ext j where e: "h' = h1 @ ext" "svc c' \<noteq> None" "0 < j"
      "j \<le> length (put_batches rest)"
      "puts ext = map (put_request stream) (take j (put_batches rest))"
      "\<forall>n e. r = Inr (n, e) \<longrightarrow>
         n = sint (failed + count_of ans + sum_list (map count_of (put_answers aws h1 ext)))
         \<and> map snd (put_answers aws h1 ext) = replicate (j - 1) None @ [e]
         \<and> (e = None \<longrightarrow> j = length (put_batches rest))"
    unfolding loop_effect_def by blast
  then obtain i where "j = Suc i" by (cases j) auto
  with e assms show ?thesis
    unfolding loop_effect_def
    by (intro exI [of _ "ext1 @ ext"] exI [of _ "Suc j"]) (auto simp: add.assoc)
qed

lemma PutRecords_loop_effect:
  assumes "fits items" and "svc c \<noteq> None" "0 \<le> sint start"
    and "items = [] \<and> start = 0 \<or> sint start < int (length items)"
    and "PutRecords_loop aws items stream start failed c h = (r, c', h')"
  shows "loop_effect aws stream (drop (nat (sint start)) items) failed c' h h' r"
  using assms(2-5)
proof (induction "nat (int (length items) - sint start)" arbitrary: start failed c h
    rule: less_induct)
  case less
  let ?rest = "drop (nat (sint start)) items" and ?M = "MaxPutRecordsBatchSize"
  let ?b = "take 500 ?rest" and ?start = "start + ?M"
  have M: "sint ?M = 500" by (simp add: MaxPutRecordsBatchSize_def)
  obtain r1 c1 h1 where b: "put_batch aws ?b stream failed c h = (r1, c1, h1)"
    by (metis prod_cases3)
  from put_batch_effect [OF b] less.prems(1) obtain ext ans where e: "h1 = h @ ext"
      "puts ext = [put_request stream ?b]" "put_answers aws h ext = [ans]" "svc c1 \<noteq> None"
      "\<forall>n e. r1 = Inr (n, e) \<longrightarrow> n = failed + count_of ans \<and> e = snd ans" by blast
  show ?case
  proof (cases "int (length items) - sint start \<le> 500")
    case True
    then have gb: "GetBatch start ?M items = Inr (?b, False)"
      using less.prems assms(1) M by (subst GetBatch_last) auto
    have pb: "?b # [] = put_batches ?rest"
      using True less.prems by (auto simp: put_batches_def chunks_short)
    have "c' = c1" "h' = h1" "\<And>n e. r = Inr (n, e) \<Longrightarrow> n = sint (failed + count_of ans) \<and> e = snd ans"
      using less.prems(4) e(5) gb b
      by (auto simp: PutRecords_loop.simps [of aws items stream start]
          split: sum.splits option.splits prod.splits)
    with e pb show ?thesis by (intro loop_effect_single [OF _ e(2) e(3) _ pb]) auto
  next
    case False
    then have more: "sint ?M < int (length items) - sint start" using M by simp
    note gb = GetBatch_more [OF assms(1) less.prems(2) _ more]
    have next_start: "drop 500 ?rest = drop (nat (sint ?start)) items" "sint ?start = sint start + 500"
      using gb(2) M less.prems(2) by (simp_all add: nat_add_distrib add.commute)
    have pb: "?b # put_batches (drop 500 ?rest) = put_batches ?rest"
    proof -
      have "500 < length items - nat (sint start)" using more M less.prems(2) by linarith
      moreover from this have "\<not> length items \<le> 500 + nat (sint start)" by linarith
      ultimately show ?thesis by (simp add: put_batches_def chunks_long)
    qed
    show ?thesis
    proof (cases "r1 = Inr (failed + count_of ans, None)")
      case True
      then have "snd ans = None" using e(5) by simp
      moreover have "PutRecords_loop aws items stream ?start (failed + count_of ans) c1 h1 = (r, c', h')"
        using less.prems(4) gb(1) M b True by (simp add: PutRecords_loop.simps [of aws items stream start])
      moreover from this have "loop_effect aws stream (drop (nat (sint ?start)) items) (failed + count_of ans) c' h1 h' r"
        using less.prems(2) next_start e(4) more M by (intro less.hyps) auto
      ultimately show ?thesis
        using next_start(1) e pb by (intro loop_effect_step [OF _ e(2) e(3)]) simp_all
    next
      case False
      have "c' = c1" "h' = h1" "\<And>n e. r = Inr (n, e) \<Longrightarrow>
          n = sint (failed + count_of ans) \<and> e = snd ans \<and> e \<noteq> None"
        using less.prems(4) gb(1) M b False e(5)
        by (auto simp: PutRecords_loop.simps [of aws items stream start]
            split: sum.splits option.splits prod.splits)
      with e show ?thesis by (intro loop_effect_single [OF _ e(2) e(3) _ pb]) auto
    qed
  qed
qed


lemma PutRecords_effect:
  assumes "fits items" "svc c \<noteq> None" and "PutRecords aws items stream c h = (r, c', h')"
  shows "loop_effect aws stream items 0 c' h h' r"
  using PutRecords_loop_effect [of items c 0] assms by (cases items) (auto simp: PutRecords_def)

text \<open>Whatever the length of the items, the history only grows and the handle stays.\<close>

lemma PutRecords_loop_frame:
  "PutRecords_loop aws items stream start failed c h = (r, c', h') \<Longrightarrow> svc c \<noteq> None \<Longrightarrow>
     svc c' \<noteq> None \<and> (\<exists>ext. h' = h @ ext)"
proof (induction aws items stream start failed c h arbitrary: r c' h' rule: PutRecords_loop.induct)
  case (1 aws items stream start failed c h)
  note unfolded = "1.prems"(1) [unfolded PutRecords_loop.simps [of aws items stream start failed c h]]
  show ?case
  proof (cases "GetBatch start MaxPutRecordsBatchSize items")
    case (Inl p)
    with unfolded "1.prems"(2) show ?thesis by simp
  next
    case (Inr bm)
    obtain b notDone where bm: "bm = (b, notDone)" by fastforce
    obtain r1 c1 h1 where pb: "put_batch aws b stream failed c h = (r1, c1, h1)"
      by (metis prod_cases3)
    from put_batch_effect [OF pb "1.prems"(2)] have f: "svc c1 \<noteq> None" "\<exists>ext. h1 = h @ ext" by auto
    show ?thesis
    proof (cases "\<exists>n. r1 = Inr (n, None) \<and> notDone")
      case True
      then obtain n where n: "r1 = Inr (n, None)" "notDone" by blast
      with unfolded Inr bm pb
      have "PutRecords_loop aws items stream (start + MaxPutRecordsBatchSize) n c1 h1 = (r, c', h')"
        by simp
      from "1.IH" [OF Inr bm [symmetric] pb [symmetric] n(1) refl refl refl n(2) this f(1)] f(2)
      show ?thesis by auto
    next
      case False
      with unfolded Inr bm pb have "c' = c1" "h' = h1"
        by (auto split: sum.splits option.splits prod.splits if_splits)
      with f show ?thesis by simp
    qed
  qed
qed

lemma PutRecords_frame:
  "PutRecords aws items stream c h = (r, c', h') \<Longrightarrow> svc c \<noteq> None \<Longrightarrow>
     svc c' \<noteq> None \<and> (\<exists>ext. h' = h @ ext)"
  unfolding PutRecords_def by (rule PutRecords_loop_frame)

section \<open>Properties of the client\<close>

text \<open>
  C16. A call of \<open>PutRecords\<close> that returns has sent the items in order, in batches of
  at most 500, to the named stream: the requests are a non-empty initial part of the
  batches; every answer but the last was free of error, and the returned error is the one of
  the last answer; without an error all batches were sent. The returned count is the sum of
  the counts in the answers, taken in 32 bits.
\<close>

theorem PutRecords_requests:
  assumes "fits items" and "svc c \<noteq> None"
    and "PutRecords aws items stream c h = (Inr (n, e), c', h')"
  shows "\<exists>ext j. h' = h @ ext \<and> 0 < j \<and> j \<le> length (put_batches items)
           \<and> puts ext = map (put_request stream) (take j (put_batches items))
           \<and> map snd (put_answers aws h ext) = replicate (j - 1) None @ [e]
           \<and> (e = None \<longrightarrow> j = length (put_batches items))
           \<and> n = sint (sum_list (map count_of (put_answers aws h ext)))"
  using PutRecords_effect [OF assms] unfolding loop_effect_def by auto

text \<open>A service that accepts everything, and a client without a role.\<close>

definition accepting_aws :: "(unit, unit) aws" where
  "accepting_aws =
     \<lparr>aws_now = (\<lambda>h. 0), aws_load = (\<lambda>h o1. ((), None)),
      aws_retrieve = (\<lambda>h cfg r. (\<lparr>sts_AccessKeyID = ''a'', sts_SecretAccessKey = ''s'',
         sts_SessionToken = ''t'', sts_Expires = minutes 60\<rparr>, None)),
      aws_from_config = (\<lambda>cfg. ()),
      aws_put_record = (\<lambda>h k e s. (Some ''seq'', None)),
      aws_put_records = (\<lambda>h k i. (Some \<lparr>FailedRecordCount = Some 0\<rparr>, None)),
      aws_describe = (\<lambda>h k s. (None, None)),
      aws_iterator = (\<lambda>h k a b s. (None, None)),
      aws_get_records = (\<lambda>h k i. (None, None))\<rparr>"

definition local_client :: "unit KinesisClient" where
  "local_client = empty_client\<lparr>svc := Some (), logger_c := Some (), region_c := ''local'',
     endpoint_c := ''http://localhost:4567''\<rparr>"

definition one_item :: Item where
  "one_item = \<lparr>PartitionKey_i = ''session'', Item_i = ''{}''\<rparr>"

lemma PutRecords_one_item:
  "PutRecords accepting_aws [one_item] ''s'' local_client [] =
     (Inr (0, None), local_client, [PutRecordsCall () (put_request ''s'' [one_item])])"
  by (simp add: PutRecords_def PutRecords_loop.simps GetBatch_def slice_from_def go_len_def
      put_batch_def refreshClient_def local_client_def empty_client_def accepting_aws_def
      MaxPutRecordsBatchSize_def put_request_def Let_def)

theorem PutRecords_requests_witness:
  "\<exists>ext j. [PutRecordsCall () (put_request ''s'' [one_item])] = [] @ ext \<and> 0 < j
     \<and> j \<le> length (put_batches [one_item])
     \<and> puts ext = map (put_request ''s'') (take j (put_batches [one_item]))
     \<and> map snd (put_answers accepting_aws [] ext) = replicate (j - 1) None @ [None]
     \<and> (None = (None :: go_err option) \<longrightarrow> j = length (put_batches [one_item]))
     \<and> 0 = sint (sum_list (map count_of (put_answers accepting_aws [] ext)))"
proof -
  have "fits [one_item]" "svc local_client \<noteq> None"
    by (simp_all add: fits_def local_client_def)
  from PutRecords_requests [OF this PutRecords_one_item] show ?thesis .
qed

text \<open>
  No request ever carries more than 500 records, whatever the outcome (an error or a
  panic included): the limit the service sets.
\<close>

theorem PutRecords_batch_limit:
  assumes "fits items" and "svc c \<noteq> None"
    and "PutRecords aws items stream c h = (r, c', h')"
  shows "\<exists>ext. h' = h @ ext \<and> puts ext \<noteq> []
           \<and> (\<forall>req \<in> set (puts ext). length (Records req) \<le> 500 \<and> StreamName_p req = stream)"
proof -
  from PutRecords_effect [OF assms] obtain ext j where
    "h' = h @ ext" "0 < j" "puts ext = map (put_request stream) (take j (put_batches items))"
    unfolding loop_effect_def by blast
  moreover have "length b \<le> 500" if "b \<in> set (take j (put_batches items))" for b
    using that by (meson in_set_takeD put_batches_le)
  ultimately show ?thesis by (intro exI [of _ ext]) (auto simp: put_request_def)
qed

theorem PutRecords_batch_limit_witness:
  "\<exists>ext. [PutRecordsCall () (put_request ''s'' [one_item]) :: (unit, unit) aws_call] = [] @ ext
     \<and> puts ext \<noteq> []
     \<and> (\<forall>req \<in> set (puts ext). length (Records req) \<le> 500 \<and> StreamName_p req = ''s'')"
proof -
  have "fits [one_item]" "svc local_client \<noteq> None"
    by (simp_all add: fits_def local_client_def)
  from PutRecords_batch_limit [OF this PutRecords_one_item] show ?thesis .
qed

text \<open>
  A service whose counts are between 0 and the number of records of the request. Then the
  32-bit sum does not wrap for fewer than \<open>2\<^sup>3\<^sup>1\<close> items.
\<close>

definition honest_counts :: "('k, 'c) aws \<Rightarrow> bool" where
  "honest_counts aws \<longleftrightarrow> (\<forall>h k i. 0 \<le> sint (count_of (aws_put_records aws h k i))
     \<and> sint (count_of (aws_put_records aws h k i)) \<le> int (length (Records i)))"

definition records_sent :: "('k, 'c) history \<Rightarrow> nat" where
  "records_sent h = sum_list (map (length \<circ> Records) (puts h))"

definition failed_sum :: "(put_output option \<times> go_err option) list \<Rightarrow> int" where
  "failed_sum answers = sum_list (map (\<lambda>a. sint (count_of a)) answers)"

lemma put_answers_counts:
  assumes "honest_counts aws" and "records_sent xs < 2 ^ 31"
  shows "sint (sum_list (map count_of (put_answers aws h xs))) = failed_sum (put_answers aws h xs)
    \<and> 0 \<le> failed_sum (put_answers aws h xs)
    \<and> failed_sum (put_answers aws h xs) \<le> int (records_sent xs)"
  using assms(2)
proof (induction xs arbitrary: h)
  case Nil
  then show ?case by (simp add: failed_sum_def)
next
  case (Cons x xs)
  show ?case
  proof (cases "\<exists>k i. x = PutRecordsCall k i")
    case False
    with Cons show ?thesis by (cases x) (simp_all add: records_sent_def)
  next
    case True
    then obtain k i where x: "x = PutRecordsCall k i" by blast
    let ?a = "aws_put_records aws h k i" and ?rest = "put_answers aws (h @ [x]) xs"
    have a: "0 \<le> sint (count_of ?a)" "sint (count_of ?a) \<le> int (length (Records i))"
      using assms(1) by (auto simp: honest_counts_def)
    have sent: "records_sent (x # xs) = length (Records i) + records_sent xs"
      by (simp add: records_sent_def x)
    with Cons have IH: "sint (sum_list (map count_of ?rest)) = failed_sum ?rest"
        "0 \<le> failed_sum ?rest" "failed_sum ?rest \<le> int (records_sent xs)" by auto
    with a sent Cons.prems have
      "sint (count_of ?a + sum_list (map count_of ?rest)) = sint (count_of ?a) + failed_sum ?rest"
      by (subst sint_add_int32) auto
    with IH a sent show ?thesis by (simp add: x failed_sum_def)
  qed
qed

text \<open>
  C29. With such a service the count that \<open>PutRecords\<close> returns is the exact number of
  failed records in all answers, with no wrap-around, and lies between 0 and the number of
  items.
\<close>

theorem PutRecords_count_exact:
  assumes "honest_counts aws" and "length items < 2 ^ 31" and "svc c \<noteq> None"
    and "PutRecords aws items stream c h = (Inr (n, e), c', h')"
  shows "\<exists>ext. h' = h @ ext \<and> n = failed_sum (put_answers aws h ext)
           \<and> 0 \<le> n \<and> n \<le> int (length items)"
proof -
  have "fits items" using assms(2) by (simp add: fits_def)
  from PutRecords_effect [OF this assms(3,4)] obtain ext j where ext: "h' = h @ ext"
      "puts ext = map (put_request stream) (take j (put_batches items))"
      "n = sint (sum_list (map count_of (put_answers aws h ext)))"
    unfolding loop_effect_def by auto
  have "map (length \<circ> Records) (puts ext) = map length (take j (put_batches items))"
    by (simp add: ext(2) put_request_def comp_def)
  then have sent: "records_sent ext \<le> length items"
    using sum_length_take_le [of j "put_batches items"] by (simp add: records_sent_def)
  with assms(2) have "records_sent ext < 2 ^ 31" by linarith
  from put_answers_counts [OF assms(1) this, of h] ext sent show ?thesis by auto
qed

theorem PutRecords_count_exact_witness:
  "\<exists>ext. [PutRecordsCall () (put_request ''s'' [one_item]) :: (unit, unit) aws_call] = [] @ ext
     \<and> 0 = failed_sum (put_answers accepting_aws [] ext)
     \<and> (0::int) \<le> 0 \<and> 0 \<le> int (length [one_item])"
proof -
  have "honest_counts accepting_aws" "length [one_item] < 2 ^ 31" "svc local_client \<noteq> None"
    by (simp_all add: honest_counts_def accepting_aws_def count_of_def local_client_def)
  from PutRecords_count_exact [OF this PutRecords_one_item] show ?thesis .
qed

text \<open>
  \<open>refreshClient\<close>: without a role it does nothing. With one, it reads the clock once;
  credentials good for more than three minutes are kept, and otherwise a new client is
  built, whose handle and expiry are taken over, or the old ones stay when building it
  fails. It never sends a record and never changes another field.
\<close>

theorem refreshClient_cases:
  assumes "refreshClient aws c h = (c', h')"
  shows "(role_c c = '''' \<longrightarrow> c' = c \<and> h' = h) \<and>
    (role_c c \<noteq> '''' \<longrightarrow>
       (if Unix (aws_now aws h + minutes 3) < Unix (credsExpireAt c) then c' = c \<and> h' = h @ [NowCall]
        else (case getClient aws c (h @ [NowCall]) of
                ((k, expire, None), h2) \<Rightarrow> c' = c\<lparr>credsExpireAt := expire, svc := k\<rparr> \<and> k \<noteq> None \<and> h' = h2
              | ((k, expire, Some e), h2) \<Rightarrow> c' = c \<and> h' = h2)))
    \<and> (\<exists>ext. h' = h @ ext \<and> puts ext = [])"
  using assms refreshClient_frame(1) [OF assms] getClient_frame(2) [of aws c "h @ [NowCall]"]
  by (auto simp: refreshClient_def Let_def split: if_splits prod.splits option.splits)

definition role_client :: "unit KinesisClient" where
  "role_client = local_client\<lparr>role_c := ''arn'', credsExpireAt := minutes 2\<rparr>"

theorem refreshClient_cases_witness:
  "refreshClient accepting_aws role_client [] =
     (role_client\<lparr>credsExpireAt := minutes 60, svc := Some ()\<rparr>,
      [NowCall, LoadCall (sts_load_opts role_client), RetrieveCall () ''arn'',
       LoadCall (role_load_opts role_client \<lparr>sts_AccessKeyID = ''a'', sts_SecretAccessKey = ''s'',
         sts_SessionToken = ''t'', sts_Expires = minutes 60\<rparr>)])"
proof -
  obtain c' h' where r: "refreshClient accepting_aws role_client [] = (c', h')" by fastforce
  have "\<not> Unix (aws_now accepting_aws [] + minutes 3) < Unix (credsExpireAt role_client)"
    and "role_c role_client = ''arn''"
    by (simp_all add: accepting_aws_def role_client_def minutes_def Unix_def)
  with refreshClient_cases [OF r]
  have "c' = role_client\<lparr>credsExpireAt := minutes 60, svc := Some ()\<rparr> \<and>
    h' = [NowCall, LoadCall (sts_load_opts role_client), RetrieveCall () ''arn'',
       LoadCall (role_load_opts role_client \<lparr>sts_AccessKeyID = ''a'', sts_SecretAccessKey = ''s'',
         sts_SessionToken = ''t'', sts_Expires = minutes 60\<rparr>)]"
    by (simp add: getClient_def accepting_aws_def Let_def)
  with r show ?thesis by simp
qed

end
