(* ===== verification/Go_Strings.thy ===== *)
theory Go_Strings
  imports Prelude
begin

text \<open>
  The operations of Go's \<open>strings\<close> package that the program uses, on byte lists:
  \<open>TrimPrefix\<close>, \<open>TrimSpace\<close>, \<open>ToLower\<close>, \<open>ToValidUTF8\<close> and \<open>Split\<close>, with the UTF-8
  decoding they rest on. \<open>unicode.ToLower\<close> is fixed for ASCII; for other code points its
  table is a parameter \<open>lower\<close> of \<open>ToLower\<close>.
\<close>

section \<open>UTF-8\<close>

definition byte :: "char \<Rightarrow> nat" where
  "byte c = of_char c"

definition RuneError :: nat where
  "RuneError = 0xFFFD"

definition is_cont :: "char \<Rightarrow> bool" where
  "is_cont c \<longleftrightarrow> 0x80 \<le> byte c \<and> byte c \<le> 0xBF"

text \<open>
  \<open>utf8.DecodeRuneInString\<close>: the first code point and its width in bytes. A byte that
  starts no valid sequence (overlong forms, surrogates and values above
  \<open>0x10FFFF\<close> included) yields \<open>RuneError\<close> with width 1.
\<close>

fun decode_rune :: "bytes \<Rightarrow> nat \<times> nat" where
  "decode_rune [] = (RuneError, 0)"
| "decode_rune (c0 # cs) =
     (let b0 = byte c0 in
      if b0 < 0x80 then (b0, 1)
      else if 0xC2 \<le> b0 \<and> b0 \<le> 0xDF then
        (case cs of c1 # _ \<Rightarrow>
           if is_cont c1 then ((b0 - 0xC0) * 64 + (byte c1 - 0x80), 2) else (RuneError, 1)
         | _ \<Rightarrow> (RuneError, 1))
      else if 0xE0 \<le> b0 \<and> b0 \<le> 0xEF then
        (case cs of c1 # c2 # _ \<Rightarrow>
           if is_cont c1 \<and> (b0 = 0xE0 \<longrightarrow> 0xA0 \<le> byte c1) \<and> (b0 = 0xED \<longrightarrow> byte c1 \<le> 0x9F)
             \<and> is_cont c2
           then ((b0 - 0xE0) * 4096 + (byte c1 - 0x80) * 64 + (byte c2 - 0x80), 3)
           else (RuneError, 1)
         | _ \<Rightarrow> (RuneError, 1))
      else if 0xF0 \<le> b0 \<and> b0 \<le> 0xF4 then
        (case cs of c1 # c2 # c3 # _ \<Rightarrow>
           if is_cont c1 \<and> (b0 = 0xF0 \<longrightarrow> 0x90 \<le> byte c1) \<and> (b0 = 0xF4 \<longrightarrow> byte c1 \<le> 0x8F)
             \<and> is_cont c2 \<and> is_cont c3
           then ((b0 - 0xF0) * 262144 + (byte c1 - 0x80) * 4096 + (byte c2 - 0x80) * 64
                  + (byte c3 - 0x80), 4)
           else (RuneError, 1)
         | _ \<Rightarrow> (RuneError, 1))
      else (RuneError, 1))"

text \<open>\<open>utf8.AppendRune\<close>: a surrogate or a value out of range is written as \<open>RuneError\<close>.\<close>

definition encode_rune :: "nat \<Rightarrow> bytes" where
  "encode_rune r =
     (let r = (if 0x10FFFF < r \<or> 0xD800 \<le> r \<and> r \<le> 0xDFFF then RuneError else r) in
      map char_of
       (if r < 0x80 then [r]
        else if r < 0x800 then [0xC0 + r div 64, 0x80 + r mod 64]
        else if r < 0x10000 then [0xE0 + r div 4096, 0x80 + r div 64 mod 64, 0x80 + r mod 64]
        else [0xF0 + r div 262144, 0x80 + r div 4096 mod 64, 0x80 + r div 64 mod 64,
              0x80 + r mod 64]))"

lemma decode_rune_width:
  "s \<noteq> [] \<Longrightarrow> 0 < snd (decode_rune s)" "snd (decode_rune s) \<le> length s"
  by (cases s; auto simp: Let_def split: list.splits)+

lemma drop_rune_shorter [simp]: "s \<noteq> [] \<Longrightarrow> length (drop (snd (decode_rune s)) s) < length s"
  using decode_rune_width(1) [of s] by simp

text \<open>The code points of a string, as \<open>range\<close> over a Go string yields them.\<close>

function runes :: "bytes \<Rightarrow> nat list" where
  "runes s = (if s = [] then [] else fst (decode_rune s) # runes (drop (snd (decode_rune s)) s))"
  by pat_completeness auto
termination
  by (relation "measure length") (auto simp del: length_drop)

declare runes.simps [simp del]

section \<open>The string functions\<close>

definition TrimPrefix :: "bytes \<Rightarrow> bytes \<Rightarrow> bytes" where
  "TrimPrefix s pre = (if take (length pre) s = pre then drop (length pre) s else s)"

text \<open>\<open>unicode.IsSpace\<close>: the code points with the White\_Space property.\<close>

definition IsSpace :: "nat \<Rightarrow> bool" where
  "IsSpace r \<longleftrightarrow> (0x09 \<le> r \<and> r \<le> 0x0D) \<or> r = 0x20 \<or> r = 0x85 \<or> r = 0xA0 \<or> r = 0x1680
     \<or> (0x2000 \<le> r \<and> r \<le> 0x200A) \<or> r = 0x2028 \<or> r = 0x2029 \<or> r = 0x202F \<or> r = 0x205F
     \<or> r = 0x3000"

function TrimLeftSpace :: "bytes \<Rightarrow> bytes" where
  "TrimLeftSpace s =
     (if s \<noteq> [] \<and> IsSpace (fst (decode_rune s))
      then TrimLeftSpace (drop (snd (decode_rune s)) s) else s)"
  by pat_completeness auto
termination
  by (relation "measure length") (auto simp del: length_drop)

declare TrimLeftSpace.simps [simp del]

text \<open>
  \<open>utf8.DecodeLastRuneInString\<close>: it steps back over at most three bytes to one that can
  start a sequence, and decodes from there; the sequence has to end the string.
\<close>

definition last_start :: "bytes \<Rightarrow> nat" where
  "last_start s =
     (let n = length s;
          back = filter (\<lambda>k. k \<le> n \<and> \<not> is_cont (s ! (n - k))) [2, 3, 4] in
      case back of [] \<Rightarrow> n - 1 | k # _ \<Rightarrow> n - k)"

definition decode_last_rune :: "bytes \<Rightarrow> nat \<times> nat" where
  "decode_last_rune s =
     (if s = [] then (RuneError, 0)
      else if byte (last s) < 0x80 then (byte (last s), 1)
      else let start = last_start s; (r, size) = decode_rune (drop start s) in
        if start + size = length s then (r, size) else (RuneError, 1))"

lemma decode_last_rune_width: "s \<noteq> [] \<Longrightarrow> 0 < snd (decode_last_rune s)"
proof -
  assume s: "s \<noteq> []"
  then have "last_start s < length s"
    by (auto simp: last_start_def Let_def split: list.splits)
  then show ?thesis
    using decode_rune_width(1) [of "drop (last_start s) s"]
    by (auto simp: decode_last_rune_def s Let_def split: prod.splits)
qed

function TrimRightSpace :: "bytes \<Rightarrow> bytes" where
  "TrimRightSpace s =
     (if s \<noteq> [] \<and> IsSpace (fst (decode_last_rune s))
      then TrimRightSpace (take (length s - snd (decode_last_rune s)) s) else s)"
  by pat_completeness auto
termination
  by (relation "measure length") (auto simp: decode_last_rune_width)

declare TrimRightSpace.simps [simp del]

definition TrimSpace :: "bytes \<Rightarrow> bytes" where
  "TrimSpace s = TrimRightSpace (TrimLeftSpace s)"

definition ToLower_rune :: "(nat \<Rightarrow> nat) \<Rightarrow> nat \<Rightarrow> nat" where
  "ToLower_rune lower r =
     (if r < 0x80 then (if 0x41 \<le> r \<and> r \<le> 0x5A then r + 0x20 else r) else lower r)"

definition ToLower :: "(nat \<Rightarrow> nat) \<Rightarrow> bytes \<Rightarrow> bytes" where
  "ToLower lower s = concat (map (encode_rune \<circ> ToLower_rune lower) (runes s))"

text \<open>\<open>strings.ToValidUTF8\<close> with an empty replacement: invalid bytes are removed.\<close>

function ToValidUTF8 :: "bytes \<Rightarrow> bytes" where
  "ToValidUTF8 s =
     (if s = [] then []
      else let (r, w) = decode_rune s in
        (if r = RuneError \<and> w = 1 then [] else take w s)
        @ ToValidUTF8 (drop (snd (decode_rune s)) s))"
  by pat_completeness auto
termination
  by (relation "measure length") (auto simp del: length_drop)

declare ToValidUTF8.simps [simp del]

text \<open>\<open>strings.Split\<close> with a separator of one byte.\<close>

fun Split :: "bytes \<Rightarrow> char \<Rightarrow> bytes list" where
  "Split [] sep = [[]]"
| "Split (c # cs) sep =
     (if c = sep then [] # Split cs sep
      else case Split cs sep of [] \<Rightarrow> [[c]] | w # ws \<Rightarrow> (c # w) # ws)"

section \<open>ASCII strings\<close>

definition ascii :: "bytes \<Rightarrow> bool" where
  "ascii s \<longleftrightarrow> (\<forall>c \<in> set s. byte c < 0x80)"

definition ascii_space :: "char \<Rightarrow> bool" where
  "ascii_space c \<longleftrightarrow> (0x09 \<le> byte c \<and> byte c \<le> 0x0D) \<or> byte c = 0x20"

definition ascii_lower :: "char \<Rightarrow> char" where
  "ascii_lower c = (if 0x41 \<le> byte c \<and> byte c \<le> 0x5A then char_of (byte c + 0x20) else c)"

lemma ascii_simps [simp]:
  "ascii []" "ascii (c # s) \<longleftrightarrow> byte c < 0x80 \<and> ascii s"
  "ascii (s @ t) \<longleftrightarrow> ascii s \<and> ascii t"
  by (auto simp: ascii_def)

lemma ascii_take_drop: "ascii s \<Longrightarrow> ascii (take n s)" "ascii s \<Longrightarrow> ascii (drop n s)"
  by (auto simp: ascii_def dest: in_set_takeD in_set_dropD)

lemma decode_rune_ascii: "byte c < 0x80 \<Longrightarrow> decode_rune (c # s) = (byte c, 1)"
  by simp

lemma decode_last_rune_ascii: "byte c < 0x80 \<Longrightarrow> decode_last_rune (s @ [c]) = (byte c, 1)"
  by (simp add: decode_last_rune_def)

lemma IsSpace_ascii: "byte c < 0x80 \<Longrightarrow> IsSpace (byte c) \<longleftrightarrow> ascii_space c"
  by (auto simp: IsSpace_def ascii_space_def)

lemma TrimLeftSpace_ascii: "ascii s \<Longrightarrow> TrimLeftSpace s = dropWhile ascii_space s"
proof (induction s)
  case Nil
  then show ?case by (simp add: TrimLeftSpace.simps)
next
  case (Cons c s)
  then show ?case
    by (subst TrimLeftSpace.simps) (simp add: IsSpace_ascii del: decode_rune.simps add: decode_rune_ascii)
qed

lemma TrimRightSpace_ascii: "ascii s \<Longrightarrow> TrimRightSpace s = rev (dropWhile ascii_space (rev s))"
proof (induction s rule: rev_induct)
  case Nil
  then show ?case by (simp add: TrimRightSpace.simps)
next
  case (snoc c s)
  then show ?case
    by (subst TrimRightSpace.simps) (simp add: IsSpace_ascii decode_last_rune_ascii)
qed

lemma runes_ascii: "ascii s \<Longrightarrow> runes s = map byte s"
proof (induction s)
  case Nil
  then show ?case by (simp add: runes.simps)
next
  case (Cons c s)
  then show ?case by (subst runes.simps) (simp del: decode_rune.simps add: decode_rune_ascii)
qed

lemma encode_lower_ascii:
  "byte c < 0x80 \<Longrightarrow> encode_rune (ToLower_rune lower (byte c)) = [ascii_lower c]"
  by (auto simp: encode_rune_def ToLower_rune_def ascii_lower_def Let_def byte_def)

lemma ToLower_ascii: "ascii s \<Longrightarrow> ToLower lower s = map ascii_lower s"
proof (induction s)
  case Nil
  then show ?case by (simp add: ToLower_def runes.simps)
next
  case (Cons c s)
  then show ?case by (simp add: ToLower_def runes_ascii encode_lower_ascii)
qed

lemma TrimSpace_ascii:
  assumes "ascii s"
  shows "TrimSpace s = rev (dropWhile ascii_space (rev (dropWhile ascii_space s)))"
proof -
  have "ascii (dropWhile ascii_space s)" using assms by (auto simp: ascii_def dest: set_dropWhileD)
  with assms show ?thesis by (simp add: TrimSpace_def TrimLeftSpace_ascii TrimRightSpace_ascii)
qed

end
