(* ===== verification/Messages.thy ===== *)
theory Messages
  imports Prelude
begin

text \<open>
  The WRP message as the program sees it. \<open>wrp.Message\<close> is a struct of the library
  \<open>wrp-go\<close>; the record holds the fields the source reads or writes (\<open>fixWrp\<close>,
  \<open>OnEvent\<close>, the filters) and the payload. A \<open>*wrp.Message\<close> may be \<open>nil\<close>, and \<open>nil\<close>
  is also the zero value a receive from a closed channel yields.
\<close>

record wrp_message =
  MessageType :: int
  Source :: string
  Destination :: string
  TransactionUUID :: string
  ContentType :: string
  SessionID :: string
  Payload :: bytes

type_synonym msg = "wrp_message option"

text \<open>\<open>encoding/json\<close> on a message: the bytes and an error.\<close>

type_synonym marshaller = "wrp_message \<Rightarrow> bytes \<times> go_err option"

definition sample_message :: wrp_message where
  "sample_message = \<lparr>MessageType = 4, Source = ''mac:112233445566'',
     Destination = ''event:device-status/mac:112233445566/online'', TransactionUUID = ''t1'',
     ContentType = ''application/json'', SessionID = ''s1'', Payload = ''{}''\<rparr>"

end
