(* ===== verification/Sender.thy ===== *)
theory Sender
  imports Kinesis Go_Strings Messages
begin

text \<open>
  The package \<open>internal/sender\<close> (\<open>sender.go\<close>, \<open>kinesis_sender.go\<close>): parsing a
  destination type, the factory of senders, and the Kinesis sender, which marshals a batch
  of messages and puts them on a stream, retrying on error.

  The retry library is a parameter: \<open>new_runner\<close> builds a runner from its configuration
  and \<open>run\<close> runs a task on the sender's state. What the sender relies on is
  \<open>honours_retry\<close>, the documented behaviour of the library: run the task, and run it
  again while it returns an error, at most \<open>MaxRetries\<close> times.
\<close>

section \<open>Destination types\<close>

type_synonym DestType = int

definition Kinesis_dest :: DestType where
  "Kinesis_dest = 0"

definition destTypeMap :: "string \<rightharpoonup> DestType" where
  "destTypeMap = [''kinesis'' \<mapsto> Kinesis_dest]"

definition ParseDestType :: "(nat \<Rightarrow> nat) \<Rightarrow> string \<Rightarrow> DestType \<times> go_err option" where
  "ParseDestType lower s =
     (let normalized = ToLower lower (TrimSpace s) in
      case destTypeMap normalized of
        Some destType \<Rightarrow> (destType, None)
      | None \<Rightarrow> (0, Some (GoErr (''invalid DestType: '' @ s))))"

text \<open>The keys of a sender's configuration.\<close>

definition Region_key :: string where "Region_key = ''region''"
definition AccessKey_key :: string where "AccessKey_key = ''access_key''"
definition SecretKey_key :: string where "SecretKey_key = ''secret_key''"
definition SessionToken_key :: string where "SessionToken_key = ''sessiontoken''"
definition Endpoint_key :: string where "Endpoint_key = ''endpoint''"
definition Version_key :: string where "Version_key = ''version''"
definition Role_key :: string where "Role_key = ''role''"

lemmas key_defs = Region_key_def AccessKey_key_def SecretKey_key_def SessionToken_key_def
  Endpoint_key_def Version_key_def Role_key_def

text \<open>A \<open>map[string]string\<close>; indexing a missing key yields the empty string.\<close>

type_synonym config_map = "string \<rightharpoonup> string"

definition config_get :: "config_map \<Rightarrow> string \<Rightarrow> string" where
  "config_get m k = (case m k of None \<Rightarrow> '''' | Some v \<Rightarrow> v)"

definition config_empty :: "config_map \<Rightarrow> bool" where
  "config_empty m \<longleftrightarrow> dom m = {}"

section \<open>Retrying, as a parameter\<close>

record retry_config =
  Interval :: time
  MaxRetries :: int

type_synonym 's task = "'s \<Rightarrow> (go_panic + int \<times> go_err option) \<times> 's"

fun retry_loop :: "nat \<Rightarrow> 's task \<Rightarrow> 's task" where
  "retry_loop 0 task s = task s"
| "retry_loop (Suc n) task s =
     (case task s of
        (Inr (v, Some e), s') \<Rightarrow> retry_loop n task s'
      | r \<Rightarrow> r)"

text \<open>
  The documented behaviour of a runner: the task is run once and then again, up to
  \<open>limit r\<close> times, until it returns no error; the last result is returned, and a panic of
  the task passes through.
\<close>

definition honours_retry :: "('r \<Rightarrow> 's task \<Rightarrow> 's task) \<Rightarrow> ('r \<Rightarrow> nat) \<Rightarrow> bool" where
  "honours_retry run limit \<longleftrightarrow> (\<forall>r task s. run r task s = retry_loop (limit r) task s)"

section \<open>The Kinesis sender\<close>

definition SchemaVersion :: string where "SchemaVersion = ''1.0''"
definition Retries :: int where "Retries = 3"

record ('k, 'r) KinesisSender =
  kc :: "'k KinesisClient option"
  schemaVersion :: string
  logger_s :: logger
  retries_s :: int
  putRunner :: 'r

text \<open>The provider of Kinesis clients; \<open>None\<close> is a \<open>nil\<close> interface.\<close>

type_synonym ('k, 'c) kinesis_provider = "(kinesis_option list \<Rightarrow> ('k, 'c) history
    \<Rightarrow> ('k KinesisClient option \<times> go_err option) \<times> ('k, 'c) history) option"

definition sender_credentials :: "config_map \<Rightarrow> Credentials" where
  "sender_credentials config =
     \<lparr>AccessKey_c = config_get config AccessKey_key,
      SecretKey_c = config_get config SecretKey_key,
      SessionToken_c = config_get config SessionToken_key\<rparr>"

definition sender_options :: "config_map \<Rightarrow> logger \<Rightarrow> kinesis_option list" where
  "sender_options config logger =
     [WithEndpoint (config_get config Endpoint_key), WithRegion (config_get config Region_key),
      WithCredentials (sender_credentials config), WithLogger_k logger,
      WithRole (config_get config Role_key)]"

text \<open>
  The constructor returns the sender together with the provider's error: the caller gets
  both.
\<close>

definition NewKinesisSender :: "(retry_config \<Rightarrow> 'r \<times> go_err option) \<Rightarrow> int \<Rightarrow> config_map
    \<Rightarrow> logger \<Rightarrow> ('k, 'c) kinesis_provider \<Rightarrow> ('k, 'c) history
    \<Rightarrow> (go_panic + ('k, 'r) KinesisSender option \<times> go_err option) \<times> ('k, 'c) history" where
  "NewKinesisSender new_runner retries config logger kinesisProvider h =
     (if config_empty config then (Inr (None, Some (GoErr ''config cannot be empty'')), h)
      else
      let version = (if config_get config Version_key = '''' then SchemaVersion
                     else config_get config Version_key);
          retries = (if retries \<le> 0 then Retries else retries);
          (runner, err) = new_runner \<lparr>Interval = 10 * 10 ^ 6, MaxRetries = retries\<rparr>
      in case err of Some e \<Rightarrow> (Inr (None, Some e), h)
      | None \<Rightarrow>
     (case kinesisProvider of None \<Rightarrow> (Inl NilDeref, h)
      | Some get \<Rightarrow>
          let ((client, err), h1) = get (sender_options config logger) h in
          (Inr (Some \<lparr>kc = client, schemaVersion = version, logger_s = logger,
                      retries_s = retries, putRunner = runner\<rparr>, err), h1)))"

text \<open>
  Marshalling a batch, in order. A message that fails to marshal is logged and left out. A
  \<open>nil\<close> message marshals to \<open>null\<close> and its session id is then read: a nil dereference.
\<close>

fun marshal_items :: "marshaller \<Rightarrow> msg list \<Rightarrow> go_panic + Item list" where
  "marshal_items marshal [] = Inr []"
| "marshal_items marshal (None # ms) = Inl NilDeref"
| "marshal_items marshal (Some m # ms) =
     (case marshal m of
        (data, Some e) \<Rightarrow> marshal_items marshal ms
      | (data, None) \<Rightarrow>
          go_bind (marshal_items marshal ms)
            (\<lambda>items. Inr (\<lparr>PartitionKey_i = SessionID m, Item_i = data\<rparr> # items)))"

text \<open>The parameters of a sender's run: the service, the marshaller, the retry runner.\<close>

type_synonym ('k, 'c, 'r) runner =
  "'r \<Rightarrow> ('k KinesisClient \<times> ('k, 'c) history) task \<Rightarrow> ('k KinesisClient \<times> ('k, 'c) history) task"

record ('k, 'c, 'r) sender_env =
  env_aws :: "('k, 'c) aws"
  env_marshal :: marshaller
  env_run :: "('k, 'c, 'r) runner"
  env_limit :: "'r \<Rightarrow> nat"

definition put_task :: "('k, 'c) aws \<Rightarrow> Item list \<Rightarrow> string
    \<Rightarrow> ('k KinesisClient \<times> ('k, 'c) history) task" where
  "put_task aws items url s =
     (case s of (c, h) \<Rightarrow> case PutRecords aws items url c h of (r, c', h') \<Rightarrow> (r, (c', h')))"

definition OnEvent :: "('k, 'c, 'r) sender_env \<Rightarrow> ('k, 'r) KinesisSender \<Rightarrow> msg list \<Rightarrow> string
    \<Rightarrow> ('k, 'c) history
    \<Rightarrow> (go_panic + int \<times> go_err option) \<times> ('k, 'r) KinesisSender \<times> ('k, 'c) history" where
  "OnEvent env s msgs url h =
     (case marshal_items (env_marshal env) msgs of
        Inl p \<Rightarrow> (Inl p, s, h)
      | Inr items \<Rightarrow>
          (case kc s of
             None \<Rightarrow> (Inl NilDeref, s, h)
           | Some c \<Rightarrow>
               (case env_run env (putRunner s) (put_task (env_aws env) items url) (c, h) of
                  (r, c', h') \<Rightarrow> (r, s\<lparr>kc := Some c'\<rparr>, h'))))"

section \<open>The factory\<close>

record ('k, 'c) SenderFactory =
  logger_f :: logger
  kinesisProvider :: "('k, 'c) kinesis_provider"

datatype ('k, 'c) sender_option =
    WithLogger_f logger
  | WithKinesisProvider "('k, 'c) kinesis_provider"

definition NewSenderFactory :: "(('k, 'c) sender_option, ('k, 'c) SenderFactory) apply_fun
    \<Rightarrow> (('k, 'c) sender_option, ('k, 'c) SenderFactory) required_fun
    \<Rightarrow> ('k, 'c) sender_option list \<Rightarrow> ('k, 'c) SenderFactory option \<times> go_err option" where
  "NewSenderFactory apply_opts required opt =
     (case apply_opts opt \<lparr>logger_f = None, kinesisProvider = None\<rparr> of
        (_, Some e) \<Rightarrow> (None, Some e)
      | (sf, None) \<Rightarrow>
          (case required [WithLogger_f None] sf of
             Some e \<Rightarrow> (None, Some e)
           | None \<Rightarrow> (Some sf, None)))"

definition getKinesisSender :: "(retry_config \<Rightarrow> 'r \<times> go_err option) \<Rightarrow> ('k, 'c) SenderFactory \<Rightarrow> int
    \<Rightarrow> config_map \<Rightarrow> ('k, 'c) history
    \<Rightarrow> (go_panic + ('k, 'r) KinesisSender option \<times> go_err option) \<times> ('k, 'c) history" where
  "getKinesisSender new_runner sf retries config h =
     NewKinesisSender new_runner retries config (logger_f sf) (kinesisProvider sf) h"

definition GetSender :: "(retry_config \<Rightarrow> 'r \<times> go_err option) \<Rightarrow> ('k, 'c) SenderFactory \<Rightarrow> int
    \<Rightarrow> DestType \<Rightarrow> config_map \<Rightarrow> ('k, 'c) history
    \<Rightarrow> (go_panic + ('k, 'r) KinesisSender option \<times> go_err option) \<times> ('k, 'c) history" where
  "GetSender new_runner sf retries d config h =
     (if config_empty config
      then (Inr (None, Some (GoErr ''no config provided for sender'')), h)
      else if d = Kinesis_dest
      then getKinesisSender new_runner sf retries config h
      else (Inr (None, Some (GoErr (''no sender for dest type '' @ itoa d))), h))"

section \<open>Destination types: what is accepted\<close>

text \<open>
  For an ASCII string, \<open>ParseDestType\<close> accepts exactly the word \<open>kinesis\<close> in any
  mix of cases with white space around it, and then returns the Kinesis type. This does not
  depend on the lower-case table outside ASCII.
\<close>

theorem ParseDestType_accepts:
  assumes "ascii s"
  shows "ParseDestType lower s = (Kinesis_dest, None) \<longleftrightarrow>
     (\<exists>pre mid post. s = pre @ mid @ post \<and> list_all ascii_space pre \<and> list_all ascii_space post
        \<and> map ascii_lower mid = ''kinesis'')"
proof -
  let ?trim = "\<lambda>s. rev (dropWhile ascii_space (rev (dropWhile ascii_space s)))"
  have trim: "TrimSpace s = ?trim s" using assms by (rule TrimSpace_ascii)
  have "ascii (?trim s)"
    using assms by (auto simp: ascii_def dest!: set_dropWhileD)
  then have iff: "ParseDestType lower s = (Kinesis_dest, None) \<longleftrightarrow> map ascii_lower (?trim s) = ''kinesis''"
    by (simp add: ParseDestType_def Let_def trim ToLower_ascii destTypeMap_def)
  have "map ascii_lower (?trim s) = ''kinesis''"
    if s: "s = pre @ mid @ post" and sp: "list_all ascii_space pre" "list_all ascii_space post"
      and mid: "map ascii_lower mid = ''kinesis''" for pre mid post
  proof -
    from mid obtain a m z where "mid = a # m @ [z]" "ascii_lower a = CHR ''k''" "ascii_lower z = CHR ''s''"
      by (auto simp: map_eq_Cons_conv map_eq_append_conv)
    moreover have "\<not> ascii_space c" if "ascii_lower c = CHR ''k'' \<or> ascii_lower c = CHR ''s''" for c
      using that by (auto simp: ascii_space_def ascii_lower_def byte_def split: if_splits)
    ultimately show ?thesis
      using s sp mid by (simp add: dropWhile_append2 list_all_iff dropWhile_append)
  qed
  moreover have "\<exists>pre mid post. s = pre @ mid @ post \<and> list_all ascii_space pre
      \<and> list_all ascii_space post \<and> mid = ?trim s"
  proof -
    let ?d = "dropWhile ascii_space s"
    have "s = takeWhile ascii_space s @ ?trim s @ rev (takeWhile ascii_space (rev ?d))"
      by (metis rev_append rev_rev_ident takeWhile_dropWhile_id)
    then show ?thesis
      by (metis list.pred_set set_rev set_takeWhileD)
  qed
  ultimately show ?thesis using iff by metis
qed

theorem ParseDestType_accepts_witness: "ParseDestType (\<lambda>r. r) '' Kinesis '' = (Kinesis_dest, None)"
proof -
  have "ascii '' Kinesis ''" by (simp add: byte_def)
  moreover have "list_all ascii_space '' ''" "map ascii_lower ''Kinesis'' = ''kinesis''"
    by (simp_all add: ascii_space_def ascii_lower_def byte_def char_of_def bit_0)
  ultimately show ?thesis
    by (intro ParseDestType_accepts [THEN iffD2] exI [of _ "'' ''"] exI [of _ "''Kinesis''"]) simp_all
qed

section \<open>What a sender has put\<close>

text \<open>
  A stretch of the history acknowledges a list of items on a stream: it requests all batches
  of the items and the service answered every one of them without an error.
\<close>

definition acknowledged :: "('k, 'c) aws \<Rightarrow> string \<Rightarrow> Item list \<Rightarrow> ('k, 'c) history \<Rightarrow> bool" where
  "acknowledged aws url items h \<longleftrightarrow>
     (\<exists>h1 ext h2. h = h1 @ ext @ h2 \<and> puts ext = map (put_request url) (put_batches items)
        \<and> (\<forall>a \<in> set (put_answers aws h1 ext). snd a = None))"

lemma acknowledged_append: "acknowledged aws url items h \<Longrightarrow> acknowledged aws url items (h @ ext)"
  unfolding acknowledged_def by (metis append.assoc)

definition attempt_requests :: "string \<Rightarrow> Item list \<Rightarrow> nat list \<Rightarrow> put_input list" where
  "attempt_requests url items js =
     concat (map (\<lambda>j. map (put_request url) (take j (put_batches items))) js)"

text \<open>One attempt, then the whole retry loop.\<close>

lemma put_task_effect:
  assumes "fits items" "svc c \<noteq> None" and "put_task aws items url (c, h) = (r, (c', h'))"
  shows "svc c' \<noteq> None \<and> (\<exists>ext j. h' = h @ ext \<and> 0 < j \<and> j \<le> length (put_batches items)
     \<and> puts ext = attempt_requests url items [j]
     \<and> (\<forall>v. r = Inr (v, None) \<longrightarrow> j = length (put_batches items) \<and> acknowledged aws url items h'))"
proof -
  have "PutRecords aws items url c h = (r, c', h')"
    using assms(3) by (auto simp: put_task_def split: prod.splits)
  from PutRecords_effect [OF assms(1,2) this] obtain ext j where e: "h' = h @ ext" "svc c' \<noteq> None"
      "0 < j" "j \<le> length (put_batches items)"
      "puts ext = map (put_request url) (take j (put_batches items))"
      "\<forall>n e. r = Inr (n, e) \<longrightarrow>
         map snd (put_answers aws h ext) = replicate (j - 1) None @ [e]
         \<and> (e = None \<longrightarrow> j = length (put_batches items))"
    unfolding loop_effect_def by blast
  have "acknowledged aws url items h'" if "r = Inr (v, None)" for v
  proof -
    have "set (map snd (put_answers aws h ext)) \<subseteq> {None}" and j: "j = length (put_batches items)"
      using e(6) that by auto
    then have "\<forall>a \<in> set (put_answers aws h ext). snd a = None" by force
    then show ?thesis
      unfolding acknowledged_def using e(1,5) j by (intro exI [of _ h] exI [of _ ext] exI [of _ "[]"]) simp
  qed
  with e show ?thesis
    by (intro conjI exI [of _ ext] exI [of _ j]) (auto simp: attempt_requests_def)
qed

lemma retry_put_effect:
  assumes "fits items" "svc c \<noteq> None"
    and "retry_loop n (put_task aws items url) (c, h) = (r, (c', h'))"
  shows "svc c' \<noteq> None \<and> (\<exists>ext js. h' = h @ ext \<and> js \<noteq> [] \<and> length js \<le> Suc n
     \<and> puts ext = attempt_requests url items js
     \<and> (\<forall>v. r = Inr (v, None) \<longrightarrow> acknowledged aws url items h')
     \<and> (\<forall>v e. r = Inr (v, Some e) \<longrightarrow> length js = Suc n))"
  using assms(2,3)
proof (induction n arbitrary: c h)
  case 0
  then have "put_task aws items url (c, h) = (r, (c', h'))" by simp
  from put_task_effect [OF assms(1) "0.prems"(1) this] obtain ext j where
    "svc c' \<noteq> None" "h' = h @ ext" "puts ext = attempt_requests url items [j]"
    "\<forall>v. r = Inr (v, None) \<longrightarrow> acknowledged aws url items h'" by blast
  then show ?case by (intro conjI exI [of _ ext] exI [of _ "[j]"]) auto
next
  case (Suc n)
  obtain r1 c1 h1 where t: "put_task aws items url (c, h) = (r1, (c1, h1))"
    by (metis surj_pair)
  from put_task_effect [OF assms(1) Suc.prems(1) t] obtain ext1 j where e1:
    "svc c1 \<noteq> None" "h1 = h @ ext1" "puts ext1 = attempt_requests url items [j]"
    "\<forall>v. r1 = Inr (v, None) \<longrightarrow> acknowledged aws url items h1" by blast
  show ?case
  proof (cases "\<exists>v e. r1 = Inr (v, Some e)")
    case True
    then have "retry_loop n (put_task aws items url) (c1, h1) = (r, (c', h'))"
      using Suc.prems(2) t by auto
    from Suc.IH [OF e1(1) this] obtain ext js where
      "svc c' \<noteq> None" "h' = h1 @ ext" "js \<noteq> []" "length js \<le> Suc n"
      "puts ext = attempt_requests url items js"
      "\<forall>v. r = Inr (v, None) \<longrightarrow> acknowledged aws url items h'"
      "\<forall>v e. r = Inr (v, Some e) \<longrightarrow> length js = Suc n" by blast
    with e1 show ?thesis
      by (intro conjI exI [of _ "ext1 @ ext"] exI [of _ "j # js"]) (auto simp: attempt_requests_def)
  next
    case False
    then have "r = r1" "c' = c1" "h' = h1"
      using Suc.prems(2) t by (auto split: sum.splits prod.splits option.splits)
    with e1 False show ?thesis
      by (intro conjI exI [of _ ext1] exI [of _ "[j]"]) auto
  qed
qed

section \<open>The sender's contract\<close>

text \<open>
  What a stream dispatcher relies on when it calls \<open>OnEvent\<close> of the sender at an
  index of its list: on a well-formed world, a call that returns no error leaves the messages
  acknowledged on the stream, and no call undoes an acknowledgement or breaks the world.
\<close>

locale sender_contract =
  fixes on_event :: "nat \<Rightarrow> 'm list \<Rightarrow> string \<Rightarrow> 'w \<Rightarrow> (go_panic + int \<times> go_err option) \<times> 'w"
    and ok :: "'w \<Rightarrow> bool"
    and acked :: "'w \<Rightarrow> string \<Rightarrow> 'm list \<Rightarrow> bool"
  assumes ok_step: "ok w \<Longrightarrow> on_event i ms url w = (r, w') \<Longrightarrow> ok w'"
    and acks: "ok w \<Longrightarrow> fits ms \<Longrightarrow> on_event i ms url w = (Inr (n, None), w') \<Longrightarrow> acked w' url ms"
    and keeps: "ok w \<Longrightarrow> on_event i ms url w = (r, w') \<Longrightarrow> acked w u xs \<Longrightarrow> acked w' u xs"

text \<open>
  The world of the Kinesis senders: the parameters, the list of senders (each owns its
  client) and the history of service calls. An index past the end panics, as in Go.
\<close>

type_synonym ('k, 'c, 'r) sender_world =
  "('k, 'c, 'r) sender_env \<times> ('k, 'r) KinesisSender list \<times> ('k, 'c) history"

definition sender_OnEvent :: "nat \<Rightarrow> msg list \<Rightarrow> string \<Rightarrow> ('k, 'c, 'r) sender_world
    \<Rightarrow> (go_panic + int \<times> go_err option) \<times> ('k, 'c, 'r) sender_world" where
  "sender_OnEvent i msgs url w =
     (case w of (env, ss, h) \<Rightarrow>
        if i < length ss
        then (case OnEvent env (ss ! i) msgs url h of (r, s', h') \<Rightarrow> (r, (env, ss[i := s'], h')))
        else (Inl IndexOutOfRange, w))"

definition sender_ok :: "('k, 'r) KinesisSender \<Rightarrow> bool" where
  "sender_ok s \<longleftrightarrow> (case kc s of None \<Rightarrow> False | Some c \<Rightarrow> svc c \<noteq> None)"

definition world_ok :: "('k, 'c, 'r) sender_world \<Rightarrow> bool" where
  "world_ok w = (case w of (env, ss, h) \<Rightarrow>
     honours_retry (env_run env) (env_limit env) \<and> list_all sender_ok ss)"

definition world_acked :: "('k, 'c, 'r) sender_world \<Rightarrow> string \<Rightarrow> msg list \<Rightarrow> bool" where
  "world_acked w url msgs = (case w of (env, ss, h) \<Rightarrow>
     (case marshal_items (env_marshal env) msgs of
        Inl p \<Rightarrow> False
      | Inr items \<Rightarrow> acknowledged (env_aws env) url items h))"

lemma marshal_items_length: "marshal_items marshal msgs = Inr items \<Longrightarrow> length items \<le> length msgs"
  by (induction marshal msgs arbitrary: items rule: marshal_items.induct)
     (auto simp: go_bind_Inr_iff split: prod.splits option.splits intro: le_SucI)

text \<open>
  Every non-panicking run of \<open>OnEvent\<close>, from the retry lemma: all its requests are attempts
  at the same items.
\<close>

lemma OnEvent_effect:
  assumes "honours_retry (env_run env) (env_limit env)" "sender_ok s" "fits msgs"
    and "OnEvent env s msgs url h = (r, s', h')"
  shows "sender_ok s' \<and> putRunner s' = putRunner s \<and> (\<exists>ext. h' = h @ ext \<and>
     (\<forall>v e. r = Inr (v, e) \<longrightarrow> (\<exists>items js. marshal_items (env_marshal env) msgs = Inr items
        \<and> js \<noteq> [] \<and> length js \<le> Suc (env_limit env (putRunner s))
        \<and> puts ext = attempt_requests url items js
        \<and> (e = None \<longrightarrow> acknowledged (env_aws env) url items h')
        \<and> (e \<noteq> None \<longrightarrow> length js = Suc (env_limit env (putRunner s))))))"
proof (cases "marshal_items (env_marshal env) msgs")
  case (Inl p)
  with assms show ?thesis by (auto simp: OnEvent_def)
next
  case (Inr items)
  from assms(2) obtain c where c: "kc s = Some c" "svc c \<noteq> None"
    by (auto simp: sender_ok_def split: option.splits)
  have "fits items" using marshal_items_length [OF Inr] assms(3) by (simp add: fits_def)
  moreover obtain r1 c1 h1 where run:
    "retry_loop (env_limit env (putRunner s)) (put_task (env_aws env) items url) (c, h) = (r1, (c1, h1))"
    by (metis surj_pair)
  ultimately obtain ext js where eff: "svc c1 \<noteq> None" "h1 = h @ ext" "js \<noteq> []"
      "length js \<le> Suc (env_limit env (putRunner s))" "puts ext = attempt_requests url items js"
      "\<And>v. r1 = Inr (v, None) \<Longrightarrow> acknowledged (env_aws env) url items h1"
      "\<And>v e. r1 = Inr (v, Some e) \<Longrightarrow> length js = Suc (env_limit env (putRunner s))"
    using retry_put_effect c(2) by (metis (no_types, lifting))
  have eqs: "r = r1" "s' = s\<lparr>kc := Some c1\<rparr>" "h' = h1"
    using assms(1,4) run c Inr by (auto simp: OnEvent_def honours_retry_def)
  have "e \<noteq> None \<Longrightarrow> r = Inr (v, e) \<Longrightarrow> length js = Suc (env_limit env (putRunner s))"
    and "e = None \<Longrightarrow> r = Inr (v, e) \<Longrightarrow> acknowledged (env_aws env) url items h'" for v e
    using eff(6,7) eqs by (cases e; simp)+
  then show ?thesis
    using eff(1-5) Inr eqs(2,3)
    by (intro conjI exI [of _ ext] allI impI exI [of _ items] exI [of _ js])
       (simp_all add: sender_ok_def)
qed

lemma marshal_items_None: "None \<in> set msgs \<Longrightarrow> marshal_items marshal msgs = Inl NilDeref"
  by (induction marshal msgs rule: marshal_items.induct) (auto split: prod.splits option.splits)

lemma OnEvent_None: "None \<in> set msgs \<Longrightarrow> OnEvent env s msgs url h = (Inl NilDeref, s, h)"
  by (simp add: OnEvent_def marshal_items_None)

text \<open>Whatever the outcome, the sender stays well-formed and the history only grows.\<close>

lemma retry_loop_frame:
  assumes "\<And>s r s'. P s \<Longrightarrow> task s = (r, s') \<Longrightarrow> P s'"
  shows "P s \<Longrightarrow> retry_loop n task s = (r, s') \<Longrightarrow> P s'"
proof (induction n arbitrary: s)
  case 0
  then show ?case using assms by simp
next
  case (Suc n)
  obtain r1 s1 where t: "task s = (r1, s1)" by fastforce
  with Suc.prems(1) have "P s1" by (rule assms)
  with Suc t show ?case by (auto split: sum.splits option.splits)
qed

lemma OnEvent_frame:
  assumes "honours_retry (env_run env) (env_limit env)" "sender_ok s"
    and "OnEvent env s msgs url h = (r, s', h')"
  shows "sender_ok s' \<and> (\<exists>ext. h' = h @ ext)"
proof (cases "marshal_items (env_marshal env) msgs")
  case (Inl p)
  with assms show ?thesis by (auto simp: OnEvent_def)
next
  case (Inr items)
  from assms(2) obtain c where c: "kc s = Some c" "svc c \<noteq> None"
    by (auto simp: sender_ok_def split: option.splits)
  let ?task = "put_task (env_aws env) items url"
  let ?P = "\<lambda>p. svc (fst p) \<noteq> None \<and> (\<exists>ext. snd p = h @ ext)"
  obtain r1 c1 h1 where run: "retry_loop (env_limit env (putRunner s)) ?task (c, h) = (r1, (c1, h1))"
    by (metis surj_pair)
  have "?P q'" if "?P q" "?task q = (x, q')" for q x q'
  proof -
    have "PutRecords (env_aws env) items url (fst q) (snd q) = (x, fst q', snd q')"
      using that(2) by (auto simp: put_task_def split: prod.splits)
    from PutRecords_frame [OF this] that(1) show ?thesis by auto
  qed
  from retry_loop_frame [of ?P, OF this _ run] c have "?P (c1, h1)" by auto
  with assms run c Inr show ?thesis by (auto simp: OnEvent_def honours_retry_def sender_ok_def)
qed

interpretation kinesis: sender_contract sender_OnEvent world_ok world_acked
proof (unfold_locales, goal_cases)
  case (1 w i ms url r w')
  then show ?case
    by (auto simp: world_ok_def sender_OnEvent_def list_all_length nth_list_update
        split: prod.splits if_splits dest: OnEvent_frame)
next
  case (2 w ms i url n w')
  then show ?case
    by (auto simp: world_ok_def world_acked_def sender_OnEvent_def list_all_length
        split: prod.splits if_splits dest!: OnEvent_effect)
next
  case (3 w i ms url r w' u xs)
  then show ?case
    by (auto simp: world_ok_def world_acked_def sender_OnEvent_def list_all_length
        split: prod.splits if_splits sum.splits dest!: OnEvent_frame intro: acknowledged_append)
qed

section \<open>Properties of the sender\<close>

text \<open>A concrete world: a runner is its own limit, and the service accepts everything.\<close>

definition sample_env :: "(unit, unit, nat) sender_env" where
  "sample_env = \<lparr>env_aws = accepting_aws, env_marshal = (\<lambda>m. (Payload m, None)),
     env_run = (\<lambda>r. retry_loop r), env_limit = (\<lambda>r. r)\<rparr>"

definition sample_sender :: "(unit, nat) KinesisSender" where
  "sample_sender = \<lparr>kc = Some local_client, schemaVersion = ''1.0'', logger_s = Some (),
     retries_s = 3, putRunner = 3\<rparr>"

definition sample_put :: "(unit, unit) history" where
  "sample_put = [PutRecordsCall () (put_request ''s''
     [\<lparr>PartitionKey_i = SessionID sample_message, Item_i = Payload sample_message\<rparr>])]"

lemma sample_ok:
  "honours_retry (env_run sample_env) (env_limit sample_env)" "sender_ok sample_sender"
  by (simp_all add: honours_retry_def sample_env_def sender_ok_def sample_sender_def local_client_def)

lemma sample_OnEvent:
  "OnEvent sample_env sample_sender [Some sample_message] ''s'' [] =
     (Inr (0, None), sample_sender, sample_put)"
  by (simp add: OnEvent_def sample_env_def sample_sender_def sample_put_def put_task_def
      numeral_3_eq_3
      PutRecords_def PutRecords_loop.simps GetBatch_def slice_from_def go_len_def put_batch_def
      refreshClient_def local_client_def empty_client_def accepting_aws_def
      MaxPutRecordsBatchSize_def put_request_def Let_def)

text \<open>
  C15. A call of \<open>OnEvent\<close> that returns has marshalled every message that can be marshalled
  and made at least one and at most \<open>MaxRetries + 1\<close> attempts, each of which puts the same
  items from the first one on; it returns no error only if one attempt had every batch
  accepted by the service, and an error only after all the attempts were used up. (A batch
  accepted in a failed attempt is sent again by the next one: delivery is at least once.)
\<close>

theorem OnEvent_attempts:
  assumes "honours_retry (env_run env) (env_limit env)" and "sender_ok s" and "fits msgs"
    and "OnEvent env s msgs url h = (Inr (v, e), s', h')"
  shows "\<exists>ext items js. h' = h @ ext \<and> marshal_items (env_marshal env) msgs = Inr items
     \<and> js \<noteq> [] \<and> length js \<le> Suc (env_limit env (putRunner s))
     \<and> puts ext = attempt_requests url items js
     \<and> (e = None \<longrightarrow> acknowledged (env_aws env) url items h')
     \<and> (e \<noteq> None \<longrightarrow> length js = Suc (env_limit env (putRunner s)))"
  using OnEvent_effect [OF assms] by blast

theorem OnEvent_attempts_witness:
  "\<exists>ext items js. sample_put = [] @ ext
     \<and> marshal_items (env_marshal sample_env) [Some sample_message] = Inr items
     \<and> js \<noteq> [] \<and> length js \<le> Suc (env_limit sample_env (putRunner sample_sender))
     \<and> puts ext = attempt_requests ''s'' items js
     \<and> ((None :: go_err option) = None \<longrightarrow> acknowledged (env_aws sample_env) ''s'' items sample_put)
     \<and> ((None :: go_err option) \<noteq> None \<longrightarrow>
          length js = Suc (env_limit sample_env (putRunner sample_sender)))"
proof -
  have "fits [Some sample_message]" by (simp add: fits_def)
  from OnEvent_attempts [OF sample_ok this sample_OnEvent] show ?thesis .
qed

text \<open>
  A batch that contains a \<open>nil\<close> message makes \<open>OnEvent\<close> panic before anything is
  put on the stream, wherever in the batch it stands and whatever the sender.
\<close>

theorem OnEvent_nil_panics:
  assumes "None \<in> set msgs"
  shows "OnEvent env s msgs url h = (Inl NilDeref, s, h)"
  using assms by (rule OnEvent_None)

theorem OnEvent_nil_panics_witness:
  "OnEvent sample_env sample_sender [Some sample_message, None] ''s'' [] =
     (Inl NilDeref, sample_sender, [])"
  using OnEvent_nil_panics [of "[Some sample_message, None]"] by simp

text \<open>
  The constructor of a sender: an empty configuration is refused; otherwise an error of the
  retry library is returned without a sender; otherwise the provider is asked once, with the
  five options read from the configuration, and the sender comes back with the provider's
  client and error, with the configured version or \<open>1.0\<close>, and with a positive number of
  retries.
\<close>

theorem NewKinesisSender_cases:
  assumes "NewKinesisSender new_runner retries config logger (Some get) h = (r, h')"
  shows "(config_empty config \<longrightarrow> r = Inr (None, Some (GoErr ''config cannot be empty'')) \<and> h' = h) \<and>
    (\<not> config_empty config \<longrightarrow>
      (\<exists>n. 0 < n \<and> (0 < retries \<longrightarrow> n = retries) \<and> (retries \<le> 0 \<longrightarrow> n = 3) \<and>
       (case new_runner \<lparr>Interval = 10 * 10 ^ 6, MaxRetries = n\<rparr> of
          (runner, Some e) \<Rightarrow> r = Inr (None, Some e) \<and> h' = h
        | (runner, None) \<Rightarrow>
            (case get (sender_options config logger) h of ((client, err), h1) \<Rightarrow>
               h' = h1 \<and> (\<exists>s. r = Inr (Some s, err) \<and> kc s = client \<and> putRunner s = runner
                 \<and> retries_s s = n \<and> schemaVersion s \<noteq> ''''
                 \<and> (config_get config Version_key \<noteq> '''' \<longrightarrow>
                      schemaVersion s = config_get config Version_key))))))"
proof (cases "config_empty config")
  case True
  with assms show ?thesis by (simp add: NewKinesisSender_def)
next
  case False
  have "0 < (if retries \<le> 0 then Retries else retries)" by (simp add: Retries_def)
  with assms False show ?thesis
    by (intro conjI impI exI [of _ "if retries \<le> 0 then Retries else retries"])
       (auto simp: NewKinesisSender_def Retries_def SchemaVersion_def Let_def
         split: prod.splits option.splits if_splits)
qed

theorem NewKinesisSender_cases_witness:
  "fst (NewKinesisSender (\<lambda>cfg. (nat (MaxRetries cfg), None)) 0 [''region'' \<mapsto> ''local'']
     (Some ()) (Some (\<lambda>opts h. ((Some local_client, None), h))) ([] :: (unit, unit) history))
   = Inr (Some sample_sender, None)"
proof -
  let ?m = "NewKinesisSender (\<lambda>cfg. (nat (MaxRetries cfg), None)) 0 [''region'' \<mapsto> ''local'']
     (Some ()) (Some (\<lambda>opts h. ((Some local_client, None), h))) ([] :: (unit, unit) history)"
  obtain r h' where m: "?m = (r, h')" by fastforce
  have ne: "\<not> config_empty [''region'' \<mapsto> ''local'']" by (simp add: config_empty_def)
  from NewKinesisSender_cases [OF m] ne
  have "\<exists>s. r = Inr (Some s, None) \<and> kc s = Some local_client \<and> putRunner s = 3 \<and> retries_s s = 3"
    by auto
  then have "\<exists>s. fst ?m = Inr (Some s, None) \<and> kc s = Some local_client" using m by auto
  then show ?thesis
    using ne by (simp add: NewKinesisSender_def sample_sender_def Let_def Retries_def
        SchemaVersion_def config_get_def Version_key_def)
qed

text \<open>
  The session token of the credentials is the value of the key \<open>sessiontoken\<close>; the key
  \<open>session_token\<close>, which the sample configuration \<open>streams_only.yaml\<close> uses, has no effect
  on any option of the client.
\<close>

theorem session_token_key_ignored:
  "sender_options (config(''session_token'' \<mapsto> token)) logger = sender_options config logger
   \<and> SessionToken_c (sender_credentials (config(''sessiontoken'' \<mapsto> token))) = token"
  by (simp_all add: sender_options_def sender_credentials_def config_get_def key_defs)

end
