(* ===== verification/Queue.thy ===== *)
theory Queue
  imports Prelude "HOL-Library.Multiset"
begin

text \<open>
  The package \<open>internal/queue\<close> (\<open>queue.go\<close>): a bounded queue of items that one loop
  (\<open>Start\<close>) collects into batches, and a pool of worker goroutines that submit them.

  The first half models the operations on the queue as functions. A channel is a record in
  a heap, because \<open>Empty\<close> replaces \<open>q.items\<close> while the loop may still wait on the old
  channel. The second half is the concurrent system: a step relation between states of
  all goroutines at once (calls of \<open>AddItem\<close> in progress, the loop at a program point,
  the workers in flight), with one rule per step of the code. The mutex of the queue guards
  single statements only and is part of the step; reads of \<open>q.items\<close> are atomic.
  Counters are natural numbers (in the code, \<open>float64\<close> metrics).
\<close>

section \<open>Channels and configuration\<close>

record 'a chan =
  cbuf :: "'a list"
  ccap :: nat
  cclosed :: bool

definition DefaultBatchSize :: int where "DefaultBatchSize = 10"
definition DefaultWorkerPoolSize :: int where "DefaultWorkerPoolSize = 10"
definition DefaultChannelSize :: int where "DefaultChannelSize = 100"
definition DefaultBatchTimeLimitSeconds :: int where "DefaultBatchTimeLimitSeconds = 15"

lemmas queue_defaults = DefaultBatchSize_def DefaultWorkerPoolSize_def DefaultChannelSize_def
  DefaultBatchTimeLimitSeconds_def

record QueueConfig =
  q_Name :: string
  ChannelSize :: int
  WorkerPoolSize :: int
  BatchSize :: int
  BatchTimeLimitSeconds :: int
  SubmitOnEmptyQueue :: bool

text \<open>
  \<open>MyQueue\<close>: \<open>heap\<close> holds the channels made so far and \<open>items_ref\<close> is the one
  \<open>q.items\<close> points to; \<open>sem_held\<close> is the weight taken from the semaphore, \<open>wg\<close> the
  counter of the wait group; the fields \<open>m_\<dots>\<close> are the telemetry.
\<close>

record 'a MyQueue =
  heap :: "'a chan list"
  items_ref :: nat
  sem_held :: nat
  wg :: nat
  cfg :: QueueConfig
  started :: bool
  m_queued :: nat
  m_dropped :: nat
  m_batch :: nat
  m_errors :: nat
  m_calls :: nat

definition make_chan :: "int \<Rightarrow> 'a chan" where
  "make_chan n = \<lparr>cbuf = [], ccap = nat n, cclosed = False\<rparr>"

section \<open>Operations\<close>

definition with_defaults :: "QueueConfig \<Rightarrow> QueueConfig" where
  "with_defaults c =
     (let c1 = (if BatchSize c \<le> 0 then c\<lparr>BatchSize := DefaultBatchSize\<rparr> else c);
          c2 = (if ChannelSize c1 \<le> 0 then c1\<lparr>ChannelSize := DefaultChannelSize\<rparr> else c1);
          c3 = (if WorkerPoolSize c2 \<le> 0 then c2\<lparr>WorkerPoolSize := DefaultWorkerPoolSize\<rparr> else c2)
      in if BatchTimeLimitSeconds c3 \<le> 0
         then c3\<lparr>BatchTimeLimitSeconds := DefaultBatchTimeLimitSeconds\<rparr> else c3)"

text \<open>
  \<open>NewQueue\<close>, with the pointers it checks as options; the submitter is \<open>None\<close> for a
  \<open>nil\<close> interface and for an interface that holds a nil pointer.
\<close>

definition NewQueue :: "QueueConfig \<Rightarrow> unit option \<Rightarrow> unit option \<Rightarrow> 's option
    \<Rightarrow> 'a MyQueue option \<times> go_err option" where
  "NewQueue c t logger batchSubmitter =
     (if logger = None then (None, Some (GoErr ''logger is required''))
      else if t = None then (None, Some (GoErr ''telemetry is required''))
      else if batchSubmitter = None then (None, Some (GoErr ''batchSubmitter is required''))
      else if q_Name c = '''' then (None, Some (GoErr ''queue name is required''))
      else let c = with_defaults c in
        (Some \<lparr>heap = [make_chan (ChannelSize c)], items_ref = 0, sem_held = 0, wg = 0, cfg = c,
               started = False, m_queued = 0, m_dropped = 0, m_batch = 0, m_errors = 0,
               m_calls = 0\<rparr>, None))"

definition items_chan :: "('a, 'z) MyQueue_scheme \<Rightarrow> 'a chan" where
  "items_chan q = heap q ! items_ref q"

definition has_room :: "('a, 'z) MyQueue_scheme \<Rightarrow> bool" where
  "has_room q \<longleftrightarrow> length (cbuf (items_chan q)) < ccap (items_chan q)"

definition count_drop :: "('a, 'z) MyQueue_scheme \<Rightarrow> ('a, 'z) MyQueue_scheme" where
  "count_drop q = q\<lparr>m_dropped := Suc (m_dropped q)\<rparr>"

text \<open>A send on a channel: a panic, \<open>None\<close> while it blocks, or the item in the buffer.\<close>

definition chan_send :: "nat \<Rightarrow> 'a \<Rightarrow> ('a, 'z) MyQueue_scheme
    \<Rightarrow> go_panic + ('a, 'z) MyQueue_scheme option" where
  "chan_send i x q =
     (let c = heap q ! i in
      if cclosed c then Inl SendOnClosedChannel
      else if length (cbuf c) < ccap c
      then Inr (Some (q\<lparr>heap := (heap q)[i := c\<lparr>cbuf := cbuf c @ [x]\<rparr>]\<rparr>))
      else Inr None)"

text \<open>\<open>AddItem\<close> run without another goroutine in between.\<close>

definition AddItem :: "'a \<Rightarrow> ('a, 'z) MyQueue_scheme \<Rightarrow> go_panic + ('a, 'z) MyQueue_scheme option" where
  "AddItem x q = (if has_room q then chan_send (items_ref q) x q else Inr (Some (count_drop q)))"

definition Close :: "('a, 'z) MyQueue_scheme \<Rightarrow> go_panic + ('a, 'z) MyQueue_scheme" where
  "Close q =
     (if cclosed (items_chan q) then Inl CloseOfClosedChannel
      else Inr (q\<lparr>heap := (heap q)[items_ref q := (items_chan q)\<lparr>cclosed := True\<rparr>]\<rparr>))"

text \<open>\<open>Empty\<close> counts the waiting items and then puts a new channel in place of the old.\<close>

definition Empty_swap :: "nat \<Rightarrow> ('a, 'z) MyQueue_scheme \<Rightarrow> ('a, 'z) MyQueue_scheme" where
  "Empty_swap numDropped q =
     q\<lparr>heap := heap q @ [make_chan (ChannelSize (cfg q))], items_ref := length (heap q),
       m_dropped := m_dropped q + numDropped, m_queued := 0\<rparr>"

definition Empty :: "('a, 'z) MyQueue_scheme \<Rightarrow> ('a, 'z) MyQueue_scheme" where
  "Empty q = Empty_swap (length (cbuf (items_chan q))) q"

definition SetBatchSize :: "int \<Rightarrow> ('a, 'z) MyQueue_scheme \<Rightarrow> ('a, 'z) MyQueue_scheme" where
  "SetBatchSize n q = q\<lparr>cfg := (cfg q)\<lparr>BatchSize := n\<rparr>\<rparr>"

text \<open>\<open>Wait\<close> returns when the counter of the wait group is 0.\<close>

definition Wait_returns :: "('a, 'z) MyQueue_scheme \<Rightarrow> bool" where
  "Wait_returns q \<longleftrightarrow> wg q = 0"

definition submitIfQueueIsEmpty :: "('a, 'z) MyQueue_scheme \<Rightarrow> bool" where
  "submitIfQueueIsEmpty q \<longleftrightarrow> SubmitOnEmptyQueue (cfg q) \<and> cbuf (items_chan q) = []"

text \<open>The test of \<open>processItems\<close>: submit now?\<close>

definition process_submits :: "'a list \<Rightarrow> ('a, 'z) MyQueue_scheme \<Rightarrow> bool" where
  "process_submits items q \<longleftrightarrow> BatchSize (cfg q) \<le> int (length items) \<or> submitIfQueueIsEmpty q"

text \<open>
  A receive from a channel: the first waiting item, or \<open>None\<close> (the zero value of the
  element type) from a closed channel with nothing left; \<open>chan_ready\<close> says whether a
  receive can proceed.
\<close>

definition chan_ready :: "'a chan \<Rightarrow> bool" where
  "chan_ready c \<longleftrightarrow> cbuf c \<noteq> [] \<or> cclosed c"

definition chan_recv :: "'a chan \<Rightarrow> 'a option \<times> 'a chan" where
  "chan_recv c = (case cbuf c of [] \<Rightarrow> (None, c) | x # xs \<Rightarrow> (Some x, c\<lparr>cbuf := xs\<rparr>))"

section \<open>The concurrent system\<close>

text \<open>
  A call of \<open>AddItem\<close> in progress has passed the length check (\<open>Checked\<close>) or has
  evaluated \<open>q.items\<close> and sends on that channel (\<open>SendingTo\<close>).
\<close>

datatype 'a producer = Checked 'a | SendingTo nat 'a

fun producer_item :: "'a producer \<Rightarrow> 'a" where
  "producer_item (Checked x) = x"
| "producer_item (SendingTo i x) = x"

text \<open>
  The program points of \<open>Start\<close>: not called; \<open>started\<close> set, before \<open>wg.Add\<close>; top of
  the loop; in the \<open>select\<close> on a channel; after a receive, before \<open>processItems\<close>; in
  \<open>submitItems\<close> before \<open>Acquire\<close>; returned.
\<close>

datatype loop_pc = NotStarted | Starting | LoopTop | Selecting nat | Received | Submitting | Stopped

text \<open>
  The state of the whole system: the queue, the local \<open>items\<close> of the loop, the batches of
  the workers in flight, the calls of \<open>AddItem\<close> and \<open>Empty\<close> in progress, the context,
  the world the submitter acts on, and a panic that ended the process. The last
  fields are the record of what happened: items that entered each channel, receives,
  batches handed to workers, batches whose submission returned, and calls that panicked.
  \<open>peak\<close> is the largest batch size configured so far.
\<close>

record ('a, 'w) system = "'a MyQueue" +
  pc :: loop_pc
  items :: "'a list"
  running :: "'a list list"
  producers :: "'a producer list"
  emptying :: "nat list"
  cancelled :: bool
  world :: 'w
  crashed :: "go_panic option"
  accepted :: "(nat \<times> 'a) list"
  taken :: "(nat \<times> 'a option) list"
  launched :: "'a list list"
  finished :: "('a list \<times> go_err option) list"
  call_panics :: "go_panic list"
  peak :: int

text \<open>A submitter: \<open>Submit\<close> of an interface, on the world it changes.\<close>

type_synonym ('a, 'w) submitter = "'a list \<Rightarrow> 'w \<Rightarrow> (go_panic + go_err option) \<times> 'w"

datatype 'a event =
    Add_check 'a | Add_bind nat | Add_send nat
  | Start_call | Start_add | Select_enter | Recv | Tick | Ctx_done | Process
  | Acquire | Acquire_fail | Worker nat
  | Close_call | Empty_count | Empty_replace nat | Wait_return | Set_batch int | Cancel

definition remove_nth :: "nat \<Rightarrow> 'b list \<Rightarrow> 'b list" where
  "remove_nth j xs = take j xs @ drop (Suc j) xs"

definition boot :: "'a MyQueue \<Rightarrow> 'w \<Rightarrow> ('a, 'w) system" where
  "boot q w =
     \<lparr>heap = heap q, items_ref = items_ref q, sem_held = sem_held q, wg = wg q, cfg = cfg q,
      started = started q, m_queued = m_queued q, m_dropped = m_dropped q, m_batch = m_batch q,
      m_errors = m_errors q, m_calls = m_calls q,
      pc = NotStarted, items = [], running = [], producers = [], emptying = [],
      cancelled = False, world = w, crashed = None, accepted = [], taken = [], launched = [],
      finished = [], call_panics = [], peak = BatchSize (cfg q)\<rparr>"

text \<open>
  The steps. Every rule needs a process that has not crashed.
  \<^item> \<open>AddItem\<close>: the length check drops the item (\<open>add_drop\<close>) or lets the call go on
    (\<open>add_check\<close>); the channel is read (\<open>add_bind\<close>); the send succeeds when there is
    room by then (\<open>add_send\<close>), blocks (no step) or panics on a closed channel.
  \<^item> \<open>Start\<close>: a call when already started does nothing (\<open>start_again\<close>); the \<open>select\<close>
    takes any case that is ready: a receive, a tick of the timer, the end of the context.
  \<^item> \<open>submitItems\<close>: nothing for an empty batch (\<open>tick_empty\<close>); \<open>Acquire\<close> succeeds when
    fewer than \<open>WorkerPoolSize\<close> workers hold the semaphore, and may fail, keeping the
    items, only when the context is done.
  \<^item> a worker runs \<open>Submit\<close> on its batch and releases the semaphore; a panic of \<open>Submit\<close>
    in the goroutine ends the process.
\<close>

inductive qstep :: "('a, 'w) submitter \<Rightarrow> 'a \<Rightarrow> ('a, 'w) system \<Rightarrow> 'a event
    \<Rightarrow> ('a, 'w) system \<Rightarrow> bool"
  for submit :: "('a, 'w) submitter" and zero :: 'a where
  add_check: "crashed s = None \<Longrightarrow> has_room s \<Longrightarrow>
    qstep submit zero s (Add_check x) (s\<lparr>producers := producers s @ [Checked x]\<rparr>)"
| add_drop: "crashed s = None \<Longrightarrow> \<not> has_room s \<Longrightarrow>
    qstep submit zero s (Add_check x) (count_drop s)"
| add_bind: "crashed s = None \<Longrightarrow> j < length (producers s) \<Longrightarrow> producers s ! j = Checked x \<Longrightarrow>
    qstep submit zero s (Add_bind j)
      (s\<lparr>producers := (producers s)[j := SendingTo (items_ref s) x]\<rparr>)"
| add_send: "crashed s = None \<Longrightarrow> j < length (producers s) \<Longrightarrow> producers s ! j = SendingTo i x \<Longrightarrow>
    chan_send i x s = Inr (Some s') \<Longrightarrow>
    qstep submit zero s (Add_send j)
      (s'\<lparr>producers := remove_nth j (producers s), accepted := accepted s @ [(i, x)]\<rparr>)"
| add_panic: "crashed s = None \<Longrightarrow> j < length (producers s) \<Longrightarrow> producers s ! j = SendingTo i x \<Longrightarrow>
    chan_send i x s = Inl p \<Longrightarrow>
    qstep submit zero s (Add_send j)
      (s\<lparr>producers := remove_nth j (producers s), call_panics := call_panics s @ [p]\<rparr>)"
| start_first: "crashed s = None \<Longrightarrow> \<not> started s \<Longrightarrow>
    qstep submit zero s Start_call (s\<lparr>started := True, pc := Starting\<rparr>)"
| start_again: "crashed s = None \<Longrightarrow> started s \<Longrightarrow> qstep submit zero s Start_call s"
| start_add: "crashed s = None \<Longrightarrow> pc s = Starting \<Longrightarrow>
    qstep submit zero s Start_add (s\<lparr>wg := Suc (wg s), items := [], pc := LoopTop\<rparr>)"
| select_enter: "crashed s = None \<Longrightarrow> pc s = LoopTop \<Longrightarrow>
    qstep submit zero s Select_enter (s\<lparr>pc := Selecting (items_ref s)\<rparr>)"
| recv: "crashed s = None \<Longrightarrow> pc s = Selecting i \<Longrightarrow> chan_ready (heap s ! i) \<Longrightarrow>
    chan_recv (heap s ! i) = (v, c) \<Longrightarrow>
    qstep submit zero s Recv
      (s\<lparr>heap := (heap s)[i := c], taken := taken s @ [(i, v)],
         items := items s @ [case v of None \<Rightarrow> zero | Some x \<Rightarrow> x],
         m_queued := length (cbuf ((heap s)[i := c] ! items_ref s)), pc := Received\<rparr>)"
| tick_empty: "crashed s = None \<Longrightarrow> pc s = Selecting i \<Longrightarrow> items s = [] \<Longrightarrow>
    qstep submit zero s Tick (s\<lparr>m_calls := Suc (m_calls s), pc := LoopTop\<rparr>)"
| tick_submit: "crashed s = None \<Longrightarrow> pc s = Selecting i \<Longrightarrow> items s \<noteq> [] \<Longrightarrow>
    qstep submit zero s Tick (s\<lparr>pc := Submitting\<rparr>)"
| ctx_done: "crashed s = None \<Longrightarrow> pc s = Selecting i \<Longrightarrow> cancelled s \<Longrightarrow>
    qstep submit zero s Ctx_done (s\<lparr>wg := wg s - 1, pc := Stopped\<rparr>)"
| process_submit: "crashed s = None \<Longrightarrow> pc s = Received \<Longrightarrow> process_submits (items s) s \<Longrightarrow>
    qstep submit zero s Process (s\<lparr>pc := Submitting\<rparr>)"
| process_wait: "crashed s = None \<Longrightarrow> pc s = Received \<Longrightarrow> \<not> process_submits (items s) s \<Longrightarrow>
    qstep submit zero s Process (s\<lparr>pc := LoopTop\<rparr>)"
| acquire: "crashed s = None \<Longrightarrow> pc s = Submitting \<Longrightarrow> int (sem_held s) < WorkerPoolSize (cfg s) \<Longrightarrow>
    qstep submit zero s Acquire
      (s\<lparr>sem_held := Suc (sem_held s), running := running s @ [items s],
         launched := launched s @ [items s], items := [], m_calls := Suc (m_calls s), pc := LoopTop\<rparr>)"
| acquire_fail: "crashed s = None \<Longrightarrow> pc s = Submitting \<Longrightarrow> cancelled s \<Longrightarrow>
    qstep submit zero s Acquire_fail (s\<lparr>m_calls := Suc (m_calls s), pc := LoopTop\<rparr>)"
| worker_done: "crashed s = None \<Longrightarrow> j < length (running s) \<Longrightarrow>
    submit (running s ! j) (world s) = (Inr err, w') \<Longrightarrow>
    qstep submit zero s (Worker j)
      (s\<lparr>world := w', m_batch := length (running s ! j),
         m_errors := (if err = None then m_errors s else Suc (m_errors s)),
         sem_held := sem_held s - 1, finished := finished s @ [(running s ! j, err)],
         running := remove_nth j (running s)\<rparr>)"
| worker_panic: "crashed s = None \<Longrightarrow> j < length (running s) \<Longrightarrow>
    submit (running s ! j) (world s) = (Inl p, w') \<Longrightarrow>
    qstep submit zero s (Worker j)
      (s\<lparr>world := w', m_batch := length (running s ! j), crashed := Some p\<rparr>)"
| close_ok: "crashed s = None \<Longrightarrow> Close s = Inr s' \<Longrightarrow> qstep submit zero s Close_call s'"
| close_panic: "crashed s = None \<Longrightarrow> Close s = Inl p \<Longrightarrow>
    qstep submit zero s Close_call (s\<lparr>call_panics := call_panics s @ [p]\<rparr>)"
| empty_count: "crashed s = None \<Longrightarrow>
    qstep submit zero s Empty_count
      (s\<lparr>emptying := emptying s @ [length (cbuf (items_chan s))]\<rparr>)"
| empty_replace: "crashed s = None \<Longrightarrow> j < length (emptying s) \<Longrightarrow>
    qstep submit zero s (Empty_replace j)
      (Empty_swap (emptying s ! j) (s\<lparr>emptying := remove_nth j (emptying s)\<rparr>))"
| wait_return: "crashed s = None \<Longrightarrow> Wait_returns s \<Longrightarrow> qstep submit zero s Wait_return s"
| set_batch: "crashed s = None \<Longrightarrow>
    qstep submit zero s (Set_batch n) ((SetBatchSize n s)\<lparr>peak := max (peak s) n\<rparr>)"
| cancel: "crashed s = None \<Longrightarrow> qstep submit zero s Cancel (s\<lparr>cancelled := True\<rparr>)"

inductive_cases add_checkE [elim!]: "qstep submit zero s (Add_check x) t"
inductive_cases recvE [elim!]: "qstep submit zero s Recv t"
inductive_cases acquireE [elim!]: "qstep submit zero s Acquire t"
inductive_cases workerE [elim!]: "qstep submit zero s (Worker j) t"
inductive_cases wait_returnE [elim!]: "qstep submit zero s Wait_return t"
inductive_cases cancelE [elim!]: "qstep submit zero s Cancel t"

text \<open>Runs, from the state a new queue starts in.\<close>

inductive reachable :: "('a, 'w) submitter \<Rightarrow> 'a \<Rightarrow> ('a, 'w) system \<Rightarrow> ('a, 'w) system \<Rightarrow> bool"
  for submit zero s0 where
  reach_start: "reachable submit zero s0 s0"
| reach_step: "reachable submit zero s0 s \<Longrightarrow> qstep submit zero s e t \<Longrightarrow>
    reachable submit zero s0 t"

section \<open>Invariants\<close>

definition sent_on :: "nat \<Rightarrow> ('a, 'w) system \<Rightarrow> 'a list" where
  "sent_on i s = map snd (filter (\<lambda>p. fst p = i) (accepted s))"

definition got_from :: "nat \<Rightarrow> ('a, 'w) system \<Rightarrow> 'a list" where
  "got_from i s = List.map_filter (\<lambda>p. if fst p = i then snd p else None) (taken s)"

definition values_taken :: "'a \<Rightarrow> ('a, 'w) system \<Rightarrow> 'a list" where
  "values_taken zero s = map (\<lambda>p. case snd p of None \<Rightarrow> zero | Some x \<Rightarrow> x) (taken s)"

text \<open>
  The channels: references are valid, buffers respect their capacity, what a channel
  accepted is what was received from it followed by what waits in it, and a zero
  value only ever came from a closed channel.
\<close>

definition inv_channels :: "('a, 'w) system \<Rightarrow> bool" where
  "inv_channels s \<longleftrightarrow> items_ref s < length (heap s)
     \<and> (\<forall>i < length (heap s). length (cbuf (heap s ! i)) \<le> ccap (heap s ! i)
          \<and> ccap (heap s ! i) = nat (ChannelSize (cfg s)))
     \<and> (\<forall>i < length (heap s). sent_on i s = got_from i s @ cbuf (heap s ! i))
     \<and> (\<forall>i x. SendingTo i x \<in> set (producers s) \<longrightarrow> i < length (heap s))
     \<and> (\<forall>i. pc s = Selecting i \<longrightarrow> i < length (heap s))
     \<and> (\<forall>p \<in> set (accepted s). fst p < length (heap s))
     \<and> (\<forall>p \<in> set (taken s). fst p < length (heap s) \<and> (snd p = None \<longrightarrow> cclosed (heap s ! fst p)))"

text \<open>
  The batches: every received value is in exactly one place, in order: in a batch handed to a
  worker or among the items in hand; no batch is empty.
\<close>

definition inv_batches :: "'a \<Rightarrow> ('a, 'w) system \<Rightarrow> bool" where
  "inv_batches zero s \<longleftrightarrow> values_taken zero s = concat (launched s) @ items s
     \<and> [] \<notin> set (launched s)
     \<and> (pc s = NotStarted \<or> pc s = Starting \<longrightarrow> items s = [])
     \<and> (pc s = Received \<or> pc s = Submitting \<longrightarrow> items s \<noteq> [])"

text \<open>The workers: a launched batch is in flight or finished; the pool bounds the workers.\<close>

definition inv_workers :: "('a, 'w) system \<Rightarrow> bool" where
  "inv_workers s \<longleftrightarrow> mset (launched s) = mset (running s) + mset (map fst (finished s))
     \<and> sem_held s = length (running s) \<and> int (length (running s)) \<le> WorkerPoolSize (cfg s)
     \<and> 0 < WorkerPoolSize (cfg s)
     \<and> m_errors s = length (filter (\<lambda>p. snd p \<noteq> None) (finished s))"

text \<open>The loop: the wait group counts it while it runs, and it ends only with its context.\<close>

definition inv_loop :: "('a, 'w) system \<Rightarrow> bool" where
  "inv_loop s \<longleftrightarrow>
     wg s = (if pc s = NotStarted \<or> pc s = Starting \<or> pc s = Stopped then 0 else 1)
     \<and> (started s \<longleftrightarrow> pc s \<noteq> NotStarted) \<and> (pc s = Stopped \<longrightarrow> cancelled s)"

text \<open>The batch size bounds the batches while the context is not done.\<close>

definition inv_size :: "('a, 'w) system \<Rightarrow> bool" where
  "inv_size s \<longleftrightarrow> 1 \<le> peak s \<and> BatchSize (cfg s) \<le> peak s
     \<and> (\<not> cancelled s \<longrightarrow> (\<forall>b \<in> set (launched s). int (length b) \<le> peak s)
          \<and> int (length (items s)) \<le> peak s
          \<and> (pc s \<noteq> Received \<longrightarrow> pc s \<noteq> Submitting \<longrightarrow> int (length (items s)) < peak s))"

definition queue_inv :: "'a \<Rightarrow> ('a, 'w) system \<Rightarrow> bool" where
  "queue_inv zero s \<longleftrightarrow>
     inv_channels s \<and> inv_batches zero s \<and> inv_workers s \<and> inv_loop s \<and> inv_size s"

lemma chan_send_Some:
  "chan_send i x q = Inr (Some q') \<longleftrightarrow> \<not> cclosed (heap q ! i)
     \<and> length (cbuf (heap q ! i)) < ccap (heap q ! i)
     \<and> q' = q\<lparr>heap := (heap q)[i := (heap q ! i)\<lparr>cbuf := cbuf (heap q ! i) @ [x]\<rparr>]\<rparr>"
  by (auto simp: chan_send_def Let_def)

lemma Close_Inr:
  "Close q = Inr q' \<longleftrightarrow> \<not> cclosed (heap q ! items_ref q)
     \<and> q' = q\<lparr>heap := (heap q)[items_ref q := (heap q ! items_ref q)\<lparr>cclosed := True\<rparr>]\<rparr>"
  by (auto simp: Close_def items_chan_def)

lemma chan_recv_cases:
  assumes "chan_recv c = (v, c')" "chan_ready c"
  obtains x where "v = Some x" "cbuf c = x # cbuf c'" "ccap c' = ccap c" "cclosed c' = cclosed c"
    | "v = None" "c' = c" "cbuf c = []" "cclosed c"
  using assms by (auto simp: chan_recv_def chan_ready_def split: list.splits)

lemma set_remove_nth: "x \<in> set (remove_nth j xs) \<Longrightarrow> x \<in> set xs"
  by (auto simp: remove_nth_def dest: in_set_takeD in_set_dropD)

lemma mset_remove_nth: "j < length xs \<Longrightarrow> mset xs = add_mset (xs ! j) (mset (remove_nth j xs))"
  by (subst id_take_nth_drop [of j xs]) (auto simp: remove_nth_def)

lemma length_remove_nth: "j < length xs \<Longrightarrow> length (remove_nth j xs) = length xs - 1"
  by (simp add: remove_nth_def)

lemmas queue_ops = count_drop_def Empty_swap_def SetBatchSize_def make_chan_def

lemma inv_channels_step: "qstep submit zero s e t \<Longrightarrow> inv_channels s \<Longrightarrow> inv_channels t"
proof (induction rule: qstep.induct)
  case (add_bind s j x)
  then show ?case
    by (auto simp: inv_channels_def sent_on_def got_from_def dest!: set_update_subset_insert [THEN subsetD])
next
  case (add_send s j i x s')
  from add_send.hyps(2,3) have "SendingTo i x \<in> set (producers s)" by (metis nth_mem)
  with add_send.prems have "i < length (heap s)" by (auto simp: inv_channels_def)
  with add_send show ?case
    by (auto simp: inv_channels_def sent_on_def got_from_def chan_send_Some nth_list_update
        dest!: set_remove_nth)
next
  case (add_panic s j i x p)
  then show ?case by (auto simp: inv_channels_def sent_on_def got_from_def dest!: set_remove_nth)
next
  case (recv s i v c)
  from recv.prems recv.hyps have i: "i < length (heap s)" by (auto simp: inv_channels_def)
  from recv.hyps(4,3) show ?case
  proof (cases rule: chan_recv_cases)
    case (1 x)
    with recv i show ?thesis
      by (auto simp: inv_channels_def sent_on_def got_from_def List.map_filter_def nth_list_update)
  next
    case 2
    with recv i show ?thesis
      by (auto simp: inv_channels_def sent_on_def got_from_def List.map_filter_def nth_list_update)
  qed
next
  case (close_ok s s')
  then show ?case
    by (auto simp: inv_channels_def sent_on_def got_from_def Close_Inr nth_list_update)
next
  case (empty_replace s j)
  let ?t = "Empty_swap (emptying s ! j) (s\<lparr>emptying := remove_nth j (emptying s)\<rparr>)"
  have "\<forall>p \<in> set (accepted s). fst p \<noteq> length (heap s)" "\<forall>p \<in> set (taken s). fst p \<noteq> length (heap s)"
    using empty_replace.prems by (auto simp: inv_channels_def)
  then have "sent_on (length (heap s)) s = []" "got_from (length (heap s)) s = []"
    by (simp_all add: sent_on_def got_from_def List.map_filter_def filter_empty_conv)
  moreover have "sent_on i ?t = sent_on i s" "got_from i ?t = got_from i s" for i
    by (simp_all add: sent_on_def got_from_def Empty_swap_def)
  ultimately show ?case
    using empty_replace.prems
    by (auto simp: inv_channels_def nth_append less_Suc_eq) (auto simp: queue_ops nth_append less_Suc_eq)
qed (auto simp: inv_channels_def sent_on_def got_from_def queue_ops)

lemma inv_batches_step:
  "qstep submit zero s e t \<Longrightarrow> inv_loop s \<Longrightarrow> inv_batches zero s \<Longrightarrow> inv_batches zero t"
  by (induction rule: qstep.induct)
     (auto simp: inv_batches_def inv_loop_def values_taken_def chan_send_Some Close_Inr queue_ops)

lemma inv_workers_step: "qstep submit zero s e t \<Longrightarrow> inv_workers s \<Longrightarrow> inv_workers t"
  by (induction rule: qstep.induct)
     (auto simp: inv_workers_def chan_send_Some Close_Inr queue_ops length_remove_nth
       dest: mset_remove_nth)

lemma inv_loop_step: "qstep submit zero s e t \<Longrightarrow> inv_loop s \<Longrightarrow> inv_loop t"
  by (induction rule: qstep.induct) (auto simp: inv_loop_def chan_send_Some Close_Inr queue_ops)

lemma inv_size_step: "qstep submit zero s e t \<Longrightarrow> inv_loop s \<Longrightarrow> inv_size s \<Longrightarrow> inv_size t"
  by (induction rule: qstep.induct)
     (auto simp: inv_size_def inv_loop_def chan_send_Some Close_Inr queue_ops process_submits_def)

lemma queue_inv_step: "qstep submit zero s e t \<Longrightarrow> queue_inv zero s \<Longrightarrow> queue_inv zero t"
  unfolding queue_inv_def
  by (blast intro: inv_channels_step inv_batches_step inv_workers_step inv_loop_step inv_size_step)

lemma NewQueue_Some:
  "NewQueue c t logger sub = (Some q, err) \<Longrightarrow>
     err = None \<and> cfg q = with_defaults c \<and> heap q = [make_chan (ChannelSize (with_defaults c))]
     \<and> items_ref q = 0 \<and> sem_held q = 0 \<and> wg q = 0 \<and> \<not> started q \<and> m_errors q = 0 \<and> m_dropped q = 0"
  by (auto simp: NewQueue_def Let_def split: if_splits)

lemma with_defaults_pos:
  "0 < BatchSize (with_defaults c)" "0 < ChannelSize (with_defaults c)"
  "0 < WorkerPoolSize (with_defaults c)" "0 < BatchTimeLimitSeconds (with_defaults c)"
  by (simp_all add: with_defaults_def queue_defaults Let_def)

lemma queue_inv_boot:
  assumes "NewQueue c t logger sub = (Some q, err)"
  shows "queue_inv zero (boot q w)"
  using NewQueue_Some [OF assms] with_defaults_pos [of c]
  by (simp add: queue_inv_def inv_channels_def inv_batches_def inv_workers_def inv_loop_def
      inv_size_def boot_def make_chan_def sent_on_def got_from_def values_taken_def
      List.map_filter_def)

lemma queue_inv_reachable:
  assumes "NewQueue c t logger sub = (Some q, err)" and "reachable submit zero (boot q w) s"
  shows "queue_inv zero s"
  using assms(2)
  by (induction rule: reachable.induct) (auto intro: queue_inv_step queue_inv_boot [OF assms(1)])

text \<open>Only \<open>SetBatchSize\<close> changes the configuration of a queue.\<close>

lemma cfg_fixed:
  "reachable submit zero s t \<Longrightarrow> WorkerPoolSize (cfg t) = WorkerPoolSize (cfg s)
     \<and> ChannelSize (cfg t) = ChannelSize (cfg s) \<and> SubmitOnEmptyQueue (cfg t) = SubmitOnEmptyQueue (cfg s)"
proof (induction rule: reachable.induct)
  case (reach_step u e t)
  from reach_step.hyps(2) reach_step.IH show ?case
    by (induction rule: qstep.induct) (auto simp: chan_send_Some Close_Inr queue_ops)
qed simp

section \<open>Executing runs\<close>

text \<open>
  The same steps as a function: an event determines the step, \<open>None\<close> means that the event
  cannot happen. \<open>qstep_iff\<close> says that it is the step relation.
\<close>

fun perform :: "('a, 'w) submitter \<Rightarrow> 'a \<Rightarrow> 'a event \<Rightarrow> ('a, 'w) system \<Rightarrow> ('a, 'w) system option" where
  "perform submit zero (Add_check x) s =
     Some (if has_room s then s\<lparr>producers := producers s @ [Checked x]\<rparr> else count_drop s)"
| "perform submit zero (Add_bind j) s =
     (if j < length (producers s)
      then (case producers s ! j of
              Checked x \<Rightarrow> Some (s\<lparr>producers := (producers s)[j := SendingTo (items_ref s) x]\<rparr>)
            | SendingTo i x \<Rightarrow> None) else None)"
| "perform submit zero (Add_send j) s =
     (if j < length (producers s)
      then (case producers s ! j of
              Checked x \<Rightarrow> None
            | SendingTo i x \<Rightarrow>
                (case chan_send i x s of
                   Inl p \<Rightarrow> Some (s\<lparr>producers := remove_nth j (producers s),
                                     call_panics := call_panics s @ [p]\<rparr>)
                 | Inr r \<Rightarrow> map_option (\<lambda>s'. s'\<lparr>producers := remove_nth j (producers s),
                                     accepted := accepted s @ [(i, x)]\<rparr>) r)) else None)"
| "perform submit zero Start_call s =
     Some (if started s then s else s\<lparr>started := True, pc := Starting\<rparr>)"
| "perform submit zero Start_add s =
     (if pc s = Starting then Some (s\<lparr>wg := Suc (wg s), items := [], pc := LoopTop\<rparr>) else None)"
| "perform submit zero Select_enter s =
     (if pc s = LoopTop then Some (s\<lparr>pc := Selecting (items_ref s)\<rparr>) else None)"
| "perform submit zero Recv s =
     (case pc s of
        Selecting i \<Rightarrow>
          (if chan_ready (heap s ! i) then
             case chan_recv (heap s ! i) of (v, c) \<Rightarrow>
             Some (s\<lparr>heap := (heap s)[i := c], taken := taken s @ [(i, v)],
               items := items s @ [case v of None \<Rightarrow> zero | Some x \<Rightarrow> x],
               m_queued := length (cbuf ((heap s)[i := c] ! items_ref s)), pc := Received\<rparr>)
           else None)
      | _ \<Rightarrow> None)"
| "perform submit zero Tick s =
     (case pc s of
        Selecting i \<Rightarrow>
          Some (if items s = [] then s\<lparr>m_calls := Suc (m_calls s), pc := LoopTop\<rparr>
                else s\<lparr>pc := Submitting\<rparr>)
      | _ \<Rightarrow> None)"
| "perform submit zero Ctx_done s =
     (case pc s of
        Selecting i \<Rightarrow> (if cancelled s then Some (s\<lparr>wg := wg s - 1, pc := Stopped\<rparr>) else None)
      | _ \<Rightarrow> None)"
| "perform submit zero Process s =
     (if pc s = Received
      then Some (s\<lparr>pc := (if process_submits (items s) s then Submitting else LoopTop)\<rparr>) else None)"
| "perform submit zero Acquire s =
     (if pc s = Submitting \<and> int (sem_held s) < WorkerPoolSize (cfg s)
      then Some (s\<lparr>sem_held := Suc (sem_held s), running := running s @ [items s],
         launched := launched s @ [items s], items := [], m_calls := Suc (m_calls s), pc := LoopTop\<rparr>)
      else None)"
| "perform submit zero Acquire_fail s =
     (if pc s = Submitting \<and> cancelled s
      then Some (s\<lparr>m_calls := Suc (m_calls s), pc := LoopTop\<rparr>) else None)"
| "perform submit zero (Worker j) s =
     (if j < length (running s)
      then (case submit (running s ! j) (world s) of
              (Inr err, w') \<Rightarrow> Some (s\<lparr>world := w', m_batch := length (running s ! j),
                 m_errors := (if err = None then m_errors s else Suc (m_errors s)),
                 sem_held := sem_held s - 1, finished := finished s @ [(running s ! j, err)],
                 running := remove_nth j (running s)\<rparr>)
            | (Inl p, w') \<Rightarrow> Some (s\<lparr>world := w', m_batch := length (running s ! j),
                 crashed := Some p\<rparr>))
      else None)"
| "perform submit zero Close_call s =
     (case Close s of Inr s' \<Rightarrow> Some s' | Inl p \<Rightarrow> Some (s\<lparr>call_panics := call_panics s @ [p]\<rparr>))"
| "perform submit zero Empty_count s =
     Some (s\<lparr>emptying := emptying s @ [length (cbuf (items_chan s))]\<rparr>)"
| "perform submit zero (Empty_replace j) s =
     (if j < length (emptying s)
      then Some (Empty_swap (emptying s ! j) (s\<lparr>emptying := remove_nth j (emptying s)\<rparr>)) else None)"
| "perform submit zero Wait_return s = (if Wait_returns s then Some s else None)"
| "perform submit zero (Set_batch n) s = Some ((SetBatchSize n s)\<lparr>peak := max (peak s) n\<rparr>)"
| "perform submit zero Cancel s = Some (s\<lparr>cancelled := True\<rparr>)"

definition exec_event :: "('a, 'w) submitter \<Rightarrow> 'a \<Rightarrow> 'a event \<Rightarrow> ('a, 'w) system
    \<Rightarrow> ('a, 'w) system option" where
  "exec_event submit zero e s = (if crashed s = None then perform submit zero e s else None)"

lemma qstep_exec: "qstep submit zero s e t \<Longrightarrow> exec_event submit zero e s = Some t"
  by (induction rule: qstep.induct) (auto simp: exec_event_def)

lemma exec_qstep:
  assumes ex: "exec_event submit zero e s = Some t"
  shows "qstep submit zero s e t"
proof -
  have c: "crashed s = None" and p: "perform submit zero e s = Some t"
    using ex by (auto simp: exec_event_def split: if_splits)
  show ?thesis
  proof (cases e)
    case Recv
    obtain i v c' where i: "pc s = Selecting i" "chan_ready (heap s ! i)"
      and v: "chan_recv (heap s ! i) = (v, c')"
      using p Recv by (cases "chan_recv (heap s ! (THE i. pc s = Selecting i))")
        (auto split: loop_pc.splits if_splits prod.splits)
    from p show ?thesis unfolding Recv using recv [where submit = submit and zero = zero, OF c i v] by (simp only: perform.simps i v loop_pc.case prod.case if_True option.inject)
  next
    case (Worker j)
    obtain r w' where sub: "submit (running s ! j) (world s) = (r, w')" by fastforce
    have j: "j < length (running s)" using p Worker by (auto split: if_splits)
    show ?thesis
    proof (cases r)
      case (Inl q)
      with sub have sub': "submit (running s ! j) (world s) = (Inl q, w')" by simp
      from p show ?thesis unfolding Worker using worker_panic [where submit = submit and zero = zero, OF c j sub']
        by (simp only: perform.simps j sub' prod.case sum.case if_True option.inject)
    next
      case (Inr err)
      with sub have sub': "submit (running s ! j) (world s) = (Inr err, w')" by simp
      from p show ?thesis unfolding Worker using worker_done [where submit = submit and zero = zero, OF c j sub']
        by (simp only: perform.simps j sub' prod.case sum.case if_True option.inject)
    qed
  next
    case Ctx_done
    with p c show ?thesis
      by (simp split: loop_pc.splits if_splits) (metis One_nat_def ctx_done)
  qed (use p c in \<open>auto split: if_splits producer.splits sum.splits option.splits
        loop_pc.splits prod.splits intro: qstep.intros\<close>)
qed

lemma qstep_iff: "qstep submit zero s e t \<longleftrightarrow> exec_event submit zero e s = Some t"
  by (blast intro: qstep_exec exec_qstep)

fun run_events :: "('a, 'w) submitter \<Rightarrow> 'a \<Rightarrow> 'a event list \<Rightarrow> ('a, 'w) system
    \<Rightarrow> ('a, 'w) system option" where
  "run_events submit zero [] s = Some s"
| "run_events submit zero (e # es) s =
     (case exec_event submit zero e s of None \<Rightarrow> None | Some t \<Rightarrow> run_events submit zero es t)"

lemma reachable_trans:
  "reachable submit zero b c \<Longrightarrow> reachable submit zero a b \<Longrightarrow> reachable submit zero a c"
  by (induction rule: reachable.induct) (auto intro: reachable.intros)

lemma step_reachable: "qstep submit zero s e t \<Longrightarrow> reachable submit zero s t"
  by (blast intro: reachable.intros)

lemma run_events_append: "run_events submit zero (es @ fs) s =
    (case run_events submit zero es s of None \<Rightarrow> None | Some t \<Rightarrow> run_events submit zero fs t)"
  by (induction es arbitrary: s) (auto split: option.splits)

lemma run_events_reachable: "run_events submit zero es s = Some t \<Longrightarrow> reachable submit zero s t"
proof (induction es arbitrary: s)
  case Nil
  then show ?case by (simp add: reach_start)
next
  case (Cons e es)
  then obtain u where "exec_event submit zero e s = Some u" "run_events submit zero es u = Some t"
    by (auto split: option.splits)
  with Cons.IH show ?case by (blast intro: reachable_trans step_reachable exec_qstep)
qed

lemma reachable_run: "reachable submit zero s t \<Longrightarrow> \<exists>es. run_events submit zero es s = Some t"
proof (induction rule: reachable.induct)
  case reach_start
  have "run_events submit zero [] s = Some s" by simp
  then show ?case by blast
next
  case (reach_step u e t)
  then obtain es where "run_events submit zero es s = Some u" by blast
  then have "run_events submit zero (es @ [e]) s = run_events submit zero [e] u"
    by (simp add: run_events_append)
  with qstep_exec [OF reach_step.hyps(2)] show ?case by (metis option.simps(5) run_events.simps)
qed

section \<open>What a run can be led to\<close>

text \<open>
  \<open>leads submit zero s P\<close>: some run from \<open>s\<close> reaches a state with \<open>P\<close>, or a crash, while
  no new item is accepted, no channel is switched or closed, and context and
  configuration stay. Its rules build such runs piece by piece, as a loop that is
  scheduled would go. \<open>live\<close> is the running loop of a process that has not crashed.
\<close>

definition live :: "('a, 'w) system \<Rightarrow> bool" where
  "live s \<longleftrightarrow> crashed s = None \<and> pc s \<noteq> NotStarted \<and> pc s \<noteq> Starting \<and> pc s \<noteq> Stopped"

definition waiting :: "('a, 'w) system \<Rightarrow> 'a list" where
  "waiting s = cbuf (items_chan s)"

definition same_input :: "('a, 'w) system \<Rightarrow> ('a, 'w) system \<Rightarrow> bool" where
  "same_input s t \<longleftrightarrow> accepted t = accepted s \<and> items_ref t = items_ref s
     \<and> cclosed (items_chan t) = cclosed (items_chan s) \<and> cancelled t = cancelled s
     \<and> cfg t = cfg s \<and> set (taken s) \<subseteq> set (taken t)"

lemma same_input_refl [simp]: "same_input s s"
  by (simp add: same_input_def)

lemma same_input_trans: "same_input a b \<Longrightarrow> same_input b c \<Longrightarrow> same_input a c"
  by (auto simp: same_input_def)

definition leads :: "('a, 'w) submitter \<Rightarrow> 'a \<Rightarrow> ('a, 'w) system \<Rightarrow> (('a, 'w) system \<Rightarrow> bool) \<Rightarrow> bool" where
  "leads submit zero s P \<longleftrightarrow> (\<exists>t. reachable submit zero s t
     \<and> (crashed t \<noteq> None \<or> crashed t = None \<and> same_input s t \<and> P t))"

lemma leads_now: "P s \<Longrightarrow> leads submit zero s P"
  unfolding leads_def by (rule exI [of _ s]) (auto simp: reach_start)

lemma leads_step:
  assumes "qstep submit zero s e u" and "crashed u = None \<Longrightarrow> same_input s u"
    and "crashed u = None \<Longrightarrow> leads submit zero u P"
  shows "leads submit zero s P"
proof (cases "crashed u")
  case None
  with assms(3) obtain t where "reachable submit zero u t"
      "crashed t \<noteq> None \<or> crashed t = None \<and> same_input u t \<and> P t" by (auto simp: leads_def)
  moreover have "same_input s u" using assms(2) None by simp
  ultimately show ?thesis
    unfolding leads_def by (meson reachable_trans step_reachable [OF assms(1)] same_input_trans)
next
  case (Some p)
  with step_reachable [OF assms(1)] show ?thesis by (auto simp: leads_def)
qed

lemma reachable_inv: "reachable submit zero s t \<Longrightarrow> queue_inv zero s \<Longrightarrow> queue_inv zero t"
  by (induction rule: reachable.induct) (auto intro: queue_inv_step)

lemma leads_then:
  assumes "leads submit zero s Q" "queue_inv zero s"
    and "\<And>t. crashed t = None \<Longrightarrow> queue_inv zero t \<Longrightarrow> same_input s t \<Longrightarrow> Q t \<Longrightarrow> leads submit zero t P"
  shows "leads submit zero s P"
proof -
  from assms(1) obtain t where t: "reachable submit zero s t"
      "crashed t \<noteq> None \<or> crashed t = None \<and> same_input s t \<and> Q t" by (auto simp: leads_def)
  show ?thesis
  proof (cases "crashed t")
    case None
    with t have "same_input s t" "leads submit zero t P"
      using assms(3) reachable_inv [OF t(1) assms(2)] by auto
    then show ?thesis
      unfolding leads_def by (meson reachable_trans [OF _ t(1)] same_input_trans)
  next
    case (Some p)
    with t(1) show ?thesis by (auto simp: leads_def)
  qed
qed

lemma leads_workers:
  "crashed s = None \<Longrightarrow>
     leads submit zero s (\<lambda>t. running t = [] \<and> pc t = pc s \<and> items t = items s \<and> waiting t = waiting s)"
proof (induction "length (running s)" arbitrary: s)
  case 0
  then show ?case by (intro leads_now) simp
next
  case (Suc n)
  have len: "0 < length (running s)" by (metis Suc.hyps(2) zero_less_Suc)
  obtain r w' where sub: "submit (running s ! 0) (world s) = (r, w')" by fastforce
  show ?case
  proof (cases r)
    case (Inl p)
    with sub have "submit (running s ! 0) (world s) = (Inl p, w')" by simp
    from leads_step [OF worker_panic [where submit = submit and zero = zero, OF Suc.prems len this]] show ?thesis by simp
  next
    case (Inr err)
    let ?u = "s\<lparr>world := w', m_batch := length (running s ! 0),
       m_errors := (if err = None then m_errors s else Suc (m_errors s)),
       sem_held := sem_held s - 1, finished := finished s @ [(running s ! 0, err)],
       running := remove_nth 0 (running s)\<rparr>"
    have step: "qstep submit zero s (Worker 0) ?u"
      using worker_done [where submit = submit and zero = zero, OF Suc.prems len] sub Inr by simp
    have "n = length (running ?u)" using Suc.hyps(2) len by (simp add: length_remove_nth)
    from Suc.hyps(1) [OF this] Suc.prems show ?thesis
      by (intro leads_step [OF step]) (simp_all add: same_input_def items_chan_def waiting_def)
  qed
qed

text \<open>The state after the loop has handed over what it held.\<close>

definition handed_over :: "'a list \<Rightarrow> ('a, 'w) system \<Rightarrow> bool" where
  "handed_over xs t \<longleftrightarrow> pc t = LoopTop \<and> items t = [] \<and> waiting t = xs"

lemma leads_submit:
  fixes s :: "('a, 'w) system"
  assumes "crashed s = None" "pc s = Submitting" "queue_inv zero s"
  shows "leads submit zero s (handed_over (waiting s))"
proof (rule leads_then [OF leads_workers [OF assms(1)] assms(3)], elim conjE)
  fix t :: "('a, 'w) system"
  assume t: "crashed t = None" "queue_inv zero t" "running t = []" "pc t = pc s"
    "items t = items s" "waiting t = waiting s"
  then have pool: "int (sem_held t) < WorkerPoolSize (cfg t)"
    by (simp add: queue_inv_def inv_workers_def)
  have "pc t = Submitting" using t(4) assms(2) by simp
  from leads_step [OF acquire [OF t(1) this pool] _ leads_now] t(6)
  show "leads submit zero t (handed_over (waiting s))"
    by (simp add: same_input_def items_chan_def handed_over_def waiting_def)
qed

lemma leads_tick:
  assumes "crashed s = None" "pc s = Selecting i" "queue_inv zero s"
  shows "leads submit zero s (handed_over (waiting s))"
proof (cases "items s = []")
  case True
  from leads_step [OF tick_empty [OF assms(1,2) True] _ leads_now] True show ?thesis
    by (simp add: same_input_def items_chan_def handed_over_def waiting_def)
next
  case False
  let ?u = "s\<lparr>pc := Submitting\<rparr>"
  note step = tick_submit [where submit = submit and zero = zero, OF assms(1,2) False]
  show ?thesis
    using leads_submit [of ?u zero submit] queue_inv_step [OF step assms(3)] assms(1)
    by (intro leads_step [OF step]) (auto simp: same_input_def items_chan_def waiting_def)
qed

lemma leads_top:
  assumes "crashed s = None" "pc s = LoopTop" "queue_inv zero s"
  shows "leads submit zero s (handed_over (waiting s))"
proof -
  let ?u = "s\<lparr>pc := Selecting (items_ref s)\<rparr>"
  note step = select_enter [where submit = submit and zero = zero, OF assms(1,2)]
  show ?thesis
    using leads_tick [of ?u _ zero submit] queue_inv_step [OF step assms(3)] assms(1)
    by (intro leads_step [OF step]) (auto simp: same_input_def items_chan_def waiting_def)
qed

lemma leads_process:
  assumes "crashed s = None" "pc s = Received" "queue_inv zero s"
  shows "leads submit zero s (handed_over (waiting s))"
proof (cases "process_submits (items s) s")
  case True
  let ?u = "s\<lparr>pc := Submitting\<rparr>"
  note step = process_submit [where submit = submit and zero = zero, OF assms(1,2) True]
  show ?thesis
    using leads_submit [of ?u zero submit] queue_inv_step [OF step assms(3)] assms(1)
    by (intro leads_step [OF step]) (auto simp: same_input_def items_chan_def waiting_def)
next
  case False
  let ?u = "s\<lparr>pc := LoopTop\<rparr>"
  note step = process_wait [where submit = submit and zero = zero, OF assms(1,2) False]
  show ?thesis
    using leads_top [of ?u zero submit] queue_inv_step [OF step assms(3)] assms(1)
    by (intro leads_step [OF step]) (auto simp: same_input_def items_chan_def waiting_def)
qed

lemma leads_flush:
  assumes "live s" "queue_inv zero s"
  shows "leads submit zero s (handed_over (waiting s))"
  using assms(1) leads_top [OF _ _ assms(2)] leads_tick [OF _ _ assms(2)]
    leads_process [OF _ _ assms(2)] leads_submit [OF _ _ assms(2)]
  by (cases "pc s") (simp_all add: live_def)

text \<open>A receive that is ready, and then the loop hands over what it holds.\<close>

lemma leads_recv:
  assumes "crashed s = None" "pc s = LoopTop" "queue_inv zero s"
    and ready: "chan_ready (items_chan s)" and got: "chan_recv (items_chan s) = (v, c)"
  shows "leads submit zero s (\<lambda>t. handed_over (cbuf c) t \<and> (items_ref s, v) \<in> set (taken t))"
proof -
  let ?i = "items_ref s" and ?u = "s\<lparr>pc := Selecting (items_ref s)\<rparr>"
  have i: "?i < length (heap s)" using assms(3) by (simp add: queue_inv_def inv_channels_def)
  have same: "cclosed c = cclosed (items_chan s)"
    using got by (auto simp: chan_recv_def split: list.splits)
  note step1 = select_enter [where submit = submit and zero = zero, OF assms(1,2)]
  let ?v = "?u\<lparr>heap := (heap ?u)[?i := c], taken := taken ?u @ [(?i, v)],
         items := items ?u @ [case v of None \<Rightarrow> zero | Some x \<Rightarrow> x],
         m_queued := length (cbuf ((heap ?u)[?i := c] ! items_ref ?u)), pc := Received\<rparr>"
  have step2: "qstep submit zero ?u Recv ?v"
    by (rule recv) (use assms ready got in \<open>simp_all add: items_chan_def\<close>)
  have inv: "queue_inv zero ?v"
    using queue_inv_step [OF step2 queue_inv_step [OF step1 assms(3)]] .
  have w: "waiting ?v = cbuf c" using i by (simp add: waiting_def items_chan_def)
  have "leads submit zero ?v (\<lambda>t. handed_over (cbuf c) t \<and> (?i, v) \<in> set (taken t))"
  proof (rule leads_then [OF leads_process [OF _ _ inv] inv])
    fix t :: "('a, 'b) system"
    assume "same_input ?v t" "handed_over (waiting ?v) t"
    with w show "leads submit zero t (\<lambda>t. handed_over (cbuf c) t \<and> (?i, v) \<in> set (taken t))"
      by (intro leads_now) (auto simp: same_input_def)
  qed (use assms(1) in simp_all)
  then have "leads submit zero ?u (\<lambda>t. handed_over (cbuf c) t \<and> (?i, v) \<in> set (taken t))"
    using i same by (intro leads_step [OF step2]) (auto simp: same_input_def items_chan_def)
  then show ?thesis
    by (intro leads_step [OF step1]) (auto simp: same_input_def items_chan_def)
qed

lemma leads_take_all:
  "crashed s = None \<Longrightarrow> handed_over xs s \<Longrightarrow> queue_inv zero s \<Longrightarrow> leads submit zero s (handed_over [])"
proof (induction xs arbitrary: s)
  case Nil
  then show ?case by (intro leads_now) simp
next
  case (Cons x xs)
  have "leads submit zero s (\<lambda>t. handed_over xs t \<and> (items_ref s, Some x) \<in> set (taken t))"
    using leads_recv [OF Cons.prems(1) _ Cons.prems(3), of "Some x" "items_chan s\<lparr>cbuf := xs\<rparr>"] Cons.prems(2)
    by (simp add: handed_over_def chan_ready_def chan_recv_def waiting_def)
  from leads_then [OF this Cons.prems(3)] Cons.IH show ?case by blast
qed

lemma leads_empty: "live s \<Longrightarrow> queue_inv zero s \<Longrightarrow> leads submit zero s (handed_over [])"
  by (rule leads_then [OF leads_flush]) (auto intro: leads_take_all)

lemma leads_drained:
  fixes s :: "('a, 'w) system"
  assumes "live s" "queue_inv zero s"
  shows "leads submit zero s (\<lambda>t. items t = [] \<and> waiting t = [] \<and> running t = [])"
proof (rule leads_then [OF leads_empty [OF assms] assms(2)])
  fix u :: "('a, 'w) system"
  assume u: "crashed u = None" "queue_inv zero u" "handed_over [] u"
  show "leads submit zero u (\<lambda>t. items t = [] \<and> waiting t = [] \<and> running t = [])"
    by (rule leads_then [OF leads_workers [OF u(1)] u(2)], rule leads_now)
       (use u(3) in \<open>simp add: handed_over_def\<close>)
qed

text \<open>Every batch that finished was one the submitter returned from.\<close>

definition finished_returned :: "('a, 'w) submitter \<Rightarrow> ('a, 'w) system \<Rightarrow> bool" where
  "finished_returned submit s \<longleftrightarrow>
     (\<forall>p \<in> set (finished s). \<exists>w w'. submit (fst p) w = (Inr (snd p), w'))"

lemma finished_returned_reachable:
  "reachable submit zero s t \<Longrightarrow> finished_returned submit s \<Longrightarrow> finished_returned submit t"
proof (induction rule: reachable.induct)
  case (reach_step u e t)
  then have "finished_returned submit u" by blast
  with reach_step.hyps(2) show ?case
    by (induction rule: qstep.induct)
       (auto simp: finished_returned_def chan_send_Some Close_Inr queue_ops)
qed

lemma crashed_reachable:
  "reachable submit zero s t \<Longrightarrow> (\<forall>b w. \<exists>r w'. submit b w = (Inr r, w')) \<Longrightarrow> crashed s = None
     \<Longrightarrow> crashed t = None"
proof (induction rule: reachable.induct)
  case (reach_step u e t)
  then have "crashed u = None" "\<forall>b w. \<exists>r w'. submit b w = (Inr r, w')" by blast+
  with reach_step.hyps(2) show ?case
    by (induction rule: qstep.induct) (auto simp: chan_send_Some Close_Inr queue_ops, metis prod.inject sum.distinct(1))
qed

lemma values_taken_iff: "x \<in> set (values_taken zero s) \<longleftrightarrow>
    (\<exists>i v. (i, v) \<in> set (taken s) \<and> x = (case v of None \<Rightarrow> zero | Some y \<Rightarrow> y))"
  by (force simp: values_taken_def)

text \<open>When nothing is left over, what was received has been through a returned submission.\<close>

lemma drained_values:
  assumes "queue_inv zero t" "items t = []" "running t = []" "x \<in> set (values_taken zero t)"
  shows "\<exists>p \<in> set (finished t). x \<in> set (fst p)"
proof -
  from assms(1) have "mset (launched t) = mset (map fst (finished t))"
      "values_taken zero t = concat (launched t)"
    using assms(2,3) by (simp_all add: queue_inv_def inv_workers_def inv_batches_def)
  with assms(4) have "\<exists>b \<in> set (map fst (finished t)). x \<in> set b"
    by (metis set_concat UN_E set_mset_mset)
  then show ?thesis by auto
qed

text \<open>
  A loop whose channel is closed receives the zero value for ever; if the submitter panics on
  a batch that holds it, the process can always be led to a crash.
\<close>

lemma closed_crashes:
  fixes s :: "('a, 'w) system"
  assumes "live s" "queue_inv zero s" "finished_returned submit s" "cclosed (items_chan s)"
    and panics: "\<And>b w. zero \<in> set b \<Longrightarrow> \<exists>p w'. submit b w = (Inl p, w')"
  shows "\<exists>t. reachable submit zero s t \<and> crashed t \<noteq> None"
proof -
  let ?P = "\<lambda>t. items t = [] \<and> running t = [] \<and> (items_ref s, None) \<in> set (taken t)"
  have c: "crashed s = None" using assms(1) by (simp add: live_def)
  have "leads submit zero s ?P"
  proof (rule leads_then [OF leads_empty [OF assms(1,2)] assms(2)])
    fix a :: "('a, 'w) system"
    assume a: "crashed a = None" "queue_inv zero a" "same_input s a" "handed_over [] a"
    have "leads submit zero a (\<lambda>t. handed_over [] t \<and> (items_ref s, None) \<in> set (taken t))"
      using leads_recv [OF a(1) _ a(2), of None "items_chan a"] a(3,4) assms(4)
      by (simp add: handed_over_def chan_ready_def chan_recv_def waiting_def same_input_def)
    then show "leads submit zero a ?P"
    proof (rule leads_then [OF _ a(2)], elim conjE)
      fix b :: "('a, 'w) system"
      assume b: "crashed b = None" "queue_inv zero b" "handed_over [] b"
        "(items_ref s, None) \<in> set (taken b)"
      show "leads submit zero b ?P"
        by (rule leads_then [OF leads_workers [OF b(1)] b(2)], rule leads_now)
           (use b(3,4) in \<open>auto simp: handed_over_def same_input_def\<close>)
    qed
  qed
  then obtain t where t: "reachable submit zero s t" "crashed t \<noteq> None \<or> ?P t"
    by (auto simp: leads_def)
  show ?thesis
  proof (cases "crashed t")
    case None
    with t have P: "?P t" by simp
    then have "zero \<in> set (values_taken zero t)" by (force simp: values_taken_iff)
    from drained_values [OF reachable_inv [OF t(1) assms(2)] _ _ this] P
    obtain p where p: "p \<in> set (finished t)" "zero \<in> set (fst p)" by blast
    from finished_returned_reachable [OF t(1) assms(3)] p(1)
    obtain w w' where "submit (fst p) w = (Inr (snd p), w')" by (auto simp: finished_returned_def)
    with panics [OF p(2), of w] show ?thesis by auto
  qed (use t(1) in blast)
qed

section \<open>The contract of a submitter\<close>

text \<open>
  What the queue relies on when it calls \<open>Submit\<close>: on a well-formed world, a submission
  that returns no error leaves its batch acknowledged, and no submission undoes an
  acknowledgement or breaks the world. Then every batch the queue counts as
  submitted without an error is acknowledged for good, whatever the interleaving.
\<close>

locale submitter_contract =
  fixes submit :: "('a, 'w) submitter"
    and ok :: "'w \<Rightarrow> bool"
    and acked :: "'w \<Rightarrow> 'a list \<Rightarrow> bool"
  assumes ok_step: "ok w \<Longrightarrow> submit b w = (r, w') \<Longrightarrow> ok w'"
    and acks: "ok w \<Longrightarrow> fits b \<Longrightarrow> submit b w = (Inr None, w') \<Longrightarrow> acked w' b"
    and keeps: "ok w \<Longrightarrow> submit b w = (r, w') \<Longrightarrow> acked w c \<Longrightarrow> acked w' c"
begin

definition delivered :: "('a, 'w) system \<Rightarrow> bool" where
  "delivered s \<longleftrightarrow> ok (world s)
     \<and> (\<forall>p \<in> set (finished s). fits (fst p) \<longrightarrow> snd p = None \<longrightarrow> acked (world s) (fst p))"

lemma delivered_step: "qstep submit zero s e t \<Longrightarrow> delivered s \<Longrightarrow> delivered t"
proof (induction rule: qstep.induct)
  case (worker_done s j err w')
  then have "ok (world s)" by (simp add: delivered_def)
  with worker_done ok_step [OF this worker_done.hyps(3)] keeps [OF this worker_done.hyps(3)]
    acks [OF this, of "running s ! j" w'] show ?case
    by (auto simp: delivered_def)
next
  case (worker_panic s j p w')
  then have "ok (world s)" by (simp add: delivered_def)
  with worker_panic ok_step [OF this worker_panic.hyps(3)] keeps [OF this worker_panic.hyps(3)] show ?case
    by (auto simp: delivered_def)
qed (auto simp: delivered_def chan_send_Some Close_Inr queue_ops)

lemma delivered_reachable: "reachable submit zero s t \<Longrightarrow> delivered s \<Longrightarrow> delivered t"
  by (induction rule: reachable.induct) (auto intro: delivered_step)

theorem acknowledged_batches:
  assumes "reachable submit zero (boot q w) s" and "ok w"
    and "(b, None) \<in> set (finished s)" and "fits b"
  shows "acked (world s) b"
  using delivered_reachable [OF assms(1)] assms(2-) by (force simp: delivered_def boot_def)

end

end
