(* ===== verification/Dispatcher.thy ===== *)
theory Dispatcher
  imports Sender Queue
begin

text \<open>
  The dispatcher of a filter (\<open>filter/stream_dispatcher.go\<close>, \<open>dispatcher_factory.go\<close>,
  \<open>queue_provider.go\<close> and the streams of \<open>filter_config.go\<close>): a queue of messages whose
  batches are submitted to a list of streams in order until one takes them, and the factories
  that build it.

  The senders of a dispatcher live in the world its submissions act on, so that they can change;
  \<open>on_event i\<close> is \<open>OnEvent\<close> of the sender at index \<open>i\<close>. The counter
  \<open>DroppedMessage\<close> is the list of its increments: the url label, the reason label and the
  amount.
\<close>

section \<open>Streams\<close>

record ConfigItem =
  Key :: string
  Value :: string

record Stream =
  StreamName :: string
  ConfigItems :: "ConfigItem list"

fun config_item :: "ConfigItem list \<Rightarrow> string \<Rightarrow> string \<times> bool" where
  "config_item [] key = ('''', False)"
| "config_item (item # rest) key =
     (if Key item = key then (Value item, True) else config_item rest key)"

definition GetConfigItem :: "Stream \<Rightarrow> string \<Rightarrow> string \<times> bool" where
  "GetConfigItem s key = config_item (ConfigItems s) key"

definition GetConfigMap :: "Stream \<Rightarrow> config_map" where
  "GetConfigMap s = foldl (\<lambda>m item. m(Key item \<mapsto> Value item)) (\<lambda>_. None) (ConfigItems s)"

section \<open>The stream dispatcher\<close>

type_synonym increments = "(string \<times> string \<times> nat) list"

record StreamDispatcher =
  d_id :: string
  streams :: "Stream list"

type_synonym ('m, 'w) on_event =
  "nat \<Rightarrow> 'm list \<Rightarrow> string \<Rightarrow> 'w \<Rightarrow> (go_panic + int \<times> go_err option) \<times> 'w"

definition submitBatch :: "('m, 'w) on_event \<Rightarrow> string \<Rightarrow> nat \<Rightarrow> 'm list \<Rightarrow> increments \<times> 'w
    \<Rightarrow> (go_panic + go_err option) \<times> increments \<times> 'w" where
  "submitBatch on_event stream i msgs mw =
     (case mw of (m, w) \<Rightarrow>
      (case on_event i msgs stream w of
         (Inl p, w') \<Rightarrow> (Inl p, m, w')
       | (Inr (failedRecordCount, Some e), w') \<Rightarrow>
           (Inr (Some e), m @ [(stream, ''send_error'', 1)], w')
       | (Inr (failedRecordCount, None), w') \<Rightarrow>
           if 0 < failedRecordCount
           then (Inr (Some (GoErr ''some records failed to write to stream'')),
                 m @ [(stream, ''some_records_failed'', 1)], w')
           else (Inr None, m, w')))"

text \<open>
  The loop of \<open>Submit\<close> from index \<open>i\<close>, with the streams still to try, the name last
  tried and the error so far.
\<close>

fun submit_loop :: "('m, 'w) on_event \<Rightarrow> 'm list \<Rightarrow> string \<Rightarrow> go_err option \<Rightarrow> nat \<Rightarrow> Stream list
    \<Rightarrow> increments \<times> 'w \<Rightarrow> (go_panic + go_err option) \<times> increments \<times> 'w" where
  "submit_loop on_event msgs s err i [] (m, w) =
     (Inr err, m @ [(s, ''all_failed'', length msgs)], w)"
| "submit_loop on_event msgs s err i (st # sts) (m, w) =
     (case submitBatch on_event (StreamName st) i msgs (m, w) of
        (Inr (Some e), mw) \<Rightarrow> submit_loop on_event msgs (StreamName st) (Some e) (Suc i) sts mw
      | r \<Rightarrow> r)"

definition Submit :: "('m, 'w) on_event \<Rightarrow> StreamDispatcher \<Rightarrow> ('m, increments \<times> 'w) submitter" where
  "Submit on_event d msgs mw =
     (case mw of (m, w) \<Rightarrow>
      if streams d = []
      then (Inr (Some (GoErr ''no streams available for submission'')),
            m @ [(d_id d, ''no_streams'', length msgs)], w)
      else if msgs = [] then (Inr None, m, w)
      else (case submit_loop on_event msgs (StreamName (hd (streams d))) None 0 (streams d) (m, w) of
              (Inl p, m', w') \<Rightarrow> (Inl p, m' @ [(d_id d, ''panic'', length msgs)], w')
            | r \<Rightarrow> r))"

text \<open>
  \<open>Queue\<close> and \<open>Shutdown\<close> act on the dispatcher's queue. \<open>Shutdown\<close> is given up to
  its last statement: what it has done when it calls \<open>Wait\<close>, which returns only in a state
  with \<open>Wait_returns\<close>.
\<close>

definition dispatcher_Queue :: "'a \<Rightarrow> ('a, 'z) MyQueue_scheme \<Rightarrow> go_panic + ('a, 'z) MyQueue_scheme option" where
  "dispatcher_Queue msg q = AddItem msg q"

definition dispatcher_Shutdown :: "bool \<Rightarrow> ('a, 'z) MyQueue_scheme \<Rightarrow> go_panic + ('a, 'z) MyQueue_scheme" where
  "dispatcher_Shutdown gentle q =
     go_bind (if gentle then Inr q else go_bind (Close q) (\<lambda>q1. Inr (Empty q1))) Close"

section \<open>The factories\<close>

text \<open>
  A value of an interface or pointer type that the factories only test for \<open>nil\<close> is an
  option. The options library is a parameter as in \<open>Kinesis\<close>: applying the options may
  fail, and then the required ones are checked.
\<close>

record QueueFactory =
  qf_t :: "unit option"
  qf_logger :: logger

datatype queue_factory_option = WithQueueTelemetry "unit option" | WithQueueLogger logger

definition NewQueueFactory :: "(queue_factory_option, QueueFactory) apply_fun
    \<Rightarrow> (queue_factory_option, QueueFactory) required_fun
    \<Rightarrow> queue_factory_option list \<Rightarrow> QueueFactory option \<times> go_err option" where
  "NewQueueFactory apply_opts required opt =
     (case apply_opts opt \<lparr>qf_t = None, qf_logger = None\<rparr> of
        (_, Some e) \<Rightarrow> (None, Some e)
      | (qf, None) \<Rightarrow>
          (case required [WithQueueTelemetry None, WithQueueLogger None] qf of
             Some e \<Rightarrow> (None, Some e)
           | None \<Rightarrow> (Some qf, None)))"

definition GetQueue :: "QueueFactory \<Rightarrow> string \<Rightarrow> int \<Rightarrow> int \<Rightarrow> int \<Rightarrow> 's option
    \<Rightarrow> 'a MyQueue option \<times> go_err option" where
  "GetQueue qf name queueSize batchSize maxWorkers submitter =
     NewQueue \<lparr>q_Name = name, ChannelSize = queueSize, WorkerPoolSize = maxWorkers,
       BatchSize = batchSize, BatchTimeLimitSeconds = 0, SubmitOnEmptyQueue = False\<rparr>
       (qf_t qf) (qf_logger qf) submitter"

text \<open>
  A filter (\<open>BaseFilter\<close>), over the type of compiled regular expressions and of dispatchers;
  \<open>metadataMatchers\<close> is \<open>None\<close> for the \<open>nil\<close> slice, which \<open>Queue\<close> tells apart from
  an empty one. \<open>f_wg\<close> is the counter of its wait group.
\<close>

record ('re, 'd) BaseFilter =
  f_id :: string
  streamVersion :: string
  eventMatchers :: "'re list"
  metadataMatchers :: "'re list option"
  deliveryRetries :: int
  f_wg :: int
  f_maxWorkers :: int
  f_batchSize :: int
  f_queueSize :: int
  dispatcher :: "'d option"
  destType :: DestType

type_synonym ('s, 'h) sender_provider = "int \<Rightarrow> DestType \<Rightarrow> config_map \<Rightarrow> 'h
    \<Rightarrow> (go_panic + 's option \<times> go_err option) \<times> 'h"

record ('s, 'h) DispatcherFactory =
  senderProvider :: "('s, 'h) sender_provider option"
  queueProvider :: "QueueFactory option"
  df_retries :: int
  df_logger :: logger
  df_metrics :: "unit option"

datatype ('s, 'h) dispatcher_option =
    WithSenderProvider "('s, 'h) sender_provider option"
  | WithQueueProvider "QueueFactory option"
  | WithRetries int
  | WithDispatchLogger logger
  | WithDispatchMetrics "unit option"

text \<open>
  The option functions written in the source; \<open>lib\<close> applies the two options that are made
  by type (\<open>opts.ForType\<close>).
\<close>

fun apply_dispatcher_option ::
    "(('s, 'h) dispatcher_option \<Rightarrow> ('s, 'h) DispatcherFactory \<Rightarrow> ('s, 'h) DispatcherFactory \<times> go_err option)
     \<Rightarrow> ('s, 'h) dispatcher_option \<Rightarrow> ('s, 'h) DispatcherFactory
     \<Rightarrow> ('s, 'h) DispatcherFactory \<times> go_err option" where
  "apply_dispatcher_option lib (WithSenderProvider sp) df =
     (if sp = None then (df, Some (GoErr ''senderProvider cannot be nil''))
      else (df\<lparr>senderProvider := sp\<rparr>, None))"
| "apply_dispatcher_option lib (WithQueueProvider qp) df =
     (if qp = None then (df, Some (GoErr ''queueProvider cannot be nil''))
      else (df\<lparr>queueProvider := qp\<rparr>, None))"
| "apply_dispatcher_option lib (WithRetries retries) df =
     (if retries < 0 then (df, Some (GoErr ''retries cannot be negative''))
      else (df\<lparr>df_retries := retries\<rparr>, None))"
| "apply_dispatcher_option lib opt df = lib opt df"

definition empty_dispatcher_factory :: "('s, 'h) DispatcherFactory" where
  "empty_dispatcher_factory = \<lparr>senderProvider = None, queueProvider = None, df_retries = 0,
     df_logger = None, df_metrics = None\<rparr>"

text \<open>
  The options library, on options with functions of their own: \<open>apply_opts\<close> takes the
  function that applies one option.
\<close>

definition NewDispatcherFactory ::
    "((('s, 'h) dispatcher_option \<Rightarrow> ('s, 'h) DispatcherFactory \<Rightarrow> ('s, 'h) DispatcherFactory \<times> go_err option)
       \<Rightarrow> (('s, 'h) dispatcher_option, ('s, 'h) DispatcherFactory) apply_fun)
     \<Rightarrow> (('s, 'h) dispatcher_option \<Rightarrow> ('s, 'h) DispatcherFactory \<Rightarrow> ('s, 'h) DispatcherFactory \<times> go_err option)
     \<Rightarrow> (('s, 'h) dispatcher_option, ('s, 'h) DispatcherFactory) required_fun
     \<Rightarrow> ('s, 'h) dispatcher_option list \<Rightarrow> ('s, 'h) DispatcherFactory option \<times> go_err option" where
  "NewDispatcherFactory apply_opts lib required opt =
     (case apply_opts (apply_dispatcher_option lib) opt empty_dispatcher_factory of
        (_, Some e) \<Rightarrow> (None, Some e)
      | (df, None) \<Rightarrow>
          (case required [WithSenderProvider None, WithQueueProvider None,
              WithDispatchLogger None, WithDispatchMetrics None] df of
             Some e \<Rightarrow> (None, Some e)
           | None \<Rightarrow> (Some df, None)))"

text \<open>One sender for each stream, from its configuration; the first error ends the loop.\<close>

fun get_senders :: "('s, 'h) sender_provider option \<Rightarrow> int \<Rightarrow> DestType \<Rightarrow> Stream list \<Rightarrow> 'h
    \<Rightarrow> (go_panic + 's option list \<times> go_err option) \<times> 'h" where
  "get_senders sp retries dest [] h = (Inr ([], None), h)"
| "get_senders sp retries dest (stream # sts) h =
     (case sp of
        None \<Rightarrow> (Inl NilDeref, h)
      | Some get \<Rightarrow>
         (case get retries dest (GetConfigMap stream) h of
            (Inl p, h1) \<Rightarrow> (Inl p, h1)
          | (Inr (s, Some e), h1) \<Rightarrow>
              (Inr ([], Some (GoErrWrap (''error getting sender for dest type '' @ itoa dest @ '': '') e)), h1)
          | (Inr (s, None), h1) \<Rightarrow>
              (case get_senders sp retries dest sts h1 of
                 (Inl p, h2) \<Rightarrow> (Inl p, h2)
               | (Inr (ss, err), h2) \<Rightarrow> (Inr (s # ss, err), h2))))"

text \<open>
  A dispatcher as built: itself, the senders of its streams and its queue. On success the
  code starts the loop of the queue in a goroutine, on a context that is never cancelled: the
  system then runs from \<open>boot\<close> of the queue, without a \<open>Cancel\<close> step.
\<close>

record ('s, 'm) built_dispatcher =
  b_dispatcher :: StreamDispatcher
  b_senders :: "'s option list"
  b_queue :: "'m MyQueue"

definition GetDispatcher :: "('s, 'h) DispatcherFactory \<Rightarrow> ('re, 'd) BaseFilter \<Rightarrow> DestType
    \<Rightarrow> Stream list \<Rightarrow> 'h
    \<Rightarrow> (go_panic + ('s, 'm) built_dispatcher option \<times> go_err option) \<times> 'h" where
  "GetDispatcher df f dest sts h =
     (case get_senders (senderProvider df) (df_retries df) dest sts h of
        (Inl p, h1) \<Rightarrow> (Inl p, h1)
      | (Inr (ss, Some e), h1) \<Rightarrow> (Inr (None, Some e), h1)
      | (Inr (ss, None), h1) \<Rightarrow>
          let d = \<lparr>d_id = f_id f, streams = sts\<rparr> in
          (case queueProvider df of
             None \<Rightarrow> (Inl NilDeref, h1)
           | Some qf \<Rightarrow>
              (case GetQueue qf (f_id f) (f_queueSize f) (f_batchSize f) (f_maxWorkers f) (Some d) of
                 (_, Some e) \<Rightarrow> (Inr (None, Some e), h1)
               | (None, None) \<Rightarrow> (Inl NilDeref, h1)
               | (Some q, None) \<Rightarrow>
                  (Inr (Some \<lparr>b_dispatcher = d, b_senders = ss, b_queue = q\<rparr>, None), h1))))"

section \<open>From the sender's contract to the queue's\<close>

text \<open>
  A dispatcher on senders that keep \<open>sender_contract\<close> is a submitter that keeps
  \<open>submitter_contract\<close>: a submission without an error has one of its streams
  acknowledge the batch.
\<close>

locale dispatching = sender_contract on_event ok acked
  for on_event :: "('m, 'w) on_event" and ok :: "'w \<Rightarrow> bool"
    and acked :: "'w \<Rightarrow> string \<Rightarrow> 'm list \<Rightarrow> bool" +
  fixes d :: StreamDispatcher
begin

lemma submitBatch_contract:
  assumes "ok (snd mw)" "submitBatch on_event stream i msgs mw = (r, mw')"
  shows "ok (snd mw')" "\<And>url b. acked (snd mw) url b \<Longrightarrow> acked (snd mw') url b"
    "fits msgs \<Longrightarrow> r = Inr None \<Longrightarrow> acked (snd mw') stream msgs"
proof -
  obtain x w' where ev: "on_event i msgs stream (snd mw) = (x, w')" by fastforce
  with assms(2) have w': "snd mw' = w'" and r: "r = Inr None \<Longrightarrow> \<exists>n. x = Inr (n, None)"
    by (auto simp: submitBatch_def split: prod.splits sum.splits option.splits if_splits)
  show "ok (snd mw')" using ok_step [OF assms(1) ev] w' by simp
  show "acked (snd mw') url b" if "acked (snd mw) url b" for url b
    using keeps [OF assms(1) ev that] w' by simp
  show "acked (snd mw') stream msgs" if "fits msgs" "r = Inr None"
    using acks [OF assms(1) that(1)] ev r [OF that(2)] w' by auto
qed

lemma submit_loop_contract:
  assumes "ok (snd mw)" "submit_loop on_event msgs s err i sts mw = (r, mw')"
    and "sts = [] \<longrightarrow> err \<noteq> None"
  shows "ok (snd mw') \<and> (\<forall>url b. acked (snd mw) url b \<longrightarrow> acked (snd mw') url b)
     \<and> (fits msgs \<longrightarrow> r = Inr None \<longrightarrow> (\<exists>st \<in> set sts. acked (snd mw') (StreamName st) msgs))"
  using assms
proof (induction sts arbitrary: s err i mw)
  case Nil
  then show ?case by (cases mw) auto
next
  case (Cons st sts)
  obtain x mw1 where sub: "submitBatch on_event (StreamName st) i msgs mw = (x, mw1)"
    by (rule prod.exhaust)
  note step = submitBatch_contract [OF Cons.prems(1) sub]
  show ?case
  proof (cases "\<exists>e. x = Inr (Some e)")
    case True
    then obtain e where "submit_loop on_event msgs (StreamName st) (Some e) (Suc i) sts mw1 = (r, mw')"
      using Cons.prems(2) sub by (cases mw) auto
    from Cons.IH [OF step(1) this] step show ?thesis by auto
  next
    case False
    then have "r = x" "mw' = mw1"
      using Cons.prems(2) sub by (cases mw; auto split: sum.splits option.splits)+
    with step show ?thesis by auto
  qed
qed

lemma Submit_contract:
  assumes "ok (snd mw)" "Submit on_event d msgs mw = (r, mw')"
  shows "ok (snd mw')" "acked (snd mw) url b \<Longrightarrow> acked (snd mw') url b"
    "fits msgs \<Longrightarrow> r = Inr None \<Longrightarrow> msgs = [] \<or> (\<exists>st \<in> set (streams d). acked (snd mw') (StreamName st) msgs)"
proof -
  let ?loop = "submit_loop on_event msgs (StreamName (hd (streams d))) None 0 (streams d) mw"
  obtain x mw1 where loop: "?loop = (x, mw1)" by (rule prod.exhaust)
  have "ok (snd mw') \<and> (acked (snd mw) url b \<longrightarrow> acked (snd mw') url b)
     \<and> (fits msgs \<longrightarrow> r = Inr None \<longrightarrow> msgs = [] \<or> (\<exists>st \<in> set (streams d). acked (snd mw') (StreamName st) msgs))"
  proof (cases "streams d = [] \<or> msgs = []")
    case True
    with assms show ?thesis by (cases mw) (auto simp: Submit_def split: if_splits)
  next
    case False
    then have eq: "snd mw' = snd mw1" "r = x"
      using assms(2) loop by (cases mw; cases mw1; auto simp: Submit_def split: sum.splits)+
    from submit_loop_contract [OF assms(1) loop] False eq show ?thesis by auto
  qed
  then show "ok (snd mw')" "acked (snd mw) url b \<Longrightarrow> acked (snd mw') url b"
    "fits msgs \<Longrightarrow> r = Inr None \<Longrightarrow> msgs = [] \<or> (\<exists>st \<in> set (streams d). acked (snd mw') (StreamName st) msgs)"
    by auto
qed

end

sublocale dispatching \<subseteq> submits: submitter_contract "Submit on_event d" "\<lambda>mw. ok (snd mw)"
    "\<lambda>mw b. b = [] \<or> (\<exists>st \<in> set (streams d). acked (snd mw) (StreamName st) b)"
proof (unfold_locales, goal_cases)
  case (1 w b r w')
  then show ?case by (rule Submit_contract(1))
next
  case (2 w b w')
  from Submit_contract(3) [OF 2(1,3,2)] show ?case by simp
next
  case (3 w b r w' c)
  then show ?case using Submit_contract(2) [OF 3(1,2)] by auto
qed

interpretation kinesis_dispatch: dispatching sender_OnEvent world_ok world_acked d for d
  by unfold_locales

section \<open>The contract of a dispatcher\<close>

text \<open>
  What a filter relies on when it queues a message at a dispatcher: a call on an open
  channel returns, has put the message at the end of the channel if there was room and counted
  one drop otherwise, and leaves the open channels open; other dispatchers are untouched; a
  panic changes nothing.
\<close>

locale dispatcher_ops =
  fixes enqueue :: "'d \<Rightarrow> 'm \<Rightarrow> 'w \<Rightarrow> (go_panic + unit) \<times> 'w"
    and backlog :: "'w \<Rightarrow> 'd \<Rightarrow> 'm list"
    and dropped :: "'w \<Rightarrow> 'd \<Rightarrow> nat"
    and ready :: "'w \<Rightarrow> 'd \<Rightarrow> bool"
    and room :: "'w \<Rightarrow> 'd \<Rightarrow> bool"
  assumes enqueue_own: "ready w d \<Longrightarrow> enqueue d m w = (Inr (), w') \<Longrightarrow>
        backlog w' d = (if room w d then backlog w d @ [m] else backlog w d)
        \<and> dropped w' d = (if room w d then dropped w d else Suc (dropped w d))"
    and enqueue_other: "enqueue d m w = (r, w') \<Longrightarrow> d' \<noteq> d \<Longrightarrow>
        backlog w' d' = backlog w d' \<and> dropped w' d' = dropped w d' \<and> room w' d' = room w d'"
    and enqueue_panic: "enqueue d m w = (Inl p, w') \<Longrightarrow> w' = w"
    and enqueue_ready: "ready w d \<Longrightarrow> fst (enqueue d m w) = Inr ()"
    and ready_stays: "ready w d' \<Longrightarrow> enqueue d m w = (r, w') \<Longrightarrow> ready w' d'"

text \<open>
  The dispatchers of the program, by their index in a list of queues, each used between the
  steps of its loop and workers. (\<open>AddItem\<close> alone never blocks, so the last case
  of \<open>Inr\<close> does not occur.)
\<close>

definition enqueue_at :: "nat \<Rightarrow> 'm \<Rightarrow> 'm MyQueue list \<Rightarrow> (go_panic + unit) \<times> 'm MyQueue list" where
  "enqueue_at i m qs =
     (if i < length qs
      then (case dispatcher_Queue m (qs ! i) of
              Inl p \<Rightarrow> (Inl p, qs)
            | Inr (Some q) \<Rightarrow> (Inr (), qs[i := q])
            | Inr None \<Rightarrow> (Inr (), qs))
      else (Inl NilDeref, qs))"

definition backlog_at :: "'m MyQueue list \<Rightarrow> nat \<Rightarrow> 'm list" where
  "backlog_at qs i = (if i < length qs then cbuf (items_chan (qs ! i)) else [])"

definition dropped_at :: "'m MyQueue list \<Rightarrow> nat \<Rightarrow> nat" where
  "dropped_at qs i = (if i < length qs then m_dropped (qs ! i) else 0)"

definition open_at :: "'m MyQueue list \<Rightarrow> nat \<Rightarrow> bool" where
  "open_at qs i \<longleftrightarrow> i < length qs \<and> items_ref (qs ! i) < length (heap (qs ! i))
     \<and> \<not> cclosed (items_chan (qs ! i))"

definition room_at :: "'m MyQueue list \<Rightarrow> nat \<Rightarrow> bool" where
  "room_at qs i \<longleftrightarrow> i < length qs \<and> has_room (qs ! i)"

lemma AddItem_outcome:
  "AddItem x q = Inr (Some q') \<Longrightarrow>
     (if has_room q then \<not> cclosed (items_chan q)
        \<and> q' = q\<lparr>heap := (heap q)[items_ref q := (items_chan q)\<lparr>cbuf := cbuf (items_chan q) @ [x]\<rparr>]\<rparr>
      else q' = count_drop q)"
  "AddItem x q \<noteq> Inr None"
  "\<not> cclosed (items_chan q) \<Longrightarrow> \<exists>q'. AddItem x q = Inr (Some q')"
  by (auto simp: AddItem_def chan_send_def has_room_def items_chan_def Let_def split: if_splits)

lemma enqueue_at_cases:
  assumes "enqueue_at i m qs = (r, qs')"
  shows "(r = Inr () \<and> i < length qs \<and> (\<exists>q. AddItem m (qs ! i) = Inr (Some q) \<and> qs' = qs[i := q]))
     \<or> (\<exists>p. r = Inl p \<and> qs' = qs \<and> (i < length qs \<longrightarrow> AddItem m (qs ! i) = Inl p))"
  using assms
  by (auto simp: AddItem_outcome(2) enqueue_at_def dispatcher_Queue_def split: if_splits sum.splits option.splits)

interpretation dispatchers: dispatcher_ops enqueue_at backlog_at dropped_at open_at room_at
proof (unfold_locales, goal_cases)
  case (1 w d m w')
  then show ?case
    using enqueue_at_cases [OF 1(2)] AddItem_outcome(1) [of m "w ! d"]
    by (auto simp: open_at_def backlog_at_def dropped_at_def room_at_def items_chan_def count_drop_def
        split: if_splits)
next
  case (2 d m w r w' d')
  then show ?case
    using enqueue_at_cases [OF 2(1)] by (auto simp: backlog_at_def dropped_at_def room_at_def)
next
  case (3 d m w p w')
  then show ?case using enqueue_at_cases [OF 3] by auto
next
  case (4 w d m)
  then show ?case
    using AddItem_outcome(3) [of "w ! d" m]
    by (auto simp: enqueue_at_def dispatcher_Queue_def open_at_def)
next
  case (5 w d' d m r w')
  then show ?case
    using enqueue_at_cases [OF 5(2)] AddItem_outcome(1) [of m "w ! d"]
    by (auto simp: open_at_def items_chan_def count_drop_def nth_list_update split: if_splits)
qed

end
