(* ===== verification/Filters.thy ===== *)
theory Filters
  imports Dispatcher
begin

text \<open>
  A filter and its factory (\<open>filter/filter.go\<close>, \<open>filter_factory.go\<close>, and the rest of
  \<open>filter_config.go\<close>): a message whose destination and device match the filter's regular
  expressions is queued at its dispatcher.

  Regular expressions are a parameter: \<open>compile\<close> turns a pattern into an expression or an
  error and \<open>matches\<close> is \<open>MatchString\<close>. The dispatcher of a filter is a value of type
  \<open>'d\<close>; its operation \<open>Queue\<close> is a parameter too, \<open>enqueue\<close>, acting on a world. (\<open>Shutdown\<close> of a
  filter is in \<open>Shutdown_Manager\<close>.)
\<close>

section \<open>Configuration\<close>

record Metadata =
  DeviceIds :: "string list"

record FilterConfig =
  Stream_c :: Stream
  AltStreams :: "Stream list"
  Events :: "string list"
  Metadata_c :: Metadata
  DestType_c :: string
  QueueSize :: int
  BatchSize_c :: int
  MaxWorkers :: int
  StreamVersion :: string

section \<open>Filtering\<close>

text \<open>\<open>overlaps\<close> has no caller in the program.\<close>

fun overlaps :: "string list \<Rightarrow> string list \<Rightarrow> bool" where
  "overlaps [] sl2 = False"
| "overlaps (s1 # sl1) sl2 = (if list_ex ((=) s1) sl2 then True else overlaps sl1 sl2)"

definition event_prefix :: string where
  "event_prefix = ''event:''"

fun match_event :: "('re \<Rightarrow> string \<Rightarrow> bool) \<Rightarrow> 're list \<Rightarrow> wrp_message \<Rightarrow> bool" where
  "match_event matches [] m = False"
| "match_event matches (re # res) m =
     (if matches re (TrimPrefix (Destination m) event_prefix) then True else match_event matches res m)"

fun match_device :: "('re \<Rightarrow> string \<Rightarrow> bool) \<Rightarrow> 're list \<Rightarrow> wrp_message \<Rightarrow> bool" where
  "match_device matches [] m = False"
| "match_device matches (re # res) m =
     (if matches re (Source m) \<or> matches re (TrimPrefix (Destination m) event_prefix) then True
      else match_device matches res m)"

type_synonym ('d, 'w) enqueue = "'d \<Rightarrow> msg \<Rightarrow> 'w \<Rightarrow> (go_panic + unit) \<times> 'w"

text \<open>
  A \<open>nil\<close> message panics at the first use of a field, which every path has.
\<close>

definition BaseFilter_Queue :: "('re \<Rightarrow> string \<Rightarrow> bool) \<Rightarrow> ('d, 'w) enqueue
    \<Rightarrow> ('re, 'd) BaseFilter \<Rightarrow> msg \<Rightarrow> 'w \<Rightarrow> (go_panic + unit) \<times> 'w" where
  "BaseFilter_Queue matches enqueue f msg w =
     (case msg of
        None \<Rightarrow> (Inl NilDeref, w)
      | Some m \<Rightarrow>
          if \<not> match_event matches (eventMatchers f) m then (Inr (), w)
          else if (case metadataMatchers f of
                     None \<Rightarrow> False
                   | Some meta \<Rightarrow> \<not> match_device matches meta m) then (Inr (), w)
          else (case dispatcher f of
                  None \<Rightarrow> (Inl NilDeref, w)
                | Some d \<Rightarrow> enqueue d msg w))"

section \<open>The factory\<close>

type_synonym ('re, 'd, 'h) dispatcher_provider = "('re, 'd) BaseFilter \<Rightarrow> DestType \<Rightarrow> Stream list \<Rightarrow> 'h
    \<Rightarrow> (go_panic + 'd option \<times> go_err option) \<times> 'h"

record ('re, 'd, 'h) BaseFilterFactory =
  defaultQueueSize :: int
  defaultMaxWorkers :: int
  defaultBatchSize :: int
  DeliveryRetries :: int
  Metrics :: "unit option"
  Logger :: logger
  DispatcherProvider :: "('re, 'd, 'h) dispatcher_provider option"

definition configureQueue :: "('re, 'd, 'h) BaseFilterFactory \<Rightarrow> ('re, 'd) BaseFilter \<Rightarrow> FilterConfig
    \<Rightarrow> ('re, 'd) BaseFilter" where
  "configureQueue ff f c = f\<lparr>
     f_batchSize := (if BatchSize_c c \<le> 0 then defaultBatchSize ff else BatchSize_c c),
     f_queueSize := (if QueueSize c \<le> 0 then defaultQueueSize ff else QueueSize c),
     f_maxWorkers := (if MaxWorkers c \<le> 0 then defaultMaxWorkers ff else MaxWorkers c)\<rparr>"

text \<open>
  The result of a configuration step: a panic, or the filter and an error. \<open>lower\<close> is the
  lower-case table outside ASCII.
\<close>

definition configureDispatcher :: "(nat \<Rightarrow> nat) \<Rightarrow> ('re, 'd, 'h) BaseFilterFactory
    \<Rightarrow> ('re, 'd) BaseFilter \<Rightarrow> FilterConfig \<Rightarrow> 'h
    \<Rightarrow> (go_panic + ('re, 'd) BaseFilter \<times> go_err option) \<times> 'h" where
  "configureDispatcher lower ff f c h =
     (case ParseDestType lower (DestType_c c) of
        (_, Some e) \<Rightarrow> (Inr (f, Some (GoErr (''error parsing destination type '' @ DestType_c c))), h)
      | (destEnum, None) \<Rightarrow>
          (case DispatcherProvider ff of
             None \<Rightarrow> (Inl NilDeref, h)
           | Some get \<Rightarrow>
               (case get f destEnum (Stream_c c # AltStreams c) h of
                  (Inl p, h') \<Rightarrow> (Inl p, h')
                | (Inr (d, err), h') \<Rightarrow> (Inr (f\<lparr>dispatcher := d\<rparr>, err), h'))))"

definition quoted :: "string \<Rightarrow> string" where
  "quoted s = [CHR 0x27] @ s @ [CHR 0x27]"

fun compile_events :: "(string \<Rightarrow> 're option) \<Rightarrow> string list \<Rightarrow> go_err + 're list" where
  "compile_events compile [] = Inr []"
| "compile_events compile (event # events) =
     (case compile event of
        None \<Rightarrow> Inl (GoErr (''invalid event matcher item: '' @ quoted event))
      | Some re \<Rightarrow>
          (case compile_events compile events of Inl e \<Rightarrow> Inl e | Inr res \<Rightarrow> Inr (re # res)))"

definition match_all :: string where
  "match_all = ''.*''"

text \<open>The pattern \<open>match_all\<close> throws away what was compiled and ends the loop.\<close>

fun compile_meta :: "(string \<Rightarrow> 're option) \<Rightarrow> 're list \<Rightarrow> string list \<Rightarrow> go_err + 're list" where
  "compile_meta compile acc [] = Inr acc"
| "compile_meta compile acc (item # rest) =
     (if item = match_all then Inr []
      else (case compile item of
              None \<Rightarrow> Inl (GoErr (''invalid matcher item: '' @ quoted item))
            | Some re \<Rightarrow> compile_meta compile (acc @ [re]) rest))"

definition configureMatchers :: "(string \<Rightarrow> 're option) \<Rightarrow> ('re, 'd) BaseFilter \<Rightarrow> FilterConfig
    \<Rightarrow> ('re, 'd) BaseFilter \<times> go_err option" where
  "configureMatchers compile f c =
     (case compile_events compile (Events c) of
        Inl e \<Rightarrow> (f, Some e)
      | Inr eventMs \<Rightarrow>
          if length eventMs < 1 then (f, Some (GoErr ''event matchers must not be empty''))
          else let f = f\<lparr>eventMatchers := eventMs\<rparr> in
            (case compile_meta compile [] (DeviceIds (Metadata_c c)) of
               Inl e \<Rightarrow> (f, Some e)
             | Inr metaMs \<Rightarrow>
                 (f\<lparr>metadataMatchers := (if metaMs = [] then None else Some metaMs)\<rparr>, None)))"

text \<open>The filter as \<open>New\<close> first makes it, before it is configured.\<close>

definition initial_filter :: "('re, 'd, 'h) BaseFilterFactory \<Rightarrow> FilterConfig \<Rightarrow> ('re, 'd) BaseFilter" where
  "initial_filter ff c =
     \<lparr>f_id = ToValidUTF8 (StreamName (Stream_c c)), streamVersion = StreamVersion c,
      eventMatchers = [], metadataMatchers = None, deliveryRetries = DeliveryRetries ff,
      f_wg = 0, f_maxWorkers = MaxWorkers c, f_batchSize = BatchSize_c c,
      f_queueSize = QueueSize c, dispatcher = None, destType = 0\<rparr>"

definition New_filter :: "(nat \<Rightarrow> nat) \<Rightarrow> (string \<Rightarrow> 're option) \<Rightarrow> ('re, 'd, 'h) BaseFilterFactory
    \<Rightarrow> FilterConfig \<Rightarrow> 'h
    \<Rightarrow> (go_panic + ('re, 'd) BaseFilter option \<times> go_err option) \<times> 'h" where
  "New_filter lower compile ff c h =
     (if Logger ff = None then (Inl NilDeref, h)
      else
      let f1 = configureQueue ff (initial_filter ff c) c
      in case configureDispatcher lower ff f1 c h of
           (Inl p, h') \<Rightarrow> (Inl p, h')
         | (Inr (f2, Some e), h') \<Rightarrow> (Inr (None, Some (GoErrWrap
               (''error configuring dispatcher for filter '' @ f_id f1 @ '': '') e)), h')
         | (Inr (f2, None), h') \<Rightarrow>
             (case configureMatchers compile f2 c of
                (f3, Some e) \<Rightarrow> (Inr (None, Some (GoErrWrap
                   (''error configuring matchers for filter '' @ f_id f1 @ '': '') e)), h')
              | (f3, None) \<Rightarrow> (Inr (Some (f3\<lparr>f_wg := f_wg f3 + 1\<rparr>), None), h')))"

end
