(* ===== verification/Queue_Properties.thy ===== *)
theory Queue_Properties
  imports Queue
begin

text \<open>
  What the queue promises: the theorems about \<open>internal/queue\<close>, from the operations in
  isolation (\<open>AddItem\<close>, \<open>NewQueue\<close>) to every interleaving of producers, loop, workers
  and calls of \<open>Close\<close> and \<open>Empty\<close>. All of them start from a queue that
  \<open>NewQueue\<close> has made.
\<close>

definition sample_cfg :: QueueConfig where
  "sample_cfg = \<lparr>q_Name = ''q'', ChannelSize = 1, WorkerPoolSize = 1, BatchSize = 2,
     BatchTimeLimitSeconds = 1, SubmitOnEmptyQueue = False\<rparr>"

definition sample_queue :: "nat MyQueue" where
  "sample_queue = \<lparr>heap = [make_chan 1], items_ref = 0, sem_held = 0, wg = 0, cfg = sample_cfg,
     started = False, m_queued = 0, m_dropped = 0, m_batch = 0, m_errors = 0, m_calls = 0\<rparr>"

lemma sample_new: "NewQueue sample_cfg (Some ()) (Some ()) (Some ()) = (Some sample_queue, None)"
  by (simp add: NewQueue_def sample_cfg_def sample_queue_def with_defaults_def)

text \<open>A submitter that counts the items it gets and never fails.\<close>

definition counting :: "(nat, nat) submitter" where
  "counting b w = (Inr None, w + length b)"

definition sample_run :: "nat event list" where
  "sample_run = [Start_call, Start_add, Add_check 7, Add_bind 0, Add_send 0, Select_enter, Recv,
     Process, Select_enter, Tick, Acquire]"

text \<open>One item on its way: accepted, received, and in a batch of its own with a worker.\<close>

definition sample_state :: "(nat, nat) system" where
  "sample_state = (case run_events counting 0 sample_run (boot sample_queue 0) of Some s \<Rightarrow> s)"

lemmas run_defs = exec_event_def has_room_def items_chan_def chan_send_def chan_ready_def
  chan_recv_def process_submits_def submitIfQueueIsEmpty_def remove_nth_def count_drop_def
  boot_def make_chan_def Close_def

lemma sample_run_ok: "run_events counting 0 sample_run (boot sample_queue 0) = Some sample_state"
  and sample_state_values: "accepted sample_state = [(0, 7)]" "launched sample_state = [[7]]"
    "items sample_state = []" "running sample_state = [[7]]" "pc sample_state = LoopTop"
    "crashed sample_state = None" "cancelled sample_state = False" "heap sample_state = [make_chan 1]"
    "items_ref sample_state = 0" "cfg sample_state = sample_cfg" "finished sample_state = []"
    "world sample_state = 0" "producers sample_state = []" "wg sample_state = 1"
  by (simp_all add: sample_state_def sample_run_def run_defs sample_queue_def sample_cfg_def)

lemma sample_reachable: "reachable counting 0 (boot sample_queue 0) sample_state"
  by (rule run_events_reachable [OF sample_run_ok])

section \<open>Nothing is lost, duplicated or reordered\<close>

lemma open_fifo:
  assumes "queue_inv zero s" "length (heap s) = 1" "\<not> cclosed (heap s ! 0)"
  shows "map snd (accepted s) = concat (launched s) @ items s @ cbuf (heap s ! 0)"
proof -
  from assms(1) have inv: "inv_channels s" "inv_batches zero s" by (simp_all add: queue_inv_def)
  from inv(1) assms(2,3) have zero: "\<forall>p \<in> set (accepted s). fst p = 0"
      "\<forall>p \<in> set (taken s). fst p = 0 \<and> snd p \<noteq> None"
    and sent: "sent_on 0 s = got_from 0 s @ cbuf (heap s ! 0)"
    by (auto simp: inv_channels_def)
  have "filter (\<lambda>p. fst p = 0) (accepted s) = accepted s" using zero(1) by (simp add: filter_id_conv)
  moreover have "got_from 0 s = values_taken zero s"
    using zero(2) unfolding got_from_def values_taken_def
    by (induction "taken s" arbitrary: s) (auto simp: List.map_filter_def)
  ultimately show ?thesis
    using sent inv(2) by (simp add: sent_on_def inv_batches_def)
qed

text \<open>
  C10. A queue that was never closed or emptied is a FIFO, whatever the interleaving: the
  items it accepted are, in order, the batches handed to workers, then the items the loop
  holds, then the items in the channel; and no batch is empty.
\<close>

theorem queue_fifo:
  assumes "NewQueue c t logger sub = (Some q, err)" and "reachable submit zero (boot q w) s"
    and "length (heap s) = 1" and "\<not> cclosed (heap s ! 0)"
  shows "map snd (accepted s) = concat (launched s) @ items s @ cbuf (heap s ! 0)
     \<and> [] \<notin> set (launched s)"
  using queue_inv_reachable [OF assms(1,2)] open_fifo [OF _ assms(3,4)]
  by (auto simp: queue_inv_def inv_batches_def)

theorem queue_fifo_witness:
  "map snd (accepted sample_state) = concat (launched sample_state) @ items sample_state
      @ cbuf (heap sample_state ! 0) \<and> [] \<notin> set (launched sample_state)"
  by (rule queue_fifo [OF sample_new sample_reachable])
     (simp_all add: sample_state_values make_chan_def)

text \<open>
  C21. In general, with \<open>Close\<close> and \<open>Empty\<close> in play: the items a channel accepted are those
  received from it followed by those that wait in it; the values received (a zero value only
  from a closed channel) are, in order, the batches handed to workers and the items the
  loop holds; and every batch handed over is in flight or finished, exactly once.
\<close>

theorem queue_accounting:
  assumes "NewQueue c t logger sub = (Some q, err)" and "reachable submit zero (boot q w) s"
    and "i < length (heap s)"
  shows "sent_on i s = got_from i s @ cbuf (heap s ! i)
     \<and> values_taken zero s = concat (launched s) @ items s
     \<and> mset (launched s) = mset (running s) + mset (map fst (finished s))
     \<and> (\<forall>p. p \<in> set (taken s) \<and> snd p = None \<longrightarrow> cclosed (heap s ! fst p))
     \<and> m_errors s = length (filter (\<lambda>p. snd p \<noteq> None) (finished s))"
  using queue_inv_reachable [OF assms(1,2)] assms(3)
  unfolding queue_inv_def inv_channels_def inv_batches_def inv_workers_def by blast

theorem queue_accounting_witness:
  "sent_on 0 sample_state = got_from 0 sample_state @ cbuf (heap sample_state ! 0)"
  using queue_accounting [OF sample_new sample_reachable, of 0] by (simp add: sample_state_values)

section \<open>Bounds\<close>

text \<open>
  C22. The pool and the channel are bounded by the configuration, defaults filled in: never
  more workers in flight than \<open>WorkerPoolSize\<close>, as many as the semaphore holds, and
  never more items waiting in a channel than \<open>ChannelSize\<close>.
\<close>

theorem queue_bounds:
  assumes "NewQueue c t logger sub = (Some q, err)" and "reachable submit zero (boot q w) s"
  shows "int (length (running s)) \<le> WorkerPoolSize (with_defaults c)
     \<and> sem_held s = length (running s)
     \<and> (\<forall>ch \<in> set (heap s). int (length (cbuf ch)) \<le> ChannelSize (with_defaults c))"
proof -
  from cfg_fixed [OF assms(2)] NewQueue_Some [OF assms(1)]
  have "WorkerPoolSize (cfg s) = WorkerPoolSize (with_defaults c)"
      "ChannelSize (cfg s) = ChannelSize (with_defaults c)" by (simp_all add: boot_def)
  moreover from queue_inv_reachable [OF assms] have inv: "inv_channels s" "inv_workers s"
    by (simp_all add: queue_inv_def)
  moreover have "length (cbuf ch) \<le> nat (ChannelSize (cfg s))" if "ch \<in> set (heap s)" for ch
    using that inv(1) unfolding inv_channels_def in_set_conv_nth by metis
  ultimately show ?thesis
    using with_defaults_pos(2) [of c] by (simp add: inv_workers_def) force
qed

theorem queue_bounds_witness: "int (length (running sample_state)) \<le> 1"
  using queue_bounds [OF sample_new sample_reachable]
  by (simp add: sample_cfg_def with_defaults_def)

text \<open>
  While the context of \<open>Start\<close> is not done, no batch is longer than the largest batch
  size ever configured (the configured size, when \<open>SetBatchSize\<close> is not called).
\<close>

theorem batch_size_bound:
  assumes "NewQueue c t logger sub = (Some q, err)" and "reachable submit zero (boot q w) s"
    and "\<not> cancelled s" and "b \<in> set (launched s)"
  shows "1 \<le> length b \<and> int (length b) \<le> peak s"
  using queue_inv_reachable [OF assms(1,2)] assms(3,4)
  by (cases b) (auto simp: queue_inv_def inv_size_def inv_batches_def)

theorem batch_size_bound_witness: "1 \<le> length [7 :: nat] \<and> int (length [7 :: nat]) \<le> peak sample_state"
  by (rule batch_size_bound [OF sample_new sample_reachable]) (simp_all add: sample_state_values)

section \<open>Liveness and waiting\<close>

text \<open>When nothing is left over, exactly what was received has been submitted.\<close>

lemma drained_exactly:
  assumes "queue_inv zero t" "items t = []" "running t = []"
  shows "mset (concat (map fst (finished t))) = mset (values_taken zero t)"
proof -
  from assms have "mset (launched t) = mset (map fst (finished t))" "values_taken zero t = concat (launched t)"
    by (simp_all add: queue_inv_def inv_workers_def inv_batches_def)
  then show ?thesis by (metis mset_concat mset_map sum_mset_sum_list)
qed

lemma got_from_taken: "mset (got_from i t) \<subseteq># mset (values_taken zero t)"
proof -
  have "mset (List.map_filter (\<lambda>p. if fst p = i then snd p else None) xs)
      \<subseteq># mset (map (\<lambda>p. case snd p of None \<Rightarrow> zero | Some x \<Rightarrow> x) xs)" for xs :: "(nat \<times> 'a option) list"
  proof (induction xs)
    case (Cons p xs)
    then have "mset (List.map_filter (\<lambda>p. if fst p = i then snd p else None) xs)
        \<subseteq># add_mset y (mset (map (\<lambda>p. case snd p of None \<Rightarrow> zero | Some x \<Rightarrow> x) xs))" for y
      by (meson multi_psub_of_add_self subset_mset.less_imp_le subset_mset.order_trans)
    with Cons show ?case by (auto simp: List.map_filter_simps split: option.splits)
  qed (simp add: List.map_filter_simps)
  then show ?thesis by (simp add: got_from_def values_taken_def)
qed

lemma taken_grows: "reachable submit zero s t \<Longrightarrow> \<exists>l. taken t = taken s @ l"
proof (induction rule: reachable.induct)
  case (reach_step u e t)
  from reach_step.hyps(2) have "\<exists>l. taken t = taken u @ l"
    by (induction rule: qstep.induct) (auto simp: chan_send_Some Close_Inr queue_ops)
  with reach_step.IH show ?case by auto
qed simp

lemma got_from_grows: "reachable submit zero s t \<Longrightarrow> mset (got_from i s) \<subseteq># mset (got_from i t)"
  using taken_grows by (fastforce simp: got_from_def List.map_filter_def)

lemma one_channel_sent:
  assumes "queue_inv zero s" "length (heap s) = 1"
  shows "sent_on (items_ref s) s = map snd (accepted s)"
proof -
  from assms have "items_ref s = 0" "\<forall>p \<in> set (accepted s). fst p = 0"
    by (auto simp: queue_inv_def inv_channels_def)
  then show ?thesis by (simp add: sent_on_def filter_id_conv)
qed

text \<open>
  C12. Nothing gets stuck: with a submitter that always returns, every reachable state of
  a running queue has a run, accepting nothing more, to a state where the loop holds no
  item, the current channel is empty and no worker is in flight. By then exactly what the
  loop has received has been through submissions that returned, each item once. That is
  everything it had received before, from any channel, and everything that the current channel had
  accepted; if \<open>Empty\<close> never put a new channel in place, every item ever accepted. (What
  waited in a channel that \<open>Empty\<close> replaced is what it drops.)
\<close>

theorem queue_drains:
  assumes "NewQueue c t logger sub = (Some q, err)" and "reachable submit zero (boot q w) s"
    and "live s" and "\<forall>b w. \<exists>r w'. submit b w = (Inr r, w')"
  shows "\<exists>u. reachable submit zero s u \<and> accepted u = accepted s \<and> crashed u = None
     \<and> items u = [] \<and> cbuf (items_chan u) = [] \<and> running u = []
     \<and> mset (concat (map fst (finished u))) = mset (values_taken zero u)
     \<and> mset (sent_on (items_ref s) s) \<subseteq># mset (concat (map fst (finished u)))
     \<and> (\<forall>i. mset (got_from i s) \<subseteq># mset (concat (map fst (finished u))))
     \<and> (length (heap s) = 1 \<longrightarrow> mset (map snd (accepted s)) \<subseteq># mset (concat (map fst (finished u))))"
proof -
  note inv = queue_inv_reachable [OF assms(1,2)]
  have c: "crashed s = None" using assms(3) by (simp add: live_def)
  from leads_drained [OF assms(3) inv, of submit] obtain u where u: "reachable submit zero s u"
      and ends: "crashed u \<noteq> None \<or> same_input s u \<and> items u = [] \<and> waiting u = [] \<and> running u = []"
    by (auto simp: leads_def)
  have cu: "crashed u = None" by (rule crashed_reachable [OF u assms(4) c])
  note inv_u = reachable_inv [OF u inv]
  let ?done = "mset (concat (map fst (finished u)))"
  have all: "?done = mset (values_taken zero u)" using drained_exactly [OF inv_u] ends cu by simp
  have "sent_on (items_ref u) u = got_from (items_ref u) u @ waiting u"
    using inv_u by (simp add: queue_inv_def inv_channels_def waiting_def items_chan_def)
  then have "sent_on (items_ref s) s = got_from (items_ref s) u"
    using ends cu by (simp add: same_input_def sent_on_def)
  then have cur: "mset (sent_on (items_ref s) s) \<subseteq># ?done" using got_from_taken [of "items_ref s" u zero] all by simp
  have "mset (got_from i s) \<subseteq># ?done" for i
    using got_from_grows [OF u, of i] got_from_taken [of i u zero] all
    by (auto intro: subset_mset.order_trans)
  moreover have "length (heap s) = 1 \<longrightarrow> mset (map snd (accepted s)) \<subseteq># ?done"
    using one_channel_sent [OF inv] cur by (metis One_nat_def)
  ultimately show ?thesis
    using u ends cu all cur by (intro exI [of _ u]) (simp add: same_input_def waiting_def)
qed

theorem queue_drains_witness:
  "\<exists>u. reachable counting 0 sample_state u \<and> accepted u = accepted sample_state
     \<and> crashed u = None \<and> items u = [] \<and> cbuf (items_chan u) = [] \<and> running u = []
     \<and> mset (concat (map fst (finished u))) = mset (values_taken 0 u)
     \<and> {#7#} \<subseteq># mset (concat (map fst (finished u)))"
proof -
  have "live sample_state" "length (heap sample_state) = 1" "mset (map snd (accepted sample_state)) = {#7#}"
    by (simp_all add: live_def sample_state_values)
  with queue_drains [OF sample_new sample_reachable] show ?thesis by (auto simp: counting_def)
qed

text \<open>
  As long as its context is not done, the loop never ends, so once it runs
  \<open>Wait\<close> does not return: the counter of the wait group is 0 only before the loop has
  registered itself.
\<close>

theorem Wait_needs_cancel:
  assumes "NewQueue c t logger sub = (Some q, err)" and "reachable submit zero (boot q w) s"
    and "\<not> cancelled s"
  shows "Wait_returns s \<longleftrightarrow> pc s = NotStarted \<or> pc s = Starting"
  using queue_inv_reachable [OF assms(1,2)] assms(3)
  by (auto simp: queue_inv_def inv_loop_def Wait_returns_def)

theorem Wait_needs_cancel_witness: "\<not> Wait_returns sample_state"
  using Wait_needs_cancel [OF sample_new sample_reachable] by (simp add: sample_state_values)

section \<open>Adding items\<close>

text \<open>
  What a call of \<open>AddItem\<close> does when nothing else happens meanwhile: with room in an
  open channel the item is appended; with room in a closed one the call panics; without
  room the item is counted as dropped and nothing else changes (even on a closed channel). It
  never blocks.
\<close>

lemma AddItem_cases:
  "AddItem x q =
     (if ccap (items_chan q) \<le> length (cbuf (items_chan q)) then Inr (Some (count_drop q))
      else if cclosed (items_chan q) then Inl SendOnClosedChannel
      else Inr (Some (q\<lparr>heap := (heap q)[items_ref q :=
             (items_chan q)\<lparr>cbuf := cbuf (items_chan q) @ [x]\<rparr>]\<rparr>)))"
  by (simp add: AddItem_def has_room_def chan_send_def items_chan_def Let_def)

text \<open>
  The function and the steps model the same lines; from a state without a pending send, the
  steps of one call with nothing in between have the outcome of the function.
\<close>

lemma AddItem_refined:
  assumes "crashed s = None" and "producers s = []"
  shows "case AddItem x s of
       Inr (Some s') \<Rightarrow>
         if has_room s
         then run_events submit zero [Add_check x, Add_bind 0, Add_send 0] s =
           Some (s'\<lparr>accepted := accepted s @ [(items_ref s, x)]\<rparr>)
         else run_events submit zero [Add_check x] s = Some s'
     | Inr None \<Rightarrow> False
     | Inl p \<Rightarrow> run_events submit zero [Add_check x, Add_bind 0, Add_send 0] s =
         Some (s\<lparr>call_panics := call_panics s @ [p]\<rparr>)"
proof (cases "has_room s \<and> \<not> cclosed (items_chan s)")
  case True
  then show ?thesis
    using assms by (auto simp: AddItem_cases run_defs Let_def intro!: system.equality)
next
  case False
  then show ?thesis
    using assms by (auto simp: AddItem_cases run_defs Let_def intro!: system.equality)
qed

text \<open>The items of all calls of \<open>AddItem\<close> in a run.\<close>

fun calls :: "'a event list \<Rightarrow> 'a list" where
  "calls [] = []"
| "calls (Add_check x # es) = x # calls es"
| "calls (e # es) = calls es"

text \<open>What is noted of the steps of a run, each with the state it is taken in.\<close>

fun along :: "(('a, 'w) system \<Rightarrow> 'a event \<Rightarrow> 'b list) \<Rightarrow> ('a, 'w) submitter \<Rightarrow> 'a \<Rightarrow> 'a event list
    \<Rightarrow> ('a, 'w) system \<Rightarrow> 'b list" where
  "along f submit zero [] s = []"
| "along f submit zero (e # es) s =
     f s e @ (case exec_event submit zero e s of None \<Rightarrow> [] | Some t \<Rightarrow> along f submit zero es t)"

text \<open>
  The calls of \<open>AddItem\<close> that find the channel full, with their items; those that send on a closed
  channel; the lengths that calls of \<open>Empty\<close> add to the counter of drops; and the calls of
  \<open>Close\<close> on a closed channel.
\<close>

definition refused_call :: "('a, 'w) system \<Rightarrow> 'a event \<Rightarrow> 'a list" where
  "refused_call s e = (case e of
     Add_check x \<Rightarrow> if length (cbuf (items_chan s)) < ccap (items_chan s) then [] else [x] | _ \<Rightarrow> [])"

definition panicked_call :: "('a, 'w) system \<Rightarrow> 'a event \<Rightarrow> 'a list" where
  "panicked_call s e = (case e of
     Add_send j \<Rightarrow> (case producers s ! j of
         SendingTo i x \<Rightarrow> if cclosed (heap s ! i) then [x] else [] | Checked x \<Rightarrow> []) | _ \<Rightarrow> [])"

definition swept :: "('a, 'w) system \<Rightarrow> 'a event \<Rightarrow> nat list" where
  "swept s e = (case e of Empty_replace j \<Rightarrow> [emptying s ! j] | _ \<Rightarrow> [])"

definition reclosed :: "('a, 'w) system \<Rightarrow> 'a event \<Rightarrow> unit list" where
  "reclosed s e = (case e of Close_call \<Rightarrow> if cclosed (items_chan s) then [()] else [] | _ \<Rightarrow> [])"

lemma producers_update:
  "j < length xs \<Longrightarrow> f (xs ! j) = f y \<Longrightarrow> map f (xs[j := y]) = map f xs"
  by (simp add: map_update list_update_same_conv)

lemma call_step:
  assumes "qstep submit zero s e t"
  shows "mset (calls [e]) + image_mset producer_item (mset (producers s)) + image_mset snd (mset (accepted s))
       = image_mset producer_item (mset (producers t)) + image_mset snd (mset (accepted t))
         + mset (refused_call s e) + mset (panicked_call s e)
     \<and> m_dropped t = m_dropped s + length (refused_call s e) + sum_list (swept s e)
     \<and> length (call_panics t) = length (call_panics s) + length (panicked_call s e) + length (reclosed s e)"
  using assms
proof (induction rule: qstep.induct)
  case (add_bind s j x)
  then have "map producer_item ((producers s)[j := SendingTo (items_ref s) x]) = map producer_item (producers s)"
    by (intro producers_update) simp_all
  then have "image_mset producer_item (mset ((producers s)[j := SendingTo (items_ref s) x]))
      = image_mset producer_item (mset (producers s))" by (metis mset_map)
  then show ?case by (simp add: refused_call_def panicked_call_def swept_def reclosed_def)
next
  case (add_send s j i x s')
  with mset_remove_nth [OF add_send(2)] show ?case
    by (auto simp: refused_call_def panicked_call_def swept_def reclosed_def chan_send_Some)
next
  case (add_panic s j i x p)
  then have "cclosed (heap s ! i)" by (simp add: chan_send_def Let_def split: if_splits)
  with add_panic mset_remove_nth [OF add_panic(2)] show ?case
    by (auto simp: refused_call_def panicked_call_def swept_def reclosed_def)
qed (auto simp: refused_call_def panicked_call_def swept_def reclosed_def has_room_def Close_Inr Close_def queue_ops
    split: if_splits)

lemma calls_Cons: "calls (e # es) = calls [e] @ calls es"
  by (cases e) simp_all

lemma calls_run:
  assumes "run_events submit zero es s = Some t"
  shows "mset (calls es) + image_mset producer_item (mset (producers s)) + image_mset snd (mset (accepted s))
       = image_mset producer_item (mset (producers t)) + image_mset snd (mset (accepted t))
         + mset (along refused_call submit zero es s) + mset (along panicked_call submit zero es s)
     \<and> m_dropped t = m_dropped s + length (along refused_call submit zero es s)
         + sum_list (along swept submit zero es s)
     \<and> length (call_panics t) = length (call_panics s) + length (along panicked_call submit zero es s)
         + length (along reclosed submit zero es s)"
  using assms
proof (induction es arbitrary: s)
  case (Cons e es)
  then obtain u where u: "exec_event submit zero e s = Some u" "run_events submit zero es u = Some t"
    by (auto split: option.splits)
  from call_step [OF exec_qstep [OF u(1)]] Cons.IH [OF u(2)] u(1) show ?case
    by (simp add: calls_Cons [of e es] ac_simps)
qed simp

text \<open>
  C23. Every call of \<open>AddItem\<close> is accounted for. Take any run of a new queue, with callers, loop,
  workers, \<open>Close\<close> and \<open>Empty\<close> in any interleaving. The items of all calls made in it are, once
  each, those of the calls still in progress, those that a channel accepted, those of the
  calls that found the channel full, and those of the calls that sent on a closed
  channel. Exactly the calls that found it full, and the items that \<open>Empty\<close> found waiting, are
  counted as dropped; and nothing panics but the sends on a closed channel and a second \<open>Close\<close>.
\<close>

theorem calls_accounted:
  assumes "NewQueue c t logger sub = (Some q, err)" and "run_events submit zero es (boot q w) = Some s"
  shows "mset (calls es) = image_mset producer_item (mset (producers s)) + mset (map snd (accepted s))
         + mset (along refused_call submit zero es (boot q w)) + mset (along panicked_call submit zero es (boot q w))
     \<and> m_dropped s = length (along refused_call submit zero es (boot q w))
         + sum_list (along swept submit zero es (boot q w))
     \<and> length (call_panics s) = length (along panicked_call submit zero es (boot q w))
         + length (along reclosed submit zero es (boot q w))"
  using calls_run [OF assms(2)] NewQueue_Some [OF assms(1)] by (simp add: boot_def)

definition busy_run :: "nat event list" where
  "busy_run = [Add_check 1, Add_check 2, Add_bind 0, Add_bind 1, Add_send 0, Add_check 3, Close_call, Add_send 0,
     Empty_count, Empty_replace 0, Add_check 4]"

theorem calls_accounted_witness:
  "\<exists>s. run_events counting 0 busy_run (boot sample_queue 0) = Some s
     \<and> {#1, 2, 3, 4#} = image_mset producer_item (mset (producers s)) + mset (map snd (accepted s)) + {#3#} + {#2#}
     \<and> m_dropped s = 2 \<and> length (call_panics s) = 1"
proof -
  obtain s where run: "run_events counting 0 busy_run (boot sample_queue 0) = Some s"
    by (simp add: busy_run_def run_defs Empty_swap_def sample_queue_def sample_cfg_def)
  have "along refused_call counting 0 busy_run (boot sample_queue 0) = [3]"
    "along panicked_call counting 0 busy_run (boot sample_queue 0) = [2]"
    "along swept counting 0 busy_run (boot sample_queue 0) = [1]"
    "along reclosed counting 0 busy_run (boot sample_queue 0) = []"
    by (simp_all add: busy_run_def run_defs Empty_swap_def sample_queue_def sample_cfg_def refused_call_def
        panicked_call_def swept_def reclosed_def)
  moreover have "mset (calls busy_run) = {#1, 2, 3, 4#}" by (simp add: busy_run_def)
  ultimately show ?thesis using calls_accounted [OF sample_new run] run by (intro exI [of _ s]) simp
qed

text \<open>
  C24. Two calls of \<open>AddItem\<close> that both pass the length check when one place is left: the
  second neither enqueues nor drops its item, it waits in the send; no send step is
  possible for it until something is received. The comment of the dispatcher
  says that messages are dumped when the buffer fills up.
\<close>

theorem AddItem_race:
  assumes "crashed s = None" and "producers s = []" and "\<not> cclosed (items_chan s)"
    and "Suc (length (cbuf (items_chan s))) = ccap (items_chan s)" and "items_ref s < length (heap s)"
  shows "\<exists>t. run_events submit zero
         [Add_check x, Add_check y, Add_bind 0, Add_bind 1, Add_send 0] s = Some t
     \<and> producers t = [SendingTo (items_ref s) y] \<and> exec_event submit zero (Add_send 0) t = None
     \<and> accepted t = accepted s @ [(items_ref s, x)] \<and> m_dropped t = m_dropped s"
  using assms by (simp add: run_defs Let_def)

theorem AddItem_race_witness:
  "\<exists>t. run_events counting 0 [Add_check 1, Add_check 2, Add_bind 0, Add_bind 1, Add_send 0]
         sample_state = Some t \<and> producers t = [SendingTo 0 2]
     \<and> exec_event counting 0 (Add_send 0) t = None \<and> m_dropped t = m_dropped sample_state"
  using AddItem_race [of sample_state counting 0 1 2]
  by (auto simp: sample_state_values items_chan_def make_chan_def)

section \<open>Making a queue\<close>

text \<open>
  \<open>NewQueue\<close> rejects, in this order, a missing logger, missing telemetry, a missing
  submitter and an empty name; otherwise it makes an empty open channel and a queue whose
  sizes are the configured ones where positive and the defaults 10, 100, 10 and 15 otherwise.
\<close>

theorem NewQueue_cases:
  shows "(fst (NewQueue c t logger sub) = None \<longleftrightarrow>
       logger = None \<or> t = None \<or> sub = None \<or> q_Name c = '''')
     \<and> snd (NewQueue c t logger sub) =
       (if logger = None then Some (GoErr ''logger is required'')
        else if t = None then Some (GoErr ''telemetry is required'')
        else if sub = None then Some (GoErr ''batchSubmitter is required'')
        else if q_Name c = '''' then Some (GoErr ''queue name is required'') else None)
     \<and> (\<forall>q. fst (NewQueue c t logger sub) = Some q \<longrightarrow>
         BatchSize (cfg q) = (if 0 < BatchSize c then BatchSize c else 10)
         \<and> ChannelSize (cfg q) = (if 0 < ChannelSize c then ChannelSize c else 100)
         \<and> WorkerPoolSize (cfg q) = (if 0 < WorkerPoolSize c then WorkerPoolSize c else 10)
         \<and> BatchTimeLimitSeconds (cfg q) =
             (if 0 < BatchTimeLimitSeconds c then BatchTimeLimitSeconds c else 15)
         \<and> SubmitOnEmptyQueue (cfg q) = SubmitOnEmptyQueue c
         \<and> items_chan q = \<lparr>cbuf = [], ccap = nat (ChannelSize (cfg q)), cclosed = False\<rparr>)"
  by (auto simp: NewQueue_def with_defaults_def queue_defaults Let_def items_chan_def make_chan_def)

theorem NewQueue_cases_witness:
  "BatchSize (cfg sample_queue) = 2 \<and> BatchTimeLimitSeconds (cfg sample_queue) = 1"
proof -
  have "fst (NewQueue sample_cfg (Some ()) (Some ()) (Some ())) = Some sample_queue"
    by (simp add: sample_new)
  from NewQueue_cases [THEN conjunct2, THEN conjunct2, THEN spec, THEN mp, OF this]
  show ?thesis by (simp add: sample_cfg_def)
qed

end
