(* ===== verification/Dispatcher_Properties.thy ===== *)
theory Dispatcher_Properties
  imports Dispatcher Queue_Properties
begin

text \<open>
  What a dispatcher promises: how a batch fails over from stream to stream and what is
  counted, that a batch the queue reports as submitted was acknowledged by Kinesis, and
  what shutting down does to the running system.
\<close>

section \<open>Configuration of a stream\<close>

text \<open>
  When a key occurs more than once among the items of a stream, \<open>GetConfigItem\<close> takes
  the first occurrence and \<open>GetConfigMap\<close>, which configures the sender, the last.
\<close>

theorem config_lookup:
  "GetConfigItem s key =
     (case map_of (map (\<lambda>i. (Key i, Value i)) (ConfigItems s)) key of
        None \<Rightarrow> ('''', False) | Some v \<Rightarrow> (v, True))
   \<and> GetConfigMap s = map_of (rev (map (\<lambda>i. (Key i, Value i)) (ConfigItems s)))"
proof
  have "config_item xs key =
     (case map_of (map (\<lambda>i. (Key i, Value i)) xs) key of None \<Rightarrow> ('''', False) | Some v \<Rightarrow> (v, True))" for xs
    by (induction xs) auto
  then show "GetConfigItem s key =
     (case map_of (map (\<lambda>i. (Key i, Value i)) (ConfigItems s)) key of
        None \<Rightarrow> ('''', False) | Some v \<Rightarrow> (v, True))"
    by (simp add: GetConfigItem_def)
  have fold: "foldl (\<lambda>m item. m(Key item \<mapsto> Value item)) m0 xs
      = m0 ++ map_of (rev (map (\<lambda>i. (Key i, Value i)) xs))" for xs and m0 :: config_map
    by (induction xs arbitrary: m0) (auto simp: map_add_def fun_eq_iff split: option.splits)
  then show "GetConfigMap s = map_of (rev (map (\<lambda>i. (Key i, Value i)) (ConfigItems s)))"
    using fold [of "\<lambda>_. None" "ConfigItems s"] by (simp add: GetConfigMap_def)
qed

section \<open>Failover\<close>

text \<open>A result that \<open>submitBatch\<close> treats as a failure, and the reason it counts.\<close>

definition failed :: "int \<times> go_err option \<Rightarrow> bool" where
  "failed r \<longleftrightarrow> snd r \<noteq> None \<or> 0 < fst r"

definition reason :: "int \<times> go_err option \<Rightarrow> string" where
  "reason r = (if snd r \<noteq> None then ''send_error'' else ''some_records_failed'')"

definition failures :: "Stream list \<Rightarrow> (int \<times> go_err option) list \<Rightarrow> increments" where
  "failures sts rs = map (\<lambda>(st, r). (StreamName st, reason r, 1)) (zip sts rs)"

text \<open>
  A chain of calls, one sender after the other, with their results \<open>rs\<close> and the worlds
  between them.
\<close>

fun calls :: "('m, 'w) on_event \<Rightarrow> 'm list \<Rightarrow> nat \<Rightarrow> Stream list \<Rightarrow> (int \<times> go_err option) list
    \<Rightarrow> 'w \<Rightarrow> 'w \<Rightarrow> bool" where
  "calls on_event msgs i sts [] w w' = (w' = w)"
| "calls on_event msgs i (st # sts) (r # rs) w w' =
     (\<exists>w1. on_event i msgs (StreamName st) w = (Inr r, w1) \<and> calls on_event msgs (Suc i) sts rs w1 w')"
| "calls on_event msgs i [] (r # rs) w w' = False"

lemma submit_loop_calls:
  assumes "submit_loop on_event msgs s err i sts (m, w) = (Inr res, m', w')"
  shows "\<exists>rs. calls on_event msgs i sts rs w w' \<and>
    ((\<exists>ok. res = None \<and> \<not> failed ok \<and> (\<exists>fs. rs = fs @ [ok] \<and> list_all failed fs
        \<and> m' = m @ failures sts fs))
     \<or> (length rs = length sts \<and> list_all failed rs \<and> (sts = [] \<longrightarrow> res = err) \<and> (sts \<noteq> [] \<longrightarrow> res \<noteq> None)
        \<and> m' = m @ failures sts rs @ [(last (s # map StreamName sts), ''all_failed'', length msgs)]))"
  using assms
proof (induction sts arbitrary: s err i m w)
  case Nil
  then show ?case by (intro exI [of _ "[]"]) (auto simp: failures_def)
next
  case (Cons st sts)
  from Cons.prems obtain r w1 where ev: "on_event i msgs (StreamName st) w = (Inr r, w1)"
    by (auto simp: submitBatch_def split: prod.splits sum.splits)
  show ?case
  proof (cases "failed r")
    case True
    with ev Cons.prems obtain e where
      "submit_loop on_event msgs (StreamName st) (Some e) (Suc i) sts (m @ [(StreamName st, reason r, 1)], w1)
        = (Inr res, m', w')"
      by (cases r; cases "snd r") (auto simp: submitBatch_def failed_def reason_def split: if_splits)
    from Cons.IH [OF this] obtain rs where rs: "calls on_event msgs (Suc i) sts rs w1 w'"
      "(\<exists>ok. res = None \<and> \<not> failed ok \<and> (\<exists>fs. rs = fs @ [ok] \<and> list_all failed fs
          \<and> m' = (m @ [(StreamName st, reason r, 1)]) @ failures sts fs))
       \<or> (length rs = length sts \<and> list_all failed rs \<and> (sts = [] \<longrightarrow> res = Some e) \<and> (sts \<noteq> [] \<longrightarrow> res \<noteq> None)
        \<and> m' = (m @ [(StreamName st, reason r, 1)]) @ failures sts rs
            @ [(last (StreamName st # map StreamName sts), ''all_failed'', length msgs)])" by blast
    have fail: "failures (st # sts) (r # xs) = (StreamName st, reason r, 1) # failures sts xs" for xs
      by (simp add: failures_def)
    have "calls on_event msgs i (st # sts) (r # rs) w w'" using ev rs(1) by auto
    moreover from rs(2) have "(\<exists>ok. res = None \<and> \<not> failed ok \<and> (\<exists>fs. r # rs = fs @ [ok]
          \<and> list_all failed fs \<and> m' = m @ failures (st # sts) fs))
       \<or> (length (r # rs) = length (st # sts) \<and> list_all failed (r # rs)
        \<and> (st # sts = [] \<longrightarrow> res = err) \<and> (st # sts \<noteq> [] \<longrightarrow> res \<noteq> None)
        \<and> m' = m @ failures (st # sts) (r # rs)
            @ [(last (s # map StreamName (st # sts)), ''all_failed'', length msgs)])"
    proof (elim disjE exE conjE)
      fix ok fs
      assume "res = None" "\<not> failed ok" "rs = fs @ [ok]" "list_all failed fs"
        "m' = (m @ [(StreamName st, reason r, 1)]) @ failures sts fs"
      with True fail show ?thesis
        by (intro disjI1 exI [of _ ok]) (auto intro!: exI [of _ "r # fs"])
    next
      assume "length rs = length sts" "list_all failed rs" "sts = [] \<longrightarrow> res = Some e"
        "sts \<noteq> [] \<longrightarrow> res \<noteq> None"
        "m' = (m @ [(StreamName st, reason r, 1)]) @ failures sts rs
            @ [(last (StreamName st # map StreamName sts), ''all_failed'', length msgs)]"
      with True fail show ?thesis by (cases "sts = []") auto
    qed
    ultimately show ?thesis by blast
  next
    case False
    with ev Cons.prems have "res = None" "m' = m" "w' = w1"
      by (cases r; cases "snd r"; auto simp: submitBatch_def failed_def split: if_splits)+
    with False ev show ?thesis
      by - (rule exI [of _ "[r]"], rule conjI, simp, rule disjI1, rule exI [of _ r],
        simp add: failures_def)
  qed
qed

text \<open>
  C14. A submission that does not panic calls the senders of the streams in order, each on the
  same batch, and stops at the first that succeeds: it returns no error exactly then, and
  otherwise the error of the last stream after all have been tried. Each failed stream is counted
  once, with its reason; when all fail, the whole batch is counted under the last stream.
\<close>

theorem Submit_failover:
  assumes "Submit on_event d msgs (m, w) = (Inr res, m', w')" and "streams d \<noteq> []" and "msgs \<noteq> []"
  shows "\<exists>rs. calls on_event msgs 0 (streams d) rs w w' \<and> rs \<noteq> [] \<and> list_all failed (butlast rs)
     \<and> (res = None \<longleftrightarrow> \<not> failed (last rs))
     \<and> (res = None \<longrightarrow> m' = m @ failures (streams d) (butlast rs))
     \<and> (res \<noteq> None \<longrightarrow> length rs = length (streams d) \<and> m' = m @ failures (streams d) rs
           @ [(StreamName (last (streams d)), ''all_failed'', length msgs)])"
proof -
  have loop: "submit_loop on_event msgs (StreamName (hd (streams d))) None 0 (streams d) (m, w)
      = (Inr res, m', w')"
    using assms by (auto simp: Submit_def split: prod.splits sum.splits)
  from submit_loop_calls [OF this] obtain rs where rs: "calls on_event msgs 0 (streams d) rs w w'"
    and cases: "(\<exists>ok. res = None \<and> \<not> failed ok \<and> (\<exists>fs. rs = fs @ [ok] \<and> list_all failed fs
        \<and> m' = m @ failures (streams d) fs))
     \<or> (length rs = length (streams d) \<and> list_all failed rs \<and> (streams d \<noteq> [] \<longrightarrow> res \<noteq> None)
        \<and> m' = m @ failures (streams d) rs
            @ [(last (StreamName (hd (streams d)) # map StreamName (streams d)), ''all_failed'', length msgs)])"
    by blast
  from cases show ?thesis
  proof (elim disjE exE conjE)
    fix ok fs
    assume "res = None" "\<not> failed ok" "rs = fs @ [ok]" "list_all failed fs"
      "m' = m @ failures (streams d) fs"
    with rs show ?thesis by (intro exI [of _ rs]) simp
  next
    assume a: "length rs = length (streams d)" "list_all failed rs" "streams d \<noteq> [] \<longrightarrow> res \<noteq> None"
      "m' = m @ failures (streams d) rs
        @ [(last (StreamName (hd (streams d)) # map StreamName (streams d)), ''all_failed'', length msgs)]"
    then have "rs \<noteq> []" using assms(2) by auto
    moreover from this a(2) have "list_all failed (butlast rs)" "failed (last rs)"
      by (auto simp: list_all_iff dest: in_set_butlastD)
    ultimately show ?thesis
      using rs a assms(2) by (intro exI [of _ rs]) (auto simp: last_map)
  qed
qed

definition two_streams :: StreamDispatcher where
  "two_streams = \<lparr>d_id = ''a'', streams = [\<lparr>StreamName = ''a'', ConfigItems = []\<rparr>,
     \<lparr>StreamName = ''b'', ConfigItems = []\<rparr>]\<rparr>"

text \<open>Senders of which only the second works; the world lists the streams they were called with.\<close>

definition second_works :: "(nat, string list) on_event" where
  "second_works i msgs url w =
     (Inr (0, if i = 1 then None else Some (LibErr ''down'')), w @ [url])"

theorem Submit_failover_witness:
  "\<exists>rs. calls second_works [1] 0 (streams two_streams) rs [] [''a'', ''b''] \<and> rs \<noteq> []
     \<and> list_all failed (butlast rs) \<and> \<not> failed (last rs)
     \<and> [(''a'', ''send_error'', 1)] = failures (streams two_streams) (butlast rs)"
proof -
  have "Submit second_works two_streams [1] ([], []) =
      (Inr None, [(''a'', ''send_error'', 1)], [''a'', ''b''])"
    by (simp add: Submit_def two_streams_def second_works_def submitBatch_def)
  from Submit_failover [OF this] show ?thesis by (simp add: two_streams_def)
qed

text \<open>
  The submissions that call no sender or panic in one: without a stream the batch is
  counted as dropped (\<open>no_streams\<close>) and an error returned; an empty batch succeeds without
  a call; and a batch with a \<open>nil\<close> message panics in the first Kinesis sender, before
  anything is put, is counted (\<open>panic\<close>), and the panic goes on to the caller.
\<close>

theorem Submit_edge_cases:
  fixes w :: "('k, 'c, 'r) sender_world"
  assumes "streams d \<noteq> []"
  shows "Submit on_event (d\<lparr>streams := []\<rparr>) msgs (m, w0) =
       (Inr (Some (GoErr ''no streams available for submission'')),
        m @ [(d_id d, ''no_streams'', length msgs)], w0)
     \<and> Submit on_event d [] (m, w0) = (Inr None, m, w0)
     \<and> (None \<in> set batch \<longrightarrow> (\<exists>p. p \<in> {NilDeref, IndexOutOfRange}
          \<and> Submit sender_OnEvent d batch (m, w) = (Inl p, m @ [(d_id d, ''panic'', length batch)], w)))"
proof (intro conjI impI)
  assume nil: "None \<in> set batch"
  obtain env ss h where w: "w = (env, ss, h)" by (cases w)
  obtain st sts where d: "streams d = st # sts" using assms by (cases "streams d") auto
  have "batch \<noteq> []" using nil by auto
  then show "\<exists>p. p \<in> {NilDeref, IndexOutOfRange}
      \<and> Submit sender_OnEvent d batch (m, w) = (Inl p, m @ [(d_id d, ''panic'', length batch)], w)"
    by (cases "ss = []") (auto simp: w d Submit_def submitBatch_def sender_OnEvent_def OnEvent_None [OF nil])
qed (simp_all add: Submit_def assms)

theorem Submit_edge_cases_witness:
  "Submit second_works (two_streams\<lparr>streams := []\<rparr>) [4, 5] ([], []) =
     (Inr (Some (GoErr ''no streams available for submission'')), [(''a'', ''no_streams'', 2)], [])"
  using Submit_edge_cases [of two_streams second_works "[4, 5]" "[]" "[]", THEN conjunct1]
  by (simp add: two_streams_def)

section \<open>Delivery through the queue\<close>

text \<open>
  From the queue to Kinesis, whatever the interleaving of producers, loop and workers: a
  batch whose submission the queue has seen return without an error stands acknowledged in
  the history of the service on one of the dispatcher's streams: all its
  messages that can be marshalled were put there, and every request was answered without an
  error. It stays so.
\<close>

theorem submitted_batches_acknowledged:
  fixes w :: "('k, 'c, 'r) sender_world"
  assumes "reachable (Submit sender_OnEvent d) None (boot q (m, w)) s" and "world_ok w"
    and "(b, None) \<in> set (finished s)" and "fits b"
  shows "b = [] \<or> (\<exists>st \<in> set (streams d). world_acked (snd (world s)) (StreamName st) b)"
  using kinesis_dispatch.submits.acknowledged_batches [OF assms(1) _ assms(3,4)] assms(2) by simp

definition one_stream :: StreamDispatcher where
  "one_stream = \<lparr>d_id = ''s'', streams = [\<lparr>StreamName = ''s'', ConfigItems = []\<rparr>]\<rparr>"

definition sample_world :: "(unit, unit, nat) sender_world" where
  "sample_world = (sample_env, [sample_sender], [])"

definition delivery_queue :: "msg MyQueue" where
  "delivery_queue = \<lparr>heap = [make_chan 1], items_ref = 0, sem_held = 0, wg = 0,
     cfg = sample_cfg, started = False, m_queued = 0, m_dropped = 0, m_batch = 0, m_errors = 0,
     m_calls = 0\<rparr>"

lemma delivery_new: "NewQueue sample_cfg (Some ()) (Some ()) (Some d) = (Some delivery_queue, None)"
  by (simp add: NewQueue_def sample_cfg_def delivery_queue_def with_defaults_def)

definition delivery_run :: "msg event list" where
  "delivery_run = [Start_call, Start_add, Add_check (Some sample_message), Add_bind 0, Add_send 0,
     Select_enter, Recv, Process, Select_enter, Tick, Acquire, Worker 0]"

definition delivery_state :: "(msg, increments \<times> (unit, unit, nat) sender_world) system" where
  "delivery_state = (case run_events (Submit sender_OnEvent one_stream) None delivery_run
     (boot delivery_queue ([], sample_world)) of Some s \<Rightarrow> s)"

lemma sample_Submit:
  "Submit sender_OnEvent one_stream [Some sample_message] ([], sample_world) =
     (Inr None, [], (sample_env, [sample_sender], sample_put))"
  using sample_OnEvent
  by (simp add: Submit_def one_stream_def submitBatch_def sender_OnEvent_def sample_world_def)

lemma delivery_run_ok:
  "run_events (Submit sender_OnEvent one_stream) None delivery_run
     (boot delivery_queue ([], sample_world)) = Some delivery_state"
  and delivery_values: "finished delivery_state = [([Some sample_message], None)]"
    "world delivery_state = ([], (sample_env, [sample_sender], sample_put))"
    "pc delivery_state = LoopTop" "crashed delivery_state = None" "cancelled delivery_state = False"
    "heap delivery_state = [make_chan 1]" "items_ref delivery_state = 0"
  by (simp_all add: delivery_state_def delivery_run_def run_defs delivery_queue_def sample_cfg_def
      sample_Submit)

theorem submitted_batches_acknowledged_witness:
  "world_acked (snd (world delivery_state)) ''s'' [Some sample_message]"
proof -
  have "world_ok sample_world" using sample_ok by (simp add: world_ok_def sample_world_def)
  from submitted_batches_acknowledged [OF run_events_reachable [OF delivery_run_ok] this,
      of "[Some sample_message]"]
  show ?thesis by (simp add: delivery_values one_stream_def fits_def)
qed

section \<open>Shutting down\<close>

lemma remove_last [simp]: "remove_nth (length xs) (xs @ [x]) = xs"
  by (simp add: remove_nth_def)

text \<open>\<open>Shutdown\<close> as steps of the system: closing, for an abrupt one also emptying between.\<close>

definition Shutdown_events :: "bool \<Rightarrow> ('a, 'w) system \<Rightarrow> 'a event list" where
  "Shutdown_events gentle s =
     (if gentle then [] else [Close_call, Empty_count, Empty_replace (length (emptying s))]) @ [Close_call]"

lemma Close_exec: "Close s = Inr s' \<Longrightarrow> crashed s = None \<Longrightarrow> exec_event submit zero Close_call s = Some s'"
  by (simp add: exec_event_def)

lemma Empty_exec:
  assumes "crashed s = None"
  shows "run_events submit zero [Empty_count, Empty_replace (length (emptying s))] s = Some (Empty s)"
  using assms by (simp add: exec_event_def Empty_def Empty_swap_def)

lemma Close_closed: "Close s = Inr s' \<Longrightarrow> items_ref s < length (heap s) \<Longrightarrow> cclosed (items_chan s')"
  by (auto simp: Close_Inr items_chan_def)

lemma Close_frame:
  "Close s = Inr s' \<Longrightarrow> crashed s' = crashed s \<and> pc s' = pc s \<and> cancelled s' = cancelled s
     \<and> emptying s' = emptying s"
  by (auto simp: Close_Inr)

lemma Shutdown_steps:
  fixes s :: "('a, 'w) system"
  assumes "dispatcher_Shutdown gentle s = Inr s'" "crashed s = None" "items_ref s < length (heap s)"
  shows "run_events submit zero (Shutdown_events gentle s) s = Some s' \<and> cclosed (items_chan s')
     \<and> crashed s' = None \<and> pc s' = pc s \<and> cancelled s' = cancelled s"
proof (cases gentle)
  case True
  with assms have cl: "Close s = Inr s'" by (simp add: dispatcher_Shutdown_def)
  with True show ?thesis
    using Close_exec [OF cl assms(2), of submit zero] Close_closed [OF cl assms(3)] Close_frame [OF cl]
      assms(2) by (simp add: Shutdown_events_def)
next
  case False
  with assms(1) obtain s1 where c1: "Close s = Inr s1" and c2: "Close (Empty s1) = Inr s'"
    by (auto simp: dispatcher_Shutdown_def go_bind_Inr_iff)
  have e: "crashed (Empty s1) = None" "pc (Empty s1) = pc s" "cancelled (Empty s1) = cancelled s"
    "items_ref (Empty s1) < length (heap (Empty s1))"
    using Close_frame [OF c1] assms(2) by (simp_all add: Empty_def Empty_swap_def)
  have "run_events submit zero ([Empty_count, Empty_replace (length (emptying s1))] @ [Close_call]) s1
      = run_events submit zero [Close_call] (Empty s1)"
    using Empty_exec [of s1 submit zero] Close_frame [OF c1] assms(2)
    by (simp only: run_events_append option.case)
  with False show ?thesis
    using Close_exec [OF c1 assms(2), of submit zero] Close_exec [OF c2 e(1), of submit zero]
      Close_closed [OF c2 e(4)] Close_frame [OF c1] Close_frame [OF c2] e
    by (simp add: Shutdown_events_def)
qed

text \<open>A \<open>nil\<close> message in a batch makes its submission panic.\<close>

lemma Submit_nil_panics:
  assumes "streams d \<noteq> []" "None \<in> set b"
  shows "\<exists>p mw'. Submit sender_OnEvent d b mw = (Inl p, mw')"
proof -
  obtain mm env ss h where mw: "mw = (mm, env, ss, h)" by (cases mw)
  obtain st sts where st: "streams d = st # sts" using assms(1) by (cases "streams d") auto
  have "b \<noteq> []" using assms(2) by auto
  then show ?thesis
    by (cases "ss = []") (auto simp: mw st Submit_def submitBatch_def sender_OnEvent_def OnEvent_None [OF assms(2)])
qed

text \<open>
  Shutting down a dispatcher whose loop runs, gently or not: it closes the current
  channel and then waits for ever, because the loop runs on a context that is never
  done; a second shutdown would panic on the closed channel; and the process can be led to a
  crash, because the loop receives \<open>nil\<close> messages from the closed channel and the senders
  panic on them. (The manager's comment has a gentle shutdown wait for the delivery queues to
  empty. The steps of the shutdown are taken with no other step in between.)
\<close>

theorem Shutdown_hangs_and_crashes:
  fixes w :: "('k, 'c, 'r) sender_world"
  assumes "NewQueue c t logger (Some d) = (Some q, err)" and "streams d \<noteq> []"
    and "reachable (Submit sender_OnEvent d) None (boot q (m, w)) s" and "live s" and "\<not> cancelled s"
    and "dispatcher_Shutdown gentle s = Inr s'"
  shows "\<not> Wait_returns s' \<and> dispatcher_Shutdown again s' = Inl CloseOfClosedChannel
     \<and> (\<exists>u. reachable (Submit sender_OnEvent d) None s' u \<and> crashed u \<noteq> None)"
proof -
  let ?sub = "Submit sender_OnEvent d :: (msg, increments \<times> ('k, 'c, 'r) sender_world) submitter"
  have inv: "queue_inv None s" by (rule queue_inv_reachable [OF assms(1,3)])
  have c: "crashed s = None" using assms(4) by (simp add: live_def)
  have "items_ref s < length (heap s)" using inv by (simp add: queue_inv_def inv_channels_def)
  from Shutdown_steps [OF assms(6) c this, of ?sub None] have
    run: "run_events ?sub None (Shutdown_events gentle s) s = Some s'"
    and closed: "cclosed (items_chan s')" and live': "live s'" and nc: "\<not> cancelled s'"
    using assms(4,5) by (auto simp: live_def)
  have reach: "reachable ?sub None s s'" by (rule run_events_reachable [OF run])
  have inv': "queue_inv None s'" by (rule reachable_inv [OF reach inv])
  have "\<exists>p w'. ?sub b mw = (Inl p, w')" if "None \<in> set b" for b mw
    by (rule Submit_nil_panics [OF assms(2) that])
  moreover have "finished_returned ?sub s'"
    by (rule finished_returned_reachable [OF reachable_trans [OF reach assms(3)]])
      (simp add: finished_returned_def boot_def)
  ultimately have "\<exists>u. reachable ?sub None s' u \<and> crashed u \<noteq> None"
    by (intro closed_crashes [OF live' inv' _ closed]) auto
  moreover have "\<not> Wait_returns s'"
    using inv' live' by (simp add: queue_inv_def inv_loop_def live_def Wait_returns_def)
  moreover have "dispatcher_Shutdown again s' = Inl CloseOfClosedChannel"
    using closed by (simp add: dispatcher_Shutdown_def Close_def items_chan_def)
  ultimately show ?thesis by blast
qed

theorem Shutdown_hangs_and_crashes_witness:
  "\<exists>s'. dispatcher_Shutdown True delivery_state = Inr s' \<and> \<not> Wait_returns s'
     \<and> dispatcher_Shutdown False s' = Inl CloseOfClosedChannel
     \<and> (\<exists>u. reachable (Submit sender_OnEvent one_stream) None s' u \<and> crashed u \<noteq> None)"
proof -
  obtain s' where sh: "dispatcher_Shutdown True delivery_state = Inr s'"
    by (simp add: dispatcher_Shutdown_def Close_def items_chan_def delivery_values make_chan_def)
  have "streams one_stream \<noteq> []" by (simp add: one_stream_def)
  moreover have "live delivery_state" "\<not> cancelled delivery_state"
    by (simp_all add: live_def delivery_values)
  ultimately show ?thesis
    using Shutdown_hangs_and_crashes [OF delivery_new _ run_events_reachable [OF delivery_run_ok] _ _ sh]
      sh by blast
qed

section \<open>Building a dispatcher\<close>

text \<open>
  The senders of a list of streams: one call of the provider for each, with the stream's
  configuration map, chained through the history.
\<close>

fun sender_calls :: "('s, 'h) sender_provider \<Rightarrow> int \<Rightarrow> DestType \<Rightarrow> Stream list \<Rightarrow> 's option list
    \<Rightarrow> 'h \<Rightarrow> 'h \<Rightarrow> bool" where
  "sender_calls get retries dest [] [] h h' = (h' = h)"
| "sender_calls get retries dest (st # sts) (s # ss) h h' =
     (\<exists>h1. get retries dest (GetConfigMap st) h = (Inr (s, None), h1)
        \<and> sender_calls get retries dest sts ss h1 h')"
| "sender_calls get retries dest _ _ h h' = False"

lemma get_senders_calls:
  "get_senders (Some get) retries dest sts h = (Inr (ss, None), h') \<Longrightarrow>
     sender_calls get retries dest sts ss h h' \<and> length ss = length sts"
  by (induction sts arbitrary: ss h) (auto split: prod.splits sum.splits option.splits)

lemma get_senders_error:
  "get_senders (Some get) retries dest sts h = (Inr (ss, Some e), h') \<Longrightarrow>
     \<exists>st \<in> set sts. \<exists>s e' h1 h2. get retries dest (GetConfigMap st) h1 = (Inr (s, Some e'), h2)
       \<and> h' = h2 \<and> e = GoErrWrap (''error getting sender for dest type '' @ itoa dest @ '': '') e'"
  by (induction sts arbitrary: ss h) (auto split: prod.splits sum.splits option.splits)

text \<open>
  C25. A dispatcher the factory returns has one sender for each stream, in order, each made
  from its stream's configuration with the factory's number of retries; its name is the
  filter's, which is not empty; and its queue has the filter's sizes (defaults where they are
  not positive) and does not submit on an empty queue. When a sender cannot be made, that error,
  wrapped, is returned and no dispatcher.
\<close>

theorem GetDispatcher_cases:
  assumes "senderProvider df = Some get"
    and "GetDispatcher df f dest sts h = (Inr (r, err), h')"
  shows "(r = None \<longleftrightarrow> err \<noteq> None)
     \<and> (\<forall>b. r = Some b \<longrightarrow> sender_calls get (df_retries df) dest sts (b_senders b) h h'
        \<and> length (b_senders b) = length sts
        \<and> b_dispatcher b = \<lparr>d_id = f_id f, streams = sts\<rparr> \<and> f_id f \<noteq> ''''
        \<and> cfg (b_queue b) = with_defaults \<lparr>q_Name = f_id f, ChannelSize = f_queueSize f,
            WorkerPoolSize = f_maxWorkers f, BatchSize = f_batchSize f, BatchTimeLimitSeconds = 0,
            SubmitOnEmptyQueue = False\<rparr>)
     \<and> (\<forall>ss e. get_senders (Some get) (df_retries df) dest sts h = (Inr (ss, Some e), h')
          \<longrightarrow> r = None \<and> err = Some e
            \<and> (\<exists>e'. e = GoErrWrap (''error getting sender for dest type '' @ itoa dest @ '': '') e'))"
proof (cases "get_senders (Some get) (df_retries df) dest sts h")
  case (Pair x h1)
  show ?thesis
  proof (cases x)
    case (Inl p)
    with Pair assms show ?thesis by (simp add: GetDispatcher_def)
  next
    case (Inr y)
    obtain ss e where y: "y = (ss, e)" by fastforce
    show ?thesis
    proof (cases e)
      case (Some e')
      with Pair Inr y have gs: "get_senders (Some get) (df_retries df) dest sts h = (Inr (ss, Some e'), h1)"
        by simp
      from assms gs show ?thesis
        using get_senders_error [OF gs] by (auto simp: GetDispatcher_def)
    next
      case None
      with Pair Inr y have gs: "get_senders (Some get) (df_retries df) dest sts h = (Inr (ss, None), h1)"
        by simp
      from assms gs show ?thesis
        using get_senders_calls [OF gs]
        by (auto simp: GetDispatcher_def GetQueue_def NewQueue_def Let_def split: if_splits option.splits)
    qed
  qed
qed

definition sample_factory :: "(nat, nat) DispatcherFactory" where
  "sample_factory = \<lparr>senderProvider = Some (\<lambda>retries dest config h. (Inr (Some h, None), Suc h)),
     queueProvider = Some \<lparr>qf_t = Some (), qf_logger = Some ()\<rparr>, df_retries = 0,
     df_logger = Some (), df_metrics = Some ()\<rparr>"

definition sample_filter :: "(unit, unit) BaseFilter" where
  "sample_filter = \<lparr>f_id = ''a'', streamVersion = '''', eventMatchers = [], metadataMatchers = None,
     deliveryRetries = 0, f_wg = 0, f_maxWorkers = 0, f_batchSize = 7, f_queueSize = 0,
     dispatcher = None, destType = 0\<rparr>"

theorem GetDispatcher_cases_witness:
  "\<exists>b :: (nat, nat) built_dispatcher.
     GetDispatcher sample_factory sample_filter 0 (streams two_streams) 0 = (Inr (Some b, None), 2)
     \<and> length (b_senders b) = 2 \<and> BatchSize (cfg (b_queue b)) = 7 \<and> ChannelSize (cfg (b_queue b)) = 100"
proof -
  have sp: "senderProvider sample_factory = Some (\<lambda>retries dest config h. (Inr (Some h, None), Suc h))"
    by (simp add: sample_factory_def)
  obtain b :: "(nat, nat) built_dispatcher" where
    get: "GetDispatcher sample_factory sample_filter 0 (streams two_streams) 0 = (Inr (Some b, None), 2)"
    by (simp add: GetDispatcher_def sample_factory_def sample_filter_def two_streams_def GetQueue_def
        NewQueue_def with_defaults_def Let_def)
  from GetDispatcher_cases [OF sp get] get show ?thesis
    by (intro exI [of _ b])
      (simp add: two_streams_def sample_filter_def with_defaults_def queue_defaults)
qed

end
