(* ===== verification/Filter_Properties.thy ===== *)
theory Filter_Properties
  imports Filters Dispatcher_Properties
begin

text \<open>
  What a filter promises: which messages reach its dispatcher, in terms of the configuration it
  was built from; what the factory accepts; and what its shutdown does.
\<close>

section \<open>Deciding about a message\<close>

definition admits :: "('re \<Rightarrow> string \<Rightarrow> bool) \<Rightarrow> ('re, 'd) BaseFilter \<Rightarrow> wrp_message \<Rightarrow> bool" where
  "admits matches f m \<longleftrightarrow> match_event matches (eventMatchers f) m
     \<and> (case metadataMatchers f of None \<Rightarrow> True | Some meta \<Rightarrow> match_device matches meta m)"

lemma match_event_iff:
  "match_event matches res m \<longleftrightarrow> (\<exists>re \<in> set res. matches re (TrimPrefix (Destination m) event_prefix))"
  by (induction matches res m rule: match_event.induct) auto

lemma match_device_iff:
  "match_device matches res m \<longleftrightarrow> (\<exists>re \<in> set res. matches re (Source m)
     \<or> matches re (TrimPrefix (Destination m) event_prefix))"
  by (induction matches res m rule: match_device.induct) auto

lemma Queue_Some:
  "BaseFilter_Queue matches enqueue f (Some m) w =
     (if admits matches f m
      then (case dispatcher f of None \<Rightarrow> (Inl NilDeref, w) | Some d \<Rightarrow> enqueue d (Some m) w)
      else (Inr (), w))"
  by (auto simp: BaseFilter_Queue_def admits_def split: option.splits)

lemma compile_events_Inr:
  "compile_events compile es = Inr res \<Longrightarrow> map compile es = map Some res"
  by (induction es arbitrary: res) (auto split: option.splits sum.splits)

lemma compile_meta_Inr:
  "compile_meta compile acc ids = Inr res \<Longrightarrow>
     (match_all \<in> set ids \<and> res = []) \<or> (\<exists>rs. map compile ids = map Some rs \<and> res = acc @ rs
        \<and> match_all \<notin> set ids)"
  by (induction compile acc ids rule: compile_meta.induct)
     (auto split: if_splits option.splits)

lemma map_Some_set: "map g xs = map Some ys \<Longrightarrow> (\<exists>y \<in> set ys. P y) \<longleftrightarrow> (\<exists>x \<in> set xs. \<exists>y. g x = Some y \<and> P y)"
  by (induction xs arbitrary: ys) (auto simp: Cons_eq_map_conv)

text \<open>The steps of the factory that lead to a filter.\<close>

definition built :: "(nat \<Rightarrow> nat) \<Rightarrow> (string \<Rightarrow> 're option) \<Rightarrow> ('re, 'd, 'h) BaseFilterFactory
    \<Rightarrow> FilterConfig \<Rightarrow> 'h \<Rightarrow> ('re, 'd) BaseFilter \<Rightarrow> 'h \<Rightarrow> bool" where
  "built lower compile ff c h f h' \<longleftrightarrow>
     (\<exists>get destEnum d eventMs metaMs. DispatcherProvider ff = Some get
       \<and> ParseDestType lower (DestType_c c) = (destEnum, None)
       \<and> get (configureQueue ff (initial_filter ff c) c) destEnum (Stream_c c # AltStreams c) h
           = (Inr (d, None), h')
       \<and> compile_events compile (Events c) = Inr eventMs \<and> eventMs \<noteq> []
       \<and> compile_meta compile [] (DeviceIds (Metadata_c c)) = Inr metaMs
       \<and> f = (configureQueue ff (initial_filter ff c) c)\<lparr>dispatcher := d, eventMatchers := eventMs,
           metadataMatchers := (if metaMs = [] then None else Some metaMs), f_wg := 1\<rparr>)"

lemma configureQueue_frame [simp]:
  "f_wg (configureQueue ff f c) = f_wg f" "f_id (configureQueue ff f c) = f_id f"
  "destType (configureQueue ff f c) = destType f" "streamVersion (configureQueue ff f c) = streamVersion f"
  "deliveryRetries (configureQueue ff f c) = deliveryRetries f"
  by (simp_all add: configureQueue_def)

lemma New_filter_Some:
  assumes "New_filter lower compile ff c h = (Inr (Some f, err), h')"
  shows "err = None \<and> built lower compile ff c h f h'"
proof -
  have wg: "f_wg (initial_filter ff c) = 0" by (simp add: initial_filter_def)
  from assms obtain f2 h2 f3 where
    dis: "configureDispatcher lower ff (configureQueue ff (initial_filter ff c) c) c h = (Inr (f2, None), h2)"
    and mat: "configureMatchers compile f2 c = (f3, None)"
    and f: "f = f3\<lparr>f_wg := f_wg f3 + 1\<rparr>" "h' = h2" "err = None"
    by (auto simp: New_filter_def Let_def split: if_splits prod.splits sum.splits option.splits)
  from dis obtain get destEnum d where d: "DispatcherProvider ff = Some get"
      "ParseDestType lower (DestType_c c) = (destEnum, None)"
      "get (configureQueue ff (initial_filter ff c) c) destEnum (Stream_c c # AltStreams c) h
         = (Inr (d, None), h2)" "f2 = (configureQueue ff (initial_filter ff c) c)\<lparr>dispatcher := d\<rparr>"
    by (auto simp: configureDispatcher_def split: prod.splits sum.splits option.splits)
  from mat obtain eventMs metaMs where m: "compile_events compile (Events c) = Inr eventMs"
      "eventMs \<noteq> []" "compile_meta compile [] (DeviceIds (Metadata_c c)) = Inr metaMs"
      "f3 = f2\<lparr>eventMatchers := eventMs, metadataMatchers := (if metaMs = [] then None else Some metaMs)\<rparr>"
    by (auto simp: configureMatchers_def Let_def split: sum.splits if_splits)
  show ?thesis
    unfolding built_def using d m f wg by (intro conjI exI [of _ get] exI [of _ destEnum] exI [of _ d]
        exI [of _ eventMs] exI [of _ metaMs]) simp_all
qed

text \<open>Whether a configuration selects a message, and that its filter admits just those.\<close>

definition selects :: "(string \<Rightarrow> 're option) \<Rightarrow> ('re \<Rightarrow> string \<Rightarrow> bool) \<Rightarrow> FilterConfig \<Rightarrow> wrp_message \<Rightarrow> bool" where
  "selects compile matches c m \<longleftrightarrow>
     (let dest = TrimPrefix (Destination m) ''event:''; ids = DeviceIds (Metadata_c c) in
      (\<exists>e \<in> set (Events c). \<exists>re. compile e = Some re \<and> matches re dest)
      \<and> (ids = [] \<or> ''.*'' \<in> set ids
         \<or> (\<exists>i \<in> set ids. \<exists>re. compile i = Some re \<and> (matches re (Source m) \<or> matches re dest))))"

lemma New_filter_admits:
  assumes "New_filter lower compile ff c h = (Inr (Some f, err), h')"
  shows "admits matches f m \<longleftrightarrow> selects compile matches c m"
proof -
  let ?dest = "TrimPrefix (Destination m) ''event:''" and ?ids = "DeviceIds (Metadata_c c)"
  from New_filter_Some [OF assms(1)] obtain eventMs metaMs where
    ev: "map compile (Events c) = map Some eventMs" "eventMatchers f = eventMs"
    and me: "compile_meta compile [] ?ids = Inr metaMs"
      "metadataMatchers f = (if metaMs = [] then None else Some metaMs)"
    by (auto simp: built_def dest!: compile_events_Inr)
  have event: "match_event matches (eventMatchers f) m \<longleftrightarrow>
      (\<exists>e \<in> set (Events c). \<exists>re. compile e = Some re \<and> matches re ?dest)"
    using map_Some_set [OF ev(1), of "\<lambda>re. matches re ?dest"]
    by (simp add: match_event_iff ev(2) event_prefix_def)
  let ?dev = "\<lambda>re. matches re (Source m) \<or> matches re ?dest"
  from compile_meta_Inr [OF me(1)] have
    "(case metadataMatchers f of None \<Rightarrow> True | Some meta \<Rightarrow> match_device matches meta m) \<longleftrightarrow>
      (?ids = [] \<or> ''.*'' \<in> set ?ids \<or> (\<exists>i \<in> set ?ids. \<exists>re. compile i = Some re \<and> ?dev re))"
  proof (elim disjE exE conjE)
    assume "match_all \<in> set ?ids" "metaMs = []"
    then show ?thesis by (simp add: me(2) match_all_def)
  next
    fix rs
    assume rs: "map compile ?ids = map Some rs" "metaMs = [] @ rs" "match_all \<notin> set ?ids"
    then have "metaMs = [] \<longleftrightarrow> ?ids = []" by (cases ?ids) auto
    with rs map_Some_set [OF rs(1), of ?dev] show ?thesis
      by (auto simp: me(2) match_device_iff match_all_def event_prefix_def)
  qed
  with event show ?thesis by (simp add: admits_def selects_def Let_def)
qed

text \<open>
  C17. A filter decides by the configuration it was built from. It queues a message at its
  dispatcher exactly if one of the configured event patterns matches the
  destination without its prefix \<open>event:\<close>, and either no device pattern is configured, or one of
  them is \<open>.*\<close>, or one matches the source or that destination; otherwise nothing happens.
\<close>

theorem filter_decides:
  assumes "New_filter lower compile ff c h = (Inr (Some f, err), h')"
    and "dest = TrimPrefix (Destination m) ''event:''" and "ids = DeviceIds (Metadata_c c)"
  shows "BaseFilter_Queue matches enqueue f (Some m) w =
     (if (\<exists>e \<in> set (Events c). \<exists>re. compile e = Some re \<and> matches re dest)
       \<and> (ids = [] \<or> ''.*'' \<in> set ids
          \<or> (\<exists>i \<in> set ids. \<exists>re. compile i = Some re \<and> (matches re (Source m) \<or> matches re dest)))
      then (case dispatcher f of None \<Rightarrow> (Inl NilDeref, w) | Some d \<Rightarrow> enqueue d (Some m) w)
      else (Inr (), w))"
  using New_filter_admits [OF assms(1), of matches m]
  by (simp only: Queue_Some selects_def Let_def assms(2,3))

text \<open>
  A concrete filter: patterns are exact strings, all of them compile except the empty one,
  and the provider hands out the dispatcher 0.
\<close>

definition exact :: "string \<Rightarrow> string option" where
  "exact p = (if p = '''' then None else Some p)"

definition sample_ff :: "(string, nat, nat) BaseFilterFactory" where
  "sample_ff = \<lparr>defaultQueueSize = 5, defaultMaxWorkers = 6, defaultBatchSize = 7,
     DeliveryRetries = 4, Metrics = Some (), Logger = Some (),
     DispatcherProvider = Some (\<lambda>f dest sts h. (Inr (Some h, None), Suc h))\<rparr>"

definition sample_fc :: FilterConfig where
  "sample_fc = \<lparr>Stream_c = \<lparr>StreamName = ''s'', ConfigItems = []\<rparr>, AltStreams = [],
     Events = [''online'', ''device-status/mac:112233445566/online''],
     Metadata_c = \<lparr>DeviceIds = []\<rparr>, DestType_c = ''kinesis'', QueueSize = 0, BatchSize_c = 3,
     MaxWorkers = 0, StreamVersion = ''''\<rparr>"

definition sample_built :: "(string, nat) BaseFilter" where
  "sample_built = (configureQueue sample_ff (initial_filter sample_ff sample_fc) sample_fc)
     \<lparr>dispatcher := Some 0, eventMatchers := Events sample_fc, metadataMatchers := None, f_wg := 1\<rparr>"

lemma kinesis_parses: "ParseDestType lower ''kinesis'' = (Kinesis_dest, None)"
proof -
  have "ascii ''kinesis''" by (simp add: byte_def)
  moreover from this have "TrimSpace ''kinesis'' = ''kinesis''"
    by (simp add: TrimSpace_ascii ascii_space_def byte_def)
  ultimately show ?thesis
    by (simp add: ParseDestType_def Let_def ToLower_ascii destTypeMap_def ascii_lower_def byte_def)
qed

lemma sample_New: "New_filter (\<lambda>r. r) exact sample_ff sample_fc 0 = (Inr (Some sample_built, None), 1)"
  by (simp add: New_filter_def Let_def configureDispatcher_def configureMatchers_def sample_built_def
      sample_ff_def sample_fc_def exact_def kinesis_parses initial_filter_def)

theorem filter_decides_witness:
  "BaseFilter_Queue (=) enqueue_at sample_built (Some sample_message) [] = (Inl NilDeref, [])"
proof -
  have "TrimPrefix (Destination sample_message) ''event:'' = ''device-status/mac:112233445566/online''"
    by (simp add: TrimPrefix_def sample_message_def)
  from filter_decides [OF sample_New this [symmetric] refl, of "(=)" enqueue_at "[]"]
  show ?thesis
    by (simp add: sample_fc_def sample_built_def exact_def enqueue_at_def)
qed

section \<open>Building a filter\<close>

text \<open>
  What the factory makes of a configuration: a filter or an error, never both. A
  filter has the configured sizes where they are positive and the defaults otherwise, its wait
  group counts 1, and its destination type is never set; it exists only if the destination
  type parses, the provider delivers a dispatcher, there is at least one event pattern, and
  all event patterns compile. A destination type that does not parse is reported before
  any dispatcher is made.
\<close>

theorem New_filter_cases:
  assumes "Logger ff \<noteq> None" and "DispatcherProvider ff = Some get"
    and "New_filter lower compile ff c h = (Inr (r, err), h')"
  shows "(r = None \<longleftrightarrow> err \<noteq> None)
     \<and> (\<forall>f. r = Some f \<longrightarrow> f_wg f = 1 \<and> destType f = 0
        \<and> f_batchSize f = (if 0 < BatchSize_c c then BatchSize_c c else defaultBatchSize ff)
        \<and> f_queueSize f = (if 0 < QueueSize c then QueueSize c else defaultQueueSize ff)
        \<and> f_maxWorkers f = (if 0 < MaxWorkers c then MaxWorkers c else defaultMaxWorkers ff)
        \<and> Events c \<noteq> [] \<and> (\<forall>e \<in> set (Events c). compile e \<noteq> None)
        \<and> snd (ParseDestType lower (DestType_c c)) = None)
     \<and> (snd (ParseDestType lower (DestType_c c)) \<noteq> None \<longrightarrow> h' = h \<and>
          err = Some (GoErrWrap (''error configuring dispatcher for filter ''
              @ ToValidUTF8 (StreamName (Stream_c c)) @ '': '')
            (GoErr (''error parsing destination type '' @ DestType_c c))))"
proof (intro conjI allI impI)
  show rn: "r = None \<longleftrightarrow> err \<noteq> None"
    using assms by (auto simp: New_filter_def Let_def split: if_splits prod.splits sum.splits option.splits)
  fix f assume r: "r = Some f"
  have b: "built lower compile ff c h f h'" using New_filter_Some [OF assms(3) [unfolded r]] by blast
  then show "f_wg f = 1" "destType f = 0" "snd (ParseDestType lower (DestType_c c)) = None"
    by (auto simp: built_def initial_filter_def)
  from b show "f_batchSize f = (if 0 < BatchSize_c c then BatchSize_c c else defaultBatchSize ff)"
    "f_queueSize f = (if 0 < QueueSize c then QueueSize c else defaultQueueSize ff)"
    "f_maxWorkers f = (if 0 < MaxWorkers c then MaxWorkers c else defaultMaxWorkers ff)"
    by (auto simp: built_def configureQueue_def)
  from b obtain eventMs where ev: "map compile (Events c) = map Some eventMs" "eventMs \<noteq> []"
    by (auto simp: built_def dest: compile_events_Inr)
  then show "Events c \<noteq> []" by auto
  show "\<forall>e \<in> set (Events c). compile e \<noteq> None"
    using ev(1) by (metis imageE image_set option.distinct(1) rev_image_eqI)
next
  assume "snd (ParseDestType lower (DestType_c c)) \<noteq> None"
  with assms show "h' = h" and "err = Some (GoErrWrap (''error configuring dispatcher for filter ''
              @ ToValidUTF8 (StreamName (Stream_c c)) @ '': '')
            (GoErr (''error parsing destination type '' @ DestType_c c)))"
    by (auto simp: New_filter_def Let_def configureDispatcher_def initial_filter_def
        split: if_splits prod.splits sum.splits option.splits)
qed

theorem New_filter_cases_witness:
  "f_wg sample_built = 1 \<and> f_batchSize sample_built = 3 \<and> f_queueSize sample_built = 5"
proof -
  obtain get where get: "DispatcherProvider sample_ff = Some get" and log: "Logger sample_ff \<noteq> None"
    by (simp add: sample_ff_def)
  from New_filter_cases [OF log get sample_New] show ?thesis
    by (simp add: sample_fc_def sample_ff_def)
qed

section \<open>A filter on a dispatcher that keeps its contract\<close>

text \<open>
  The interface between filters and dispatchers: with the laws of \<open>dispatcher_ops\<close>, a
  message a filter admits is taken by its dispatcher, and nothing else changes.
\<close>

locale filtering = dispatcher_ops enqueue backlog dropped ready room
  for enqueue :: "('d, 'w) enqueue" and backlog :: "'w \<Rightarrow> 'd \<Rightarrow> msg list"
    and dropped :: "'w \<Rightarrow> 'd \<Rightarrow> nat" and ready :: "'w \<Rightarrow> 'd \<Rightarrow> bool"
    and room :: "'w \<Rightarrow> 'd \<Rightarrow> bool" +
  fixes matches :: "'re \<Rightarrow> string \<Rightarrow> bool"
begin

definition took :: "'d \<Rightarrow> wrp_message \<Rightarrow> 'w \<Rightarrow> 'w \<Rightarrow> bool" where
  "took d m w w' \<longleftrightarrow> backlog w' d = (if room w d then backlog w d @ [Some m] else backlog w d)
     \<and> dropped w' d = (if room w d then dropped w d else Suc (dropped w d))"

definition same_at :: "'d \<Rightarrow> 'w \<Rightarrow> 'w \<Rightarrow> bool" where
  "same_at d w w' \<longleftrightarrow> backlog w' d = backlog w d \<and> dropped w' d = dropped w d \<and> room w' d = room w d"

lemma Queue_effect:
  assumes "dispatcher f = Some d" "ready w d" "BaseFilter_Queue matches enqueue f (Some m) w = (r, w')"
  shows "r = Inr ()" "if admits matches f m then took d m w w' else same_at d w w'"
    "d' \<noteq> d \<Longrightarrow> same_at d' w w'" "ready w d'' \<Longrightarrow> ready w' d''"
proof -
  have "r = Inr () \<and> (if admits matches f m then took d m w w' else same_at d w w')
     \<and> (d' \<noteq> d \<longrightarrow> same_at d' w w') \<and> (ready w d'' \<longrightarrow> ready w' d'')"
  proof (cases "admits matches f m")
    case True
    with assms have e: "enqueue d (Some m) w = (r, w')" by (simp add: Queue_Some)
    with enqueue_ready [OF assms(2), of "Some m"] have "r = Inr ()" by simp
    with e enqueue_own [OF assms(2)] enqueue_other [OF e, of d'] ready_stays [OF _ e, of d''] True
    show ?thesis by (auto simp: took_def same_at_def)
  next
    case False
    with assms show ?thesis by (simp add: Queue_Some same_at_def)
  qed
  then show "r = Inr ()" "if admits matches f m then took d m w w' else same_at d w w'"
    "d' \<noteq> d \<Longrightarrow> same_at d' w w'" "ready w d'' \<Longrightarrow> ready w' d''" by blast+
qed

end

interpretation filters_on: filtering enqueue_at backlog_at dropped_at open_at room_at matches
  for matches :: "'re \<Rightarrow> string \<Rightarrow> bool"
  by unfold_locales

end
