(* ===== verification/Manager.thy ===== *)
theory Manager
  imports Filter_Properties "HOL-Library.AList"
begin

text \<open>
  The filter manager (\<open>filter/filter_manager.go\<close>): it builds a filter for each configured
  stream and offers every message to all of them. Its shutdown is in \<open>Shutdown_Manager\<close>.

  The map of filters is an association list without duplicate keys; the order in which Go
  iterates over a map is a parameter \<open>order\<close>, a rearrangement of that list. The
  counter \<open>EventType\<close> is the list of the labels it was increased for. \<open>event_type\<close> is the
  library's \<open>FindEventStringSubMatch\<close>.
\<close>

record ('re, 'd, 'h) BaseFilterManager =
  dispatchProvider :: "('re, 'd, 'h) dispatcher_provider option"
  m_deliveryRetries :: int
  m_logger :: logger
  filters :: "(string \<times> ('re, 'd) BaseFilter) list"
  m_metrics :: "unit option"
  filterMetrics :: "unit option"
  m_wg :: int
  shutdown_closed :: bool
  filterConfig :: "FilterConfig list"
  m_defaultQueueSize :: int
  m_defaultBatchSize :: int
  m_defaultMaxWorkers :: int

datatype ('re, 'd, 'h) manager_option =
    WithDispatchProvider "('re, 'd, 'h) dispatcher_provider option"
  | WithFilters "FilterConfig list"
  | WithDeliveryRetries int
  | WithLogger_m logger
  | WithFilterMetrics "unit option"
  | WithFilterManagerMetrics "unit option"
  | WithDefaultQueueSize int
  | WithDefaultBatchSize int
  | WithDefaultWorkers int

definition empty_manager :: "('re, 'd, 'h) BaseFilterManager" where
  "empty_manager = \<lparr>dispatchProvider = None, m_deliveryRetries = 0, m_logger = None, filters = [],
     m_metrics = None, filterMetrics = None, m_wg = 0, shutdown_closed = False, filterConfig = [],
     m_defaultQueueSize = 0, m_defaultBatchSize = 0, m_defaultMaxWorkers = 0\<rparr>"

definition required_options :: "('re, 'd, 'h) manager_option list" where
  "required_options = [WithLogger_m None, WithFilterMetrics None, WithFilterManagerMetrics None,
     WithDispatchProvider None, WithDefaultQueueSize 0, WithDefaultBatchSize 0, WithDefaultWorkers 0]"

definition filter_factory :: "('re, 'd, 'h) BaseFilterManager \<Rightarrow> ('re, 'd, 'h) BaseFilterFactory" where
  "filter_factory fm = \<lparr>defaultQueueSize = m_defaultQueueSize fm,
     defaultMaxWorkers = m_defaultMaxWorkers fm, defaultBatchSize = m_defaultBatchSize fm,
     DeliveryRetries = m_deliveryRetries fm, Metrics = filterMetrics fm, Logger = m_logger fm,
     DispatcherProvider = dispatchProvider fm\<rparr>"

text \<open>
  The loop of \<open>loadFilters\<close>; the first error ends it and keeps the filters made so far. (The
  factory returns a filter or an error: the last case does not occur.)
\<close>

fun load_loop :: "(nat \<Rightarrow> nat) \<Rightarrow> (string \<Rightarrow> 're option) \<Rightarrow> ('re, 'd, 'h) BaseFilterFactory
    \<Rightarrow> FilterConfig list \<Rightarrow> (string \<times> ('re, 'd) BaseFilter) list \<Rightarrow> 'h
    \<Rightarrow> (go_panic + (string \<times> ('re, 'd) BaseFilter) list \<times> go_err option) \<times> 'h" where
  "load_loop lower compile ff [] fs h = (Inr (fs, None), h)"
| "load_loop lower compile ff (c # cs) fs h =
     (case New_filter lower compile ff c h of
        (Inl p, h') \<Rightarrow> (Inl p, h')
      | (Inr (_, Some e), h') \<Rightarrow> (Inr (fs, Some e), h')
      | (Inr (Some f, None), h') \<Rightarrow>
          load_loop lower compile ff cs (AList.update (StreamName (Stream_c c)) f fs) h'
      | (Inr (None, None), h') \<Rightarrow> (Inr (fs, None), h'))"

definition loadFilters :: "(nat \<Rightarrow> nat) \<Rightarrow> (string \<Rightarrow> 're option) \<Rightarrow> ('re, 'd, 'h) BaseFilterManager
    \<Rightarrow> 'h \<Rightarrow> (go_panic + ('re, 'd, 'h) BaseFilterManager \<times> go_err option) \<times> 'h" where
  "loadFilters lower compile fm h =
     (case load_loop lower compile (filter_factory fm) (filterConfig fm) (filters fm) h of
        (Inl p, h') \<Rightarrow> (Inl p, h')
      | (Inr (fs, err), h') \<Rightarrow> (Inr (fm\<lparr>filters := fs\<rparr>, err), h'))"

definition New_manager ::
    "(('re, 'd, 'h) manager_option, ('re, 'd, 'h) BaseFilterManager) apply_fun
     \<Rightarrow> (('re, 'd, 'h) manager_option, ('re, 'd, 'h) BaseFilterManager) required_fun
     \<Rightarrow> (nat \<Rightarrow> nat) \<Rightarrow> (string \<Rightarrow> 're option) \<Rightarrow> ('re, 'd, 'h) manager_option list \<Rightarrow> 'h
     \<Rightarrow> (go_panic + ('re, 'd, 'h) BaseFilterManager option \<times> go_err option) \<times> 'h" where
  "New_manager apply_opts required lower compile opt h =
     (case apply_opts opt empty_manager of
        (_, Some e) \<Rightarrow> (Inr (None, Some e), h)
      | (bfw, None) \<Rightarrow>
          (case required required_options bfw of
             Some e \<Rightarrow> (Inr (Some bfw, Some e), h)
           | None \<Rightarrow>
              (case loadFilters lower compile (bfw\<lparr>m_wg := m_wg bfw + 1\<rparr>) h of
                 (Inl p, h') \<Rightarrow> (Inl p, h')
               | (Inr (fm, err), h') \<Rightarrow> (Inr (Some fm, err), h'))))"

section \<open>Queueing\<close>

text \<open>The loop over the filters: a panic leaves it, for the deferred recovery.\<close>

fun queue_all :: "('re \<Rightarrow> string \<Rightarrow> bool) \<Rightarrow> ('d, 'w) enqueue
    \<Rightarrow> (string \<times> ('re, 'd) BaseFilter) list \<Rightarrow> wrp_message \<Rightarrow> 'w \<Rightarrow> (go_panic + unit) \<times> 'w" where
  "queue_all matches enqueue [] m w = (Inr (), w)"
| "queue_all matches enqueue ((k, f) # fs) m w =
     (case BaseFilter_Queue matches enqueue f (Some m) w of
        (Inl p, w') \<Rightarrow> (Inl p, w')
      | (Inr _, w') \<Rightarrow> queue_all matches enqueue fs m w')"

text \<open>
  \<open>Queue\<close>: a \<open>nil\<close> message is dropped before the recovery is in place; with it, every
  panic of the body ends in a log entry, which panics again if there is no logger.
\<close>

definition Manager_Queue :: "(wrp_message \<Rightarrow> string)
    \<Rightarrow> ((string \<times> ('re, 'd) BaseFilter) list \<Rightarrow> (string \<times> ('re, 'd) BaseFilter) list)
    \<Rightarrow> ('re \<Rightarrow> string \<Rightarrow> bool) \<Rightarrow> ('d, 'w) enqueue \<Rightarrow> ('re, 'd, 'h) BaseFilterManager \<Rightarrow> msg
    \<Rightarrow> string list \<times> 'w \<Rightarrow> (go_panic + unit) \<times> string list \<times> 'w" where
  "Manager_Queue event_type order matches enqueue fm msg ew =
     (case ew of (evs, w) \<Rightarrow>
      (case msg of
         None \<Rightarrow> (if m_logger fm = None then Inl NilDeref else Inr (), evs, w)
       | Some m \<Rightarrow>
           if m_metrics fm = None
           then (if m_logger fm = None then Inl NilDeref else Inr (), evs, w)
           else let evs' = evs @ [event_type m] in
             if m_logger fm = None then (Inl NilDeref, evs', w)
             else (Inr (), evs', snd (queue_all matches enqueue (order (filters fm)) m w))))"

end
