(* ===== verification/Manager_Properties.thy ===== *)
theory Manager_Properties
  imports Manager "HOL-Library.Multiset"
begin

text \<open>
  What the manager promises: which filters it runs, that a message reaches exactly the
  dispatchers whose filters admit it in whatever order the map is iterated, and what a
  panic in one filter does to the others.
\<close>

section \<open>Offering a message to all filters\<close>

text \<open>
  The loop over the filters, on any dispatchers that keep their contract: every filter has a
  dispatcher of its own that can take messages.
\<close>

context filtering
begin

lemma queue_all_effect:
  assumes "distinct (map (dispatcher \<circ> snd) fs)"
    and "\<forall>kf \<in> set fs. \<exists>d. dispatcher (snd kf) = Some d \<and> ready w d"
    and "queue_all matches enqueue fs m w = (r, w')"
  shows "r = Inr ()
     \<and> (\<forall>kf \<in> set fs. \<forall>d. dispatcher (snd kf) = Some d \<longrightarrow>
          (if admits matches (snd kf) m then took d m w w' else same_at d w w'))
     \<and> (\<forall>d. Some d \<notin> (dispatcher \<circ> snd) ` set fs \<longrightarrow> same_at d w w')"
  using assms
proof (induction fs arbitrary: w)
  case Nil
  then show ?case by (simp add: same_at_def)
next
  case (Cons kf fs)
  obtain k f where kf: "kf = (k, f)" by fastforce
  from Cons.prems(2) kf obtain d where d: "dispatcher f = Some d" "ready w d" by auto
  obtain r1 w1 where q: "BaseFilter_Queue matches enqueue f (Some m) w = (r1, w1)" by fastforce
  note eff = Queue_effect [OF d q]
  have rest: "queue_all matches enqueue fs m w1 = (r, w')"
    using Cons.prems(3) kf q eff(1) by simp
  have "\<forall>kf \<in> set fs. \<exists>d. dispatcher (snd kf) = Some d \<and> ready w1 d"
    using Cons.prems(2) eff(4) by fastforce
  from Cons.IH [OF _ this rest] Cons.prems(1) have IH: "r = Inr ()"
      "\<And>kf d. kf \<in> set fs \<Longrightarrow> dispatcher (snd kf) = Some d \<Longrightarrow>
          (if admits matches (snd kf) m then took d m w1 w' else same_at d w1 w')"
      "\<And>d. Some d \<notin> (dispatcher \<circ> snd) ` set fs \<Longrightarrow> same_at d w1 w'"
    by auto
  have new: "Some d \<notin> (dispatcher \<circ> snd) ` set fs" using Cons.prems(1) kf d(1) by simp
  note here = IH(3) [OF new]
  have first: "if admits matches f m then took d m w w' else same_at d w w'"
    using eff(2) here by (auto simp: took_def same_at_def split: if_splits)
  have later: "if admits matches (snd kf') m then took d' m w w' else same_at d' w w'"
    if "kf' \<in> set fs" "dispatcher (snd kf') = Some d'" for kf' d'
  proof -
    have "d' \<noteq> d" using new that by force
    from eff(3) [OF this] IH(2) [OF that] show ?thesis
      by (auto simp: took_def same_at_def split: if_splits)
  qed
  have other: "same_at d' w w'" if "d' \<noteq> d" "Some d' \<notin> (dispatcher \<circ> snd) ` set fs" for d'
    using eff(3) [OF that(1)] IH(3) [OF that(2)] by (simp add: same_at_def)
  show ?case
    using IH(1) first later other d(1) kf by (auto simp: o_def)
qed

end

text \<open>What offering a message to all filters does to the queues of the dispatchers.\<close>

definition offered :: "('re \<Rightarrow> string \<Rightarrow> bool) \<Rightarrow> (string \<times> ('re, nat) BaseFilter) list \<Rightarrow> wrp_message
    \<Rightarrow> msg MyQueue list \<Rightarrow> msg MyQueue list \<Rightarrow> bool" where
  "offered matches fs m qs qs' \<longleftrightarrow>
     (\<forall>kf \<in> set fs. \<forall>d. dispatcher (snd kf) = Some d \<and> admits matches (snd kf) m \<longrightarrow>
          backlog_at qs' d = (if room_at qs d then backlog_at qs d @ [Some m] else backlog_at qs d)
          \<and> dropped_at qs' d = (if room_at qs d then dropped_at qs d else Suc (dropped_at qs d)))
     \<and> (\<forall>d. (\<forall>kf \<in> set fs. dispatcher (snd kf) = Some d \<longrightarrow> \<not> admits matches (snd kf) m) \<longrightarrow>
          backlog_at qs' d = backlog_at qs d \<and> dropped_at qs' d = dropped_at qs d)"

lemma fanout_effect:
  assumes "mset (order (filters fm)) = mset (filters fm)"
    and "distinct (map (dispatcher \<circ> snd) (filters fm))"
    and "\<forall>kf \<in> set (filters fm). \<exists>d. dispatcher (snd kf) = Some d \<and> open_at qs d"
    and "m_logger fm \<noteq> None" and "m_metrics fm \<noteq> None"
    and "Manager_Queue event_type order matches enqueue_at fm (Some m) (evs, qs) = (r, evs', qs')"
  shows "r = Inr () \<and> evs' = evs @ [event_type m] \<and> offered matches (filters fm) m qs qs'"
proof -
  have set: "set (order (filters fm)) = set (filters fm)" by (metis assms(1) set_mset_mset)
  have "mset (map (dispatcher \<circ> snd) (order (filters fm))) = mset (map (dispatcher \<circ> snd) (filters fm))"
    by (simp only: mset_map assms(1))
  with assms(2) have dist: "distinct (map (dispatcher \<circ> snd) (order (filters fm)))"
    by (metis mset_eq_imp_distinct_iff)
  obtain x where run: "queue_all matches enqueue_at (order (filters fm)) m qs = (x, qs')"
    and r: "r = Inr ()" "evs' = evs @ [event_type m]"
    using assms(4-6) by (cases "queue_all matches enqueue_at (order (filters fm)) m qs")
      (auto simp: Manager_Queue_def Let_def)
  have "\<forall>kf \<in> set (order (filters fm)). \<exists>d. dispatcher (snd kf) = Some d \<and> open_at qs d"
    using assms(3) set by simp
  note eff = filters_on.queue_all_effect [OF dist this run]
  have "backlog_at qs' d = backlog_at qs d \<and> dropped_at qs' d = dropped_at qs d"
    if no: "\<forall>kf \<in> set (filters fm). dispatcher (snd kf) = Some d \<longrightarrow> \<not> admits matches (snd kf) m" for d
  proof (cases "Some d \<in> (dispatcher \<circ> snd) ` set (filters fm)")
    case True
    then obtain kf where kf: "kf \<in> set (filters fm)" "dispatcher (snd kf) = Some d" by auto
    with eff set no show ?thesis by (auto simp: filters_on.same_at_def)
  next
    case False
    with eff set show ?thesis by (auto simp: filters_on.same_at_def)
  qed
  with eff set r show ?thesis by (fastforce simp: filters_on.took_def offered_def)
qed

text \<open>
  C18. \<open>Queue\<close> of the manager, in whatever order the map is iterated: each filter that
  admits the message has it put at the end of its dispatcher's channel, or counted as
  dropped there if the channel is full, exactly once; all other dispatchers are as before; the
  event type is counted once; and the call returns.
\<close>

theorem manager_fanout:
  assumes "mset (order (filters fm)) = mset (filters fm)"
    and "distinct (map (dispatcher \<circ> snd) (filters fm))"
    and "\<forall>kf \<in> set (filters fm). \<exists>d. dispatcher (snd kf) = Some d \<and> open_at qs d"
    and "m_logger fm \<noteq> None" and "m_metrics fm \<noteq> None"
    and "Manager_Queue event_type order matches enqueue_at fm (Some m) (evs, qs) = (r, evs', qs')"
  shows "r = Inr () \<and> evs' = evs @ [event_type m]
     \<and> (\<forall>kf \<in> set (filters fm). \<forall>d. dispatcher (snd kf) = Some d \<and> admits matches (snd kf) m \<longrightarrow>
          backlog_at qs' d = (if room_at qs d then backlog_at qs d @ [Some m] else backlog_at qs d)
          \<and> dropped_at qs' d = (if room_at qs d then dropped_at qs d else Suc (dropped_at qs d)))
     \<and> (\<forall>d. (\<forall>kf \<in> set (filters fm). dispatcher (snd kf) = Some d \<longrightarrow> \<not> admits matches (snd kf) m) \<longrightarrow>
          backlog_at qs' d = backlog_at qs d \<and> dropped_at qs' d = dropped_at qs d)"
  using fanout_effect [OF assms] unfolding offered_def .

definition sample_manager :: "(string, nat, nat) BaseFilterManager" where
  "sample_manager = empty_manager\<lparr>m_logger := Some (), m_metrics := Some (),
     filters := [(''s'', sample_built), (''t'', sample_built\<lparr>dispatcher := Some 1, eventMatchers := [''other'']\<rparr>)]\<rparr>"

definition two_queues :: "msg MyQueue list" where
  "two_queues = [delivery_queue, delivery_queue]"

theorem manager_fanout_witness:
  "\<exists>qs'. Manager_Queue (\<lambda>m. ''online'') rev (=) enqueue_at sample_manager (Some sample_message)
       ([], two_queues) = (Inr (), [''online''], qs')
     \<and> backlog_at qs' 0 = [Some sample_message] \<and> backlog_at qs' 1 = []"
proof -
  obtain r evs' qs' where run: "Manager_Queue (\<lambda>m. ''online'') rev (=) enqueue_at sample_manager
      (Some sample_message) ([], two_queues) = (r, evs', qs')" by (metis surj_pair)
  have open2: "open_at two_queues 0" "open_at two_queues 1"
    by (simp_all add: open_at_def two_queues_def delivery_queue_def items_chan_def make_chan_def)
  have fs: "filters sample_manager = [(''s'', sample_built),
      (''t'', sample_built\<lparr>dispatcher := Some 1, eventMatchers := [''other'']\<rparr>)]"
    "dispatcher sample_built = Some 0" "m_logger sample_manager \<noteq> None" "m_metrics sample_manager \<noteq> None"
    by (simp_all add: sample_manager_def sample_built_def)
  have adm: "admits (=) sample_built sample_message"
    "\<not> admits (=) (sample_built\<lparr>dispatcher := Some 1, eventMatchers := [''other'']\<rparr>) sample_message"
    by (simp_all add: admits_def sample_built_def sample_fc_def sample_message_def TrimPrefix_def
        event_prefix_def)
  have eff: "r = Inr () \<and> evs' = [] @ [''online'']
     \<and> (\<forall>kf \<in> set (filters sample_manager). \<forall>d. dispatcher (snd kf) = Some d \<and> admits (=) (snd kf) sample_message \<longrightarrow>
          backlog_at qs' d = (if room_at two_queues d then backlog_at two_queues d @ [Some sample_message]
            else backlog_at two_queues d)
          \<and> dropped_at qs' d = (if room_at two_queues d then dropped_at two_queues d
            else Suc (dropped_at two_queues d)))
     \<and> (\<forall>d. (\<forall>kf \<in> set (filters sample_manager). dispatcher (snd kf) = Some d \<longrightarrow> \<not> admits (=) (snd kf) sample_message) \<longrightarrow>
          backlog_at qs' d = backlog_at two_queues d \<and> dropped_at qs' d = dropped_at two_queues d)"
    by (rule manager_fanout [OF _ _ _ _ _ run]) (use fs open2 in auto)
  then have "backlog_at qs' 1 = []"
    using fs adm by (auto simp: two_queues_def backlog_at_def delivery_queue_def items_chan_def make_chan_def)
  moreover have "backlog_at qs' 0 = [Some sample_message]"
    using eff fs adm by (auto simp: two_queues_def backlog_at_def room_at_def has_room_def
        delivery_queue_def items_chan_def make_chan_def)
  ultimately show ?thesis using run eff by auto
qed

section \<open>A panic in one filter\<close>

text \<open>
  C27. When the dispatcher of a filter that admits the message has a closed channel with
  room, the call of \<open>Queue\<close> returns normally, but the filters after it in the iteration are
  not offered the message at all.
\<close>

theorem panic_skips_rest:
  assumes "order (filters fm) = pre @ (k, f) # post"
    and "queue_all matches enqueue_at pre m qs = (Inr (), qs1)"
    and "admits matches f m" and "dispatcher f = Some d" and "d < length qs1"
    and "has_room (qs1 ! d)" and "cclosed (items_chan (qs1 ! d))"
    and "m_logger fm \<noteq> None" and "m_metrics fm \<noteq> None"
  shows "Manager_Queue event_type order matches enqueue_at fm (Some m) (evs, qs) =
     (Inr (), evs @ [event_type m], qs1)"
proof -
  have "enqueue_at d (Some m) qs1 = (Inl SendOnClosedChannel, qs1)"
    using assms(5-7) by (simp add: enqueue_at_def dispatcher_Queue_def AddItem_def chan_send_def
        items_chan_def Let_def)
  then have stop: "queue_all matches enqueue_at ((k, f) # post) m qs1 = (Inl SendOnClosedChannel, qs1)"
    using assms(3,4) by (simp add: Queue_Some)
  have "queue_all matches enqueue_at (pre @ (k, f) # post) m qs = (Inl SendOnClosedChannel, qs1)"
    using assms(2) stop
    by (induction pre arbitrary: qs) (auto split: prod.splits sum.splits)
  then show ?thesis using assms by (auto simp: Manager_Queue_def Let_def)
qed

definition closed_queue :: "msg MyQueue" where
  "closed_queue = delivery_queue\<lparr>heap := [(make_chan 1)\<lparr>cclosed := True\<rparr>]\<rparr>"

definition both_admit :: "(string, nat, nat) BaseFilterManager" where
  "both_admit = sample_manager\<lparr>filters := [(''s'', sample_built), (''t'', sample_built\<lparr>dispatcher := Some 1\<rparr>)]\<rparr>"

theorem panic_skips_rest_witness:
  "Manager_Queue (\<lambda>m. ''online'') (\<lambda>fs. fs) (=) enqueue_at both_admit (Some sample_message)
     ([], [closed_queue, delivery_queue]) = (Inr (), [''online''], [closed_queue, delivery_queue])"
proof -
  have adm: "admits (=) sample_built sample_message"
    by (simp add: admits_def sample_built_def sample_fc_def sample_message_def TrimPrefix_def
        event_prefix_def)
  show ?thesis
    using panic_skips_rest [of "\<lambda>fs. fs" both_admit "[]" "''s''" sample_built
        "[(''t'', sample_built\<lparr>dispatcher := Some 1\<rparr>)]" "(=)" sample_message
        "[closed_queue, delivery_queue]" "[closed_queue, delivery_queue]" 0 "\<lambda>m. ''online''" "[]"] adm
    by (simp add: both_admit_def sample_manager_def closed_queue_def has_room_def items_chan_def
        make_chan_def delivery_queue_def sample_built_def)
qed

section \<open>Loading the filters\<close>

lemma New_filter_either: "New_filter lower compile ff c h \<noteq> (Inr (None, None), h')"
  by (auto simp: New_filter_def Let_def split: prod.splits sum.splits option.splits)

text \<open>The last configuration of a name.\<close>

fun last_config :: "string \<Rightarrow> FilterConfig list \<Rightarrow> FilterConfig option" where
  "last_config k [] = None"
| "last_config k (c # cs) =
    (case last_config k cs of
       None \<Rightarrow> if StreamName (Stream_c c) = k then Some c else None | Some c' \<Rightarrow> Some c')"

lemma load_loop_Cons:
  "load_loop lower compile ff (c # cs) fs h = (Inr (gs, None), h') \<Longrightarrow>
     \<exists>f h1. New_filter lower compile ff c h = (Inr (Some f, None), h1)
      \<and> load_loop lower compile ff cs (AList.update (StreamName (Stream_c c)) f fs) h1 = (Inr (gs, None), h')"
  by (auto simp: New_filter_either split: prod.splits sum.splits option.splits)

lemma load_loop_filters:
  assumes "load_loop lower compile ff cs fs h = (Inr (gs, None), h')"
  shows "case last_config k cs of
       None \<Rightarrow> map_of gs k = map_of fs k
     | Some c \<Rightarrow> \<exists>f h1 h2. map_of gs k = Some f \<and> New_filter lower compile ff c h1 = (Inr (Some f, None), h2)"
    and "distinct (map fst fs) \<Longrightarrow> distinct (map fst gs)"
  using assms
proof (induction cs arbitrary: fs h)
  case Nil
  { case 1 then show ?case by simp }
  { case 2 then show ?case by simp }
next
  case (Cons c cs)
  { case 1
    from load_loop_Cons [OF this] obtain f h1 where
      "New_filter lower compile ff c h = (Inr (Some f, None), h1)"
      "load_loop lower compile ff cs (AList.update (StreamName (Stream_c c)) f fs) h1 = (Inr (gs, None), h')"
      by blast
    with Cons.IH(1) [OF this(2)] show ?case
      by (cases "last_config k cs") (auto simp: update_conv) }
  { case 2
    with load_loop_Cons [OF 2(2)] Cons.IH(2) show ?case by (blast intro: distinct_update) }
qed

text \<open>
  C26. When the filters load without an error, the manager has one filter for each stream
  name that is configured and no other, made from the last configuration of that name. (The
  filter of an earlier configuration of the same name is replaced, but the queue its
  dispatcher started is not shut down.)
\<close>

theorem loadFilters_last_wins:
  assumes "loadFilters lower compile fm h = (Inr (fm', None), h')" and "filters fm = []"
  shows "distinct (map fst (filters fm'))
     \<and> (case last_config k (filterConfig fm) of
          None \<Rightarrow> map_of (filters fm') k = None
        | Some c \<Rightarrow> \<exists>f h1 h2. map_of (filters fm') k = Some f
            \<and> New_filter lower compile (filter_factory fm) c h1 = (Inr (Some f, None), h2))"
proof -
  have l: "load_loop lower compile (filter_factory fm) (filterConfig fm) [] h = (Inr (filters fm', None), h')"
    using assms by (auto simp: loadFilters_def split: prod.splits sum.splits)
  show ?thesis using load_loop_filters(2) [OF l] load_loop_filters(1) [OF l, of k]
    by (simp split: option.splits)
qed

definition loading_manager :: "(string, nat, nat) BaseFilterManager" where
  "loading_manager = empty_manager\<lparr>m_logger := Some (), filterConfig := [sample_fc, sample_fc],
     m_defaultQueueSize := 5, m_defaultMaxWorkers := 6, m_defaultBatchSize := 7,
     m_deliveryRetries := 4, filterMetrics := Some (), dispatchProvider := DispatcherProvider sample_ff\<rparr>"

theorem loadFilters_last_wins_witness:
  "\<exists>fm'. loadFilters (\<lambda>r. r) exact loading_manager 0 = (Inr (fm', None), 2)
     \<and> (\<exists>f. map_of (filters fm') ''s'' = Some f) \<and> map_of (filters fm') ''t'' = None"
proof -
  have ff: "filter_factory loading_manager = sample_ff"
    by (simp add: filter_factory_def loading_manager_def sample_ff_def empty_manager_def)
  have new: "\<exists>f. New_filter (\<lambda>r. r) exact sample_ff sample_fc h = (Inr (Some f, None), Suc h)" for h
    by (simp add: New_filter_def Let_def configureDispatcher_def configureMatchers_def
        sample_ff_def sample_fc_def exact_def kinesis_parses initial_filter_def)
  obtain f where f: "New_filter (\<lambda>r. r) exact sample_ff sample_fc 0 = (Inr (Some f, None), Suc 0)"
    using new by blast
  obtain g where g: "New_filter (\<lambda>r. r) exact sample_ff sample_fc (Suc 0) = (Inr (Some g, None), Suc (Suc 0))"
    using new by blast
  have c: "filterConfig loading_manager = [sample_fc, sample_fc]" "filters loading_manager = []"
    by (simp_all add: loading_manager_def empty_manager_def)
  obtain fm' where l: "loadFilters (\<lambda>r. r) exact loading_manager 0 = (Inr (fm', None), 2)"
    by (simp add: loadFilters_def ff c f g)
  from loadFilters_last_wins [OF l c(2), of "''s''"] loadFilters_last_wins [OF l c(2), of "''t''"] l
  show ?thesis by (auto simp: c(1) sample_fc_def split: option.splits)
qed

end
