(* ===== verification/Filter_Module.thy ===== *)
theory Filter_Module
  imports Manager_Properties
begin

text \<open>
  How the filters are put together (\<open>filter/filter_module.go\<close>): from the configuration of
  the filter manager, the module makes the Kinesis provider, the sender factory, the queue
  factory and the dispatcher factory, and the manager on top of them.

  The options library is a parameter for each factory: its \<open>Apply\<close> and \<open>Required\<close>.
  Its documented behaviour (\<open>honours_opts\<close>) is that \<open>Apply\<close> runs the options in order
  and stops at the first error, and that an option declared by name or by type sets its field.
\<close>

section \<open>The options library\<close>

type_synonym ('o, 's) options = "('o, 's) apply_fun \<times> ('o, 's) required_fun"

fun apply_each :: "('o \<Rightarrow> 's \<Rightarrow> 's \<times> go_err option) \<Rightarrow> ('o, 's) apply_fun" where
  "apply_each step [] s = (s, None)"
| "apply_each step (opt # opts) s =
     (case step opt s of (s', Some e) \<Rightarrow> (s', Some e) | (s', None) \<Rightarrow> apply_each step opts s')"

definition honours_opts :: "('o, 's) apply_fun \<Rightarrow> ('o \<Rightarrow> 's \<Rightarrow> 's) \<Rightarrow> bool" where
  "honours_opts ap put \<longleftrightarrow> (\<forall>opts s. ap opts s = apply_each (\<lambda>opt s. (put opt s, None)) opts s)"

lemma apply_each_put: "apply_each (\<lambda>opt s. (put opt s, None)) opts s = (fold put opts s, None)"
  by (induction opts arbitrary: s) auto

lemma honours_opts_fold: "honours_opts ap put \<Longrightarrow> ap opts s = (fold put opts s, None)"
  by (simp add: honours_opts_def apply_each_put)

text \<open>The fields the options of the factories are declared for.\<close>

fun put_sender_option :: "('k, 'c) sender_option \<Rightarrow> ('k, 'c) SenderFactory \<Rightarrow> ('k, 'c) SenderFactory" where
  "put_sender_option (WithLogger_f l) sf = sf\<lparr>logger_f := l\<rparr>"
| "put_sender_option (WithKinesisProvider p) sf = sf\<lparr>kinesisProvider := p\<rparr>"

fun put_queue_factory_option :: "queue_factory_option \<Rightarrow> QueueFactory \<Rightarrow> QueueFactory" where
  "put_queue_factory_option (WithQueueTelemetry t) qf = qf\<lparr>qf_t := t\<rparr>"
| "put_queue_factory_option (WithQueueLogger l) qf = qf\<lparr>qf_logger := l\<rparr>"

fun put_dispatcher_option :: "('s, 'h) dispatcher_option \<Rightarrow> ('s, 'h) DispatcherFactory
    \<Rightarrow> ('s, 'h) DispatcherFactory \<times> go_err option" where
  "put_dispatcher_option (WithDispatchLogger l) df = (df\<lparr>df_logger := l\<rparr>, None)"
| "put_dispatcher_option (WithDispatchMetrics m) df = (df\<lparr>df_metrics := m\<rparr>, None)"
| "put_dispatcher_option (WithSenderProvider sp) df = (df\<lparr>senderProvider := sp\<rparr>, None)"
| "put_dispatcher_option (WithQueueProvider qp) df = (df\<lparr>queueProvider := qp\<rparr>, None)"
| "put_dispatcher_option (WithRetries n) df = (df\<lparr>df_retries := n\<rparr>, None)"

fun put_manager_option :: "('re, 'd, 'h) manager_option \<Rightarrow> ('re, 'd, 'h) BaseFilterManager
    \<Rightarrow> ('re, 'd, 'h) BaseFilterManager" where
  "put_manager_option (WithDispatchProvider p) fm = fm\<lparr>dispatchProvider := p\<rparr>"
| "put_manager_option (WithFilters cs) fm = fm\<lparr>filterConfig := cs\<rparr>"
| "put_manager_option (WithDeliveryRetries n) fm = fm\<lparr>m_deliveryRetries := n\<rparr>"
| "put_manager_option (WithLogger_m l) fm = fm\<lparr>m_logger := l\<rparr>"
| "put_manager_option (WithFilterMetrics m) fm = fm\<lparr>filterMetrics := m\<rparr>"
| "put_manager_option (WithFilterManagerMetrics m) fm = fm\<lparr>m_metrics := m\<rparr>"
| "put_manager_option (WithDefaultQueueSize n) fm = fm\<lparr>m_defaultQueueSize := n\<rparr>"
| "put_manager_option (WithDefaultBatchSize n) fm = fm\<lparr>m_defaultBatchSize := n\<rparr>"
| "put_manager_option (WithDefaultWorkers n) fm = fm\<lparr>m_defaultMaxWorkers := n\<rparr>"

section \<open>The module\<close>

text \<open>The module of the sender factory (\<open>sender_module.go\<close>), which the program does not use.\<close>

definition SenderModule :: "(('k, 'c) sender_option, ('k, 'c) SenderFactory) options
    \<Rightarrow> (kinesis_option, 'k KinesisClient) options \<Rightarrow> ('k, 'c) aws \<Rightarrow> logger
    \<Rightarrow> ('k, 'c) SenderFactory option \<times> go_err option" where
  "SenderModule lib kinesis_lib aws logger =
     NewSenderFactory (fst lib) (snd lib)
       [WithLogger_f logger,
        WithKinesisProvider (NewKinesisProvider (fst kinesis_lib) (snd kinesis_lib) aws)]"

record FilterManagerConfig =
  c_DeliveryRetries :: int
  c_Filters :: "FilterConfig list"
  c_DefaultQueueSize :: int
  c_DefaultBatchSize :: int
  c_DefaultMaxWorkers :: int

record FilterManagerIn =
  in_Logger :: logger
  in_FilterManager :: FilterManagerConfig
  in_FilterMetrics :: "unit option"
  in_FilterManagerMetrics :: "unit option"
  in_QueueMetrics :: "unit option"

text \<open>
  The dispatchers the manager works with are those that \<open>GetDispatcher\<close> builds. The
  parameters of the module: the options library for each factory, the Kinesis service,
  the constructor of retry runners, the lower-case table and the regular expressions.
\<close>

type_synonym ('k, 'r) program_dispatcher = "(('k, 'r) KinesisSender, msg) built_dispatcher"
type_synonym ('re, 'k, 'c, 'r) program_manager =
  "('re, ('k, 'r) program_dispatcher, ('k, 'c) history) BaseFilterManager"
type_synonym ('k, 'c, 'r) program_factory = "(('k, 'r) KinesisSender, ('k, 'c) history) DispatcherFactory"

record ('re, 'k, 'c, 'r) libraries =
  l_kinesis :: "(kinesis_option, 'k KinesisClient) options"
  l_sender :: "(('k, 'c) sender_option, ('k, 'c) SenderFactory) options"
  l_queue :: "(queue_factory_option, QueueFactory) options"
  l_dispatcher :: "((('k, 'r) KinesisSender, ('k, 'c) history) dispatcher_option
      \<Rightarrow> ('k, 'c, 'r) program_factory \<Rightarrow> ('k, 'c, 'r) program_factory \<times> go_err option)
    \<Rightarrow> ((('k, 'r) KinesisSender, ('k, 'c) history) dispatcher_option, ('k, 'c, 'r) program_factory) apply_fun"
  l_dispatcher_required ::
    "((('k, 'r) KinesisSender, ('k, 'c) history) dispatcher_option, ('k, 'c, 'r) program_factory) required_fun"
  l_manager :: "(('re, ('k, 'r) program_dispatcher, ('k, 'c) history) manager_option,
      ('re, 'k, 'c, 'r) program_manager) options"
  l_aws :: "('k, 'c) aws"
  l_runner :: "retry_config \<Rightarrow> 'r \<times> go_err option"
  l_lower :: "nat \<Rightarrow> nat"
  l_compile :: "string \<Rightarrow> 're option"

definition dispatcher_opts :: "FilterManagerIn \<Rightarrow> QueueFactory option
    \<Rightarrow> ('s, 'h) sender_provider option \<Rightarrow> ('s, 'h) dispatcher_option list" where
  "dispatcher_opts i qp sp =
     [WithQueueProvider qp, WithSenderProvider sp,
      WithDispatchLogger (in_Logger i), WithDispatchMetrics (in_FilterMetrics i)]"

definition manager_opts :: "FilterManagerIn \<Rightarrow> ('re, 'd, 'h) dispatcher_provider option
    \<Rightarrow> ('re, 'd, 'h) manager_option list" where
  "manager_opts i dp =
     [WithDeliveryRetries (c_DeliveryRetries (in_FilterManager i)), WithLogger_m (in_Logger i),
      WithFilterMetrics (in_FilterMetrics i), WithFilterManagerMetrics (in_FilterManagerMetrics i),
      WithFilters (c_Filters (in_FilterManager i)),
      WithDefaultBatchSize (c_DefaultBatchSize (in_FilterManager i)),
      WithDefaultQueueSize (c_DefaultQueueSize (in_FilterManager i)),
      WithDefaultWorkers (c_DefaultMaxWorkers (in_FilterManager i)),
      WithDeliveryRetries (c_DeliveryRetries (in_FilterManager i)),
      WithDispatchProvider dp]"

text \<open>An error anywhere is returned without a manager, also one of \<open>New\<close>, which has one.\<close>

definition FilterModule :: "('re, 'k, 'c, 'r) libraries \<Rightarrow> FilterManagerIn \<Rightarrow> ('k, 'c) history
    \<Rightarrow> (go_panic + ('re, 'k, 'c, 'r) program_manager option \<times> go_err option) \<times> ('k, 'c) history" where
  "FilterModule l i h =
     (let kp = NewKinesisProvider (fst (l_kinesis l)) (snd (l_kinesis l)) (l_aws l) in
      case NewSenderFactory (fst (l_sender l)) (snd (l_sender l))
             [WithLogger_f (in_Logger i), WithKinesisProvider kp] of
        (_, Some e) \<Rightarrow> (Inr (None, Some e), h)
      | (sp, None) \<Rightarrow>
      (case NewQueueFactory (fst (l_queue l)) (snd (l_queue l))
             [WithQueueLogger (in_Logger i), WithQueueTelemetry (in_QueueMetrics i)] of
        (_, Some e) \<Rightarrow> (Inr (None, Some e), h)
      | (qp, None) \<Rightarrow>
      (case NewDispatcherFactory (l_dispatcher l) put_dispatcher_option (l_dispatcher_required l)
             (dispatcher_opts i qp (map_option (GetSender (l_runner l)) sp)) of
        (_, Some e) \<Rightarrow> (Inr (None, Some e), h)
      | (dp, None) \<Rightarrow>
      (case New_manager (fst (l_manager l)) (snd (l_manager l)) (l_lower l) (l_compile l)
             (manager_opts i (map_option GetDispatcher dp)) h of
        (Inl p, h') \<Rightarrow> (Inl p, h')
      | (Inr (_, Some e), h') \<Rightarrow> (Inr (None, Some e), h')
      | (Inr (manager, None), h') \<Rightarrow> (Inr (manager, None), h')))))"

end
