(* ===== verification/Module_Properties.thy ===== *)
theory Module_Properties
  imports Filter_Module
begin

text \<open>
  What the module puts together: dispatchers with well-formed senders, the number of
  retries they really get, and delivery from the configuration to the service.
\<close>

section \<open>Senders of the program\<close>

text \<open>
  A sender with a client that has a service handle and a runner made for \<open>n\<close> retries.
\<close>

definition wired :: "(retry_config \<Rightarrow> 'r \<times> go_err option) \<Rightarrow> int \<Rightarrow> ('k, 'r) KinesisSender option \<Rightarrow> bool" where
  "wired new_runner n s \<longleftrightarrow> (case s of None \<Rightarrow> False
     | Some x \<Rightarrow> sender_ok x \<and> retries_s x = n
         \<and> new_runner \<lparr>Interval = 10 * 10 ^ 6, MaxRetries = n\<rparr> = (putRunner x, None))"

lemma NewKinesisSender_wired:
  assumes "NewKinesisSender new_runner retries config logger (NewKinesisProvider ap rq aws) h = (Inr (s, None), h')"
  shows "wired new_runner (if retries \<le> 0 then 3 else retries) s"
  using assms
  by (auto simp: NewKinesisSender_def NewKinesisProvider_def KinesisFactory_Get_def Let_def Retries_def
      sender_ok_def wired_def split: if_splits prod.splits option.splits dest!: New_k_ok)

lemma GetSender_wired:
  assumes "GetSender new_runner sf retries dest config h = (Inr (s, None), h')"
    and "kinesisProvider sf = NewKinesisProvider ap rq aws"
  shows "wired new_runner (if retries \<le> 0 then 3 else retries) s"
proof (rule NewKinesisSender_wired)
  show "NewKinesisSender new_runner retries config (logger_f sf) (NewKinesisProvider ap rq aws) h
      = (Inr (s, None), h')"
    using assms by (auto simp: GetSender_def getKinesisSender_def split: if_splits)
qed

lemma sender_calls_all:
  assumes "\<And>config h1 s h2. get retries dest config h1 = (Inr (s, None), h2) \<Longrightarrow> P s"
    and "sender_calls get retries dest sts ss h h'"
  shows "list_all P ss"
  using assms(2)
proof (induction sts arbitrary: ss h)
  case Nil
  then show ?case by (cases ss) auto
next
  case (Cons st sts)
  then show ?case by (cases ss) (auto dest: assms(1))
qed

section \<open>What the module returns\<close>

definition honours_libraries :: "('re, 'k, 'c, 'r) libraries \<Rightarrow> bool" where
  "honours_libraries l \<longleftrightarrow> honours_opts (fst (l_sender l)) put_sender_option
     \<and> honours_opts (fst (l_queue l)) put_queue_factory_option
     \<and> (\<forall>step opts s. l_dispatcher l step opts s = apply_each step opts s)
     \<and> honours_opts (fst (l_manager l)) put_manager_option"

definition program_sf :: "('re, 'k, 'c, 'r) libraries \<Rightarrow> FilterManagerIn \<Rightarrow> ('k, 'c) SenderFactory" where
  "program_sf l i = \<lparr>logger_f = in_Logger i,
     kinesisProvider = NewKinesisProvider (fst (l_kinesis l)) (snd (l_kinesis l)) (l_aws l)\<rparr>"

definition program_df :: "('re, 'k, 'c, 'r) libraries \<Rightarrow> FilterManagerIn
    \<Rightarrow> (('k, 'r) KinesisSender, ('k, 'c) history) DispatcherFactory" where
  "program_df l i = \<lparr>senderProvider = Some (GetSender (l_runner l) (program_sf l i)),
     queueProvider = Some \<lparr>qf_t = in_QueueMetrics i, qf_logger = in_Logger i\<rparr>, df_retries = 0,
     df_logger = in_Logger i, df_metrics = in_FilterMetrics i\<rparr>"

definition program_fm :: "('re, 'k, 'c, 'r) libraries \<Rightarrow> FilterManagerIn \<Rightarrow> ('re, 'k, 'c, 'r) program_manager" where
  "program_fm l i = \<lparr>dispatchProvider = Some (GetDispatcher (program_df l i)),
     m_deliveryRetries = c_DeliveryRetries (in_FilterManager i), m_logger = in_Logger i, filters = [],
     m_metrics = in_FilterManagerMetrics i, filterMetrics = in_FilterMetrics i, m_wg = 1,
     shutdown_closed = False, filterConfig = c_Filters (in_FilterManager i),
     m_defaultQueueSize = c_DefaultQueueSize (in_FilterManager i),
     m_defaultBatchSize = c_DefaultBatchSize (in_FilterManager i),
     m_defaultMaxWorkers = c_DefaultMaxWorkers (in_FilterManager i)\<rparr>"

lemma FilterModule_loads:
  assumes "honours_libraries l" and "FilterModule l i h = (Inr (r, None), h')"
  shows "\<exists>fm. r = Some fm
     \<and> loadFilters (l_lower l) (l_compile l) (program_fm l i) h = (Inr (fm, None), h')"
proof -
  note laws = assms(1) [unfolded honours_libraries_def]
  let ?sf = "NewSenderFactory (fst (l_sender l)) (snd (l_sender l)) [WithLogger_f (in_Logger i),
      WithKinesisProvider (NewKinesisProvider (fst (l_kinesis l)) (snd (l_kinesis l)) (l_aws l))]"
  have sf: "?sf = (Some (program_sf l i), None) \<or> (\<exists>e. ?sf = (None, Some e))"
    using laws honours_opts_fold [of "fst (l_sender l)" put_sender_option]
    by (auto simp: NewSenderFactory_def program_sf_def split: option.splits)
  let ?q = "\<lparr>qf_t = in_QueueMetrics i, qf_logger = in_Logger i\<rparr>"
  let ?qf = "NewQueueFactory (fst (l_queue l)) (snd (l_queue l))
      [WithQueueLogger (in_Logger i), WithQueueTelemetry (in_QueueMetrics i)]"
  have qf: "?qf = (Some ?q, None) \<or> (\<exists>e. ?qf = (None, Some e))"
    using laws honours_opts_fold [of "fst (l_queue l)" put_queue_factory_option]
    by (auto simp: NewQueueFactory_def split: option.splits)
  let ?df = "NewDispatcherFactory (l_dispatcher l) put_dispatcher_option (l_dispatcher_required l)
      (dispatcher_opts i (Some ?q) (Some (GetSender (l_runner l) (program_sf l i))))"
  have df: "?df = (Some (program_df l i), None) \<or> (\<exists>e. ?df = (None, Some e))"
    using laws by (auto simp: NewDispatcherFactory_def dispatcher_opts_def empty_dispatcher_factory_def
        program_df_def split: option.splits)
  let ?m = "New_manager (fst (l_manager l)) (snd (l_manager l)) (l_lower l) (l_compile l)
      (manager_opts i (Some (GetDispatcher (program_df l i)))) h"
  have m: "\<exists>fm. r = Some fm \<and> loadFilters (l_lower l) (l_compile l) (program_fm l i) h = (Inr (fm, None), h')"
    if "?m = (Inr (r, None), h')"
    using that laws honours_opts_fold [of "fst (l_manager l)" put_manager_option]
    by (auto simp: New_manager_def manager_opts_def empty_manager_def program_fm_def
        split: option.splits sum.splits prod.splits)
  show ?thesis
  proof (rule m)
    show "?m = (Inr (r, None), h')"
      using assms(2) sf qf df by (auto simp: FilterModule_def Let_def split: sum.splits prod.splits option.splits)
  qed
qed

lemma GetDispatcher_Some:
  assumes "senderProvider df = Some get" and "queueProvider df = Some qf"
    and "GetDispatcher df f dest sts h = (Inr (d, None), h')"
  shows "\<exists>b. d = Some b \<and> sender_calls get (df_retries df) dest sts (b_senders b) h h'
     \<and> length (b_senders b) = length sts \<and> b_dispatcher b = \<lparr>d_id = f_id f, streams = sts\<rparr>
     \<and> GetQueue qf (f_id f) (f_queueSize f) (f_batchSize f) (f_maxWorkers f) (Some (b_dispatcher b))
         = (Some (b_queue b), None)"
  using assms
  by (auto simp: GetDispatcher_def Let_def dest!: get_senders_calls
      split: prod.splits sum.splits option.splits)

text \<open>The filters of the program: their dispatchers are what the factory built for the last
  configuration of the name.\<close>

definition program_filter :: "('re, 'k, 'c, 'r) libraries \<Rightarrow> FilterManagerIn \<Rightarrow> FilterConfig
    \<Rightarrow> ('re, ('k, 'r) program_dispatcher) BaseFilter \<Rightarrow> ('k, 'r) program_dispatcher \<Rightarrow> bool" where
  "program_filter l i c f b \<longleftrightarrow> dispatcher f = Some b
     \<and> b_dispatcher b = \<lparr>d_id = f_id f, streams = Stream_c c # AltStreams c\<rparr>
     \<and> length (b_senders b) = length (Stream_c c # AltStreams c)
     \<and> list_all (wired (l_runner l) 3) (b_senders b)
     \<and> deliveryRetries f = c_DeliveryRetries (in_FilterManager i)
     \<and> NewQueue \<lparr>q_Name = f_id f, ChannelSize = f_queueSize f, WorkerPoolSize = f_maxWorkers f,
          BatchSize = f_batchSize f, BatchTimeLimitSeconds = 0, SubmitOnEmptyQueue = False\<rparr>
          (in_QueueMetrics i) (in_Logger i) (Some (b_dispatcher b)) = (Some (b_queue b), None)"

lemma program_filters:
  assumes "honours_libraries l" and "FilterModule l i h = (Inr (Some fm, None), h')"
    and "(k, f) \<in> set (filters fm)"
  shows "\<exists>c b. last_config k (c_Filters (in_FilterManager i)) = Some c \<and> program_filter l i c f b
     \<and> (\<forall>matches m. admits matches f m \<longleftrightarrow> selects (l_compile l) matches c m)"
proof -
  from FilterModule_loads [OF assms(1,2)] have
    ld: "load_loop (l_lower l) (l_compile l) (filter_factory (program_fm l i)) (c_Filters (in_FilterManager i)) [] h
      = (Inr (filters fm, None), h')"
    by (auto simp: loadFilters_def program_fm_def split: prod.splits sum.splits)
  have "distinct (map fst (filters fm))" using load_loop_filters(2) [OF ld] by simp
  with assms(3) have f: "map_of (filters fm) k = Some f" by simp
  with load_loop_filters(1) [OF ld, of k] obtain c h1 h2 where
    c: "last_config k (c_Filters (in_FilterManager i)) = Some c"
      "New_filter (l_lower l) (l_compile l) (filter_factory (program_fm l i)) c h1 = (Inr (Some f, None), h2)"
    by (auto split: option.splits)
  let ?f = "configureQueue (filter_factory (program_fm l i)) (initial_filter (filter_factory (program_fm l i)) c) c"
  from New_filter_Some [OF c(2)] obtain dest d where
    get: "GetDispatcher (program_df l i) ?f dest (Stream_c c # AltStreams c) h1 = (Inr (d, None), h2)"
    and fd: "dispatcher f = d" "f_id f = f_id ?f" "f_queueSize f = f_queueSize ?f"
      "f_batchSize f = f_batchSize ?f" "f_maxWorkers f = f_maxWorkers ?f"
      "deliveryRetries f = c_DeliveryRetries (in_FilterManager i)"
    by (auto simp: built_def filter_factory_def program_fm_def initial_filter_def)
  have sp: "senderProvider (program_df l i) = Some (GetSender (l_runner l) (program_sf l i))"
    "queueProvider (program_df l i) = Some \<lparr>qf_t = in_QueueMetrics i, qf_logger = in_Logger i\<rparr>"
    "df_retries (program_df l i) = 0" by (simp_all add: program_df_def)
  from GetDispatcher_Some [OF sp(1,2) get] obtain b where b: "d = Some b"
      "sender_calls (GetSender (l_runner l) (program_sf l i)) 0 dest (Stream_c c # AltStreams c) (b_senders b) h1 h2"
      "length (b_senders b) = length (Stream_c c # AltStreams c)"
      "b_dispatcher b = \<lparr>d_id = f_id ?f, streams = Stream_c c # AltStreams c\<rparr>"
      "GetQueue \<lparr>qf_t = in_QueueMetrics i, qf_logger = in_Logger i\<rparr> (f_id ?f) (f_queueSize ?f) (f_batchSize ?f)
         (f_maxWorkers ?f) (Some (b_dispatcher b)) = (Some (b_queue b), None)"
    by (auto simp: sp(3))
  have "list_all (wired (l_runner l) 3) (b_senders b)"
  proof (rule sender_calls_all [OF _ b(2)])
    fix config h1 s h2
    assume "GetSender (l_runner l) (program_sf l i) 0 dest config h1 = (Inr (s, None), h2)"
    from GetSender_wired [OF this] show "wired (l_runner l) 3 s" by (simp add: program_sf_def)
  qed
  with b fd c(1) show ?thesis
    using New_filter_admits [OF c(2)]
    by (intro exI [of _ c] exI [of _ b]) (simp add: program_filter_def GetQueue_def)
qed

lemma FilterModule_manager:
  assumes "honours_libraries l" and "FilterModule l i h = (Inr (Some fm, None), h')"
  shows "m_logger fm = in_Logger i" "m_metrics fm = in_FilterManagerMetrics i"
    "distinct (map fst (filters fm))"
proof -
  from FilterModule_loads [OF assms] obtain fs where
    ld: "load_loop (l_lower l) (l_compile l) (filter_factory (program_fm l i)) (c_Filters (in_FilterManager i)) [] h
      = (Inr (fs, None), h')" and fm: "fm = (program_fm l i)\<lparr>filters := fs\<rparr>"
    by (auto simp: loadFilters_def program_fm_def split: prod.splits sum.splits)
  then show "m_logger fm = in_Logger i" "m_metrics fm = in_FilterManagerMetrics i"
    by (simp_all add: program_fm_def)
  show "distinct (map fst (filters fm))" using load_loop_filters(2) [OF ld] fm by simp
qed

section \<open>Properties\<close>

text \<open>
  C32. The configured number of delivery retries reaches every filter but no sender: whatever it
  is, each filter of the program has a dispatcher with one sender for each of its streams, and
  every sender has a service handle and retries three times, the sender's own default,
  because the module never passes the number to the dispatcher factory.
\<close>

theorem configured_retries_ignored:
  assumes "honours_libraries l" and "FilterModule l i h = (Inr (Some fm, None), h')"
    and "(k, f) \<in> set (filters fm)"
    and "\<And>cfg r. l_runner l cfg = (r, None) \<Longrightarrow> limit r = nat (MaxRetries cfg)"
  shows "\<exists>b. dispatcher f = Some b
     \<and> deliveryRetries f = c_DeliveryRetries (in_FilterManager i)
     \<and> length (b_senders b) = length (streams (b_dispatcher b))
     \<and> (\<forall>s \<in> set (b_senders b). \<exists>x. s = Some x \<and> sender_ok x \<and> retries_s x = 3 \<and> limit (putRunner x) = 3)"
proof -
  from program_filters [OF assms(1-3)] obtain c b where pf: "program_filter l i c f b" by blast
  have "\<exists>x. s = Some x \<and> sender_ok x \<and> retries_s x = 3 \<and> limit (putRunner x) = 3"
    if "wired (l_runner l) 3 s" for s
    using that assms(4) by (fastforce simp: wired_def split: option.splits)
  with pf show ?thesis
    by (intro exI [of _ b]) (auto simp: program_filter_def list_all_iff)
qed

text \<open>Concrete libraries and configuration.\<close>

definition put_all :: "('o \<Rightarrow> 's \<Rightarrow> 's) \<Rightarrow> ('o, 's) options" where
  "put_all put = (apply_each (\<lambda>opt s. (put opt s, None)), \<lambda>opts s. None)"

definition sample_libs :: "(string, unit, unit, nat) libraries" where
  "sample_libs = \<lparr>l_kinesis = put_all (\<lambda>opt c. c), l_sender = put_all put_sender_option,
     l_queue = put_all put_queue_factory_option, l_dispatcher = apply_each,
     l_dispatcher_required = (\<lambda>opts df. None), l_manager = put_all put_manager_option,
     l_aws = accepting_aws, l_runner = (\<lambda>cfg. (nat (MaxRetries cfg), None)),
     l_lower = (\<lambda>r. r), l_compile = exact\<rparr>"

definition module_fc :: FilterConfig where
  "module_fc = sample_fc\<lparr>Stream_c := \<lparr>StreamName = ''s'',
     ConfigItems = [\<lparr>Key = ''region'', Value = ''local''\<rparr>]\<rparr>, QueueSize := 1, BatchSize_c := 2, MaxWorkers := 1\<rparr>"

definition module_in :: "int \<Rightarrow> FilterManagerIn" where
  "module_in retries = \<lparr>in_Logger = Some (), in_FilterManager = \<lparr>c_DeliveryRetries = retries,
       c_Filters = [module_fc], c_DefaultQueueSize = 5, c_DefaultBatchSize = 7, c_DefaultMaxWorkers = 6\<rparr>,
     in_FilterMetrics = Some (), in_FilterManagerMetrics = Some (), in_QueueMetrics = Some ()\<rparr>"

definition module_sender :: "(unit, nat) KinesisSender" where
  "module_sender = \<lparr>kc = Some (empty_client\<lparr>svc := Some (), credsExpireAt := zero_time\<rparr>),
     schemaVersion = ''1.0'', logger_s = Some (), retries_s = 3, putRunner = 3\<rparr>"

definition module_dispatcher :: "(unit, nat) program_dispatcher" where
  "module_dispatcher = \<lparr>b_dispatcher = \<lparr>d_id = ''s'', streams = [Stream_c module_fc]\<rparr>,
     b_senders = [Some module_sender],
     b_queue = \<lparr>heap = [make_chan 1], items_ref = 0, sem_held = 0, wg = 0,
       cfg = \<lparr>q_Name = ''s'', ChannelSize = 1, WorkerPoolSize = 1, BatchSize = 2,
         BatchTimeLimitSeconds = 15, SubmitOnEmptyQueue = False\<rparr>, started = False, m_queued = 0,
       m_dropped = 0, m_batch = 0, m_errors = 0, m_calls = 0\<rparr>\<rparr>"

lemma sample_libs_honoured: "honours_libraries sample_libs"
  by (simp add: honours_libraries_def honours_opts_def sample_libs_def put_all_def)

lemma sample_module_sender:
  "GetSender (l_runner sample_libs) (program_sf sample_libs (module_in n)) 0 Kinesis_dest
     (GetConfigMap (Stream_c module_fc)) [] = (Inr (Some module_sender, None),
       [LoadCall (local_load_opts (empty_client :: unit KinesisClient))])"
  by (simp add: GetSender_def getKinesisSender_def NewKinesisSender_def program_sf_def sample_libs_def
      NewKinesisProvider_def KinesisFactory_Get_def New_k_def checkRequired_k_def getClient_def
      put_all_def apply_each_put sender_options_def empty_client_def accepting_aws_def module_fc_def
      GetConfigMap_def config_empty_def config_get_def
      key_defs Retries_def SchemaVersion_def Let_def module_in_def module_sender_def)

definition module_filter :: "int \<Rightarrow> (string, (unit, nat) program_dispatcher) BaseFilter" where
  "module_filter n = \<lparr>f_id = ''s'', streamVersion = '''', eventMatchers = Events sample_fc,
     metadataMatchers = None, deliveryRetries = n, f_wg = 1, f_maxWorkers = 1, f_batchSize = 2,
     f_queueSize = 1, dispatcher = Some module_dispatcher, destType = 0\<rparr>"

definition module_history :: "(unit, unit) history" where
  "module_history = [LoadCall (local_load_opts (empty_client :: unit KinesisClient))]"

lemma module_streams: "Stream_c module_fc # AltStreams module_fc = [Stream_c module_fc]"
  by (simp add: module_fc_def sample_fc_def)

lemma sample_module_dispatcher:
  "f_id f = ''s'' \<Longrightarrow> f_queueSize f = 1 \<Longrightarrow> f_batchSize f = 2 \<Longrightarrow> f_maxWorkers f = 1 \<Longrightarrow>
   GetDispatcher (program_df sample_libs (module_in n)) f Kinesis_dest [Stream_c module_fc] []
     = (Inr (Some module_dispatcher, None), module_history)"
  using sample_module_sender [of n]
  by (simp add: GetDispatcher_def program_df_def Let_def GetQueue_def NewQueue_def with_defaults_def
      queue_defaults module_in_def module_dispatcher_def module_history_def)

lemma sample_libs_loads:
  "FilterModule sample_libs i h =
     (case loadFilters (\<lambda>r. r) exact (program_fm sample_libs i) h of
        (Inl p, h') \<Rightarrow> (Inl p, h')
      | (Inr (_, Some e), h') \<Rightarrow> (Inr (None, Some e), h')
      | (Inr (fm, None), h') \<Rightarrow> (Inr (Some fm, None), h'))"
proof -
  have df: "NewDispatcherFactory (l_dispatcher sample_libs) put_dispatcher_option (l_dispatcher_required sample_libs)
      (dispatcher_opts i (Some \<lparr>qf_t = in_QueueMetrics i, qf_logger = in_Logger i\<rparr>)
        (Some (GetSender (l_runner sample_libs) (program_sf sample_libs i)))) = (Some (program_df sample_libs i), None)"
    by (simp add: NewDispatcherFactory_def dispatcher_opts_def empty_dispatcher_factory_def program_df_def
        sample_libs_def)
  have m: "New_manager (fst (l_manager sample_libs)) (snd (l_manager sample_libs)) (\<lambda>r. r) exact
      (manager_opts i (Some (GetDispatcher (program_df sample_libs i)))) h =
      (case loadFilters (\<lambda>r. r) exact (program_fm sample_libs i) h of
         (Inl p, h') \<Rightarrow> (Inl p, h') | (Inr (fm, err), h') \<Rightarrow> (Inr (Some fm, err), h'))"
    by (simp add: New_manager_def put_all_def apply_each_put manager_opts_def empty_manager_def program_fm_def
        sample_libs_def)
  have libs: "l_sender sample_libs = put_all put_sender_option" "l_queue sample_libs = put_all put_queue_factory_option"
    "l_lower sample_libs = (\<lambda>r. r)" "l_compile sample_libs = exact" by (simp_all add: sample_libs_def)
  show ?thesis
    by (simp add: FilterModule_def Let_def libs NewSenderFactory_def NewQueueFactory_def put_all_def apply_each_put
        df m program_sf_def [symmetric] split: prod.split sum.split option.split)
qed

lemma sample_module:
  "FilterModule sample_libs (module_in n) [] =
     (Inr (Some ((program_fm sample_libs (module_in n))\<lparr>filters := [(''s'', module_filter n)]\<rparr>), None), module_history)"
proof -
  let ?ff = "filter_factory (program_fm sample_libs (module_in n))"
  let ?f = "(module_filter n)\<lparr>eventMatchers := [], f_wg := 0, dispatcher := None\<rparr>"
  have ff: "Logger ?ff = Some ()" "DeliveryRetries ?ff = n"
    "DispatcherProvider ?ff = Some (GetDispatcher (program_df sample_libs (module_in n)))"
    by (simp_all add: filter_factory_def program_fm_def module_in_def)
  have fc: "DestType_c module_fc = ''kinesis''" "Events module_fc = Events sample_fc"
    "DeviceIds (Metadata_c module_fc) = []" "StreamName (Stream_c module_fc) = ''s''"
    by (simp_all add: module_fc_def sample_fc_def)
  have "ToValidUTF8 ''s'' = ''s''" by (simp add: ToValidUTF8.simps byte_def RuneError_def)
  then have f: "configureQueue ?ff (initial_filter ?ff module_fc) module_fc = ?f"
    by (simp add: initial_filter_def configureQueue_def ff fc module_filter_def)
      (simp add: module_fc_def sample_fc_def)
  have "GetDispatcher (program_df sample_libs (module_in n)) ?f Kinesis_dest [Stream_c module_fc] []
     = (Inr (Some module_dispatcher, None), module_history)"
    by (rule sample_module_dispatcher) (simp_all add: module_filter_def)
  then have "configureDispatcher (\<lambda>r. r) ?ff ?f module_fc [] =
      (Inr (?f\<lparr>dispatcher := Some module_dispatcher\<rparr>, None), module_history)"
    by (simp add: configureDispatcher_def ff fc kinesis_parses module_streams)
  moreover have "configureMatchers exact (?f\<lparr>dispatcher := Some module_dispatcher\<rparr>) module_fc =
      ((module_filter n)\<lparr>f_wg := 0\<rparr>, None)"
    by (simp add: configureMatchers_def fc) (simp add: sample_fc_def exact_def module_filter_def Let_def fc)
  ultimately have "New_filter (\<lambda>r. r) exact ?ff module_fc [] = (Inr (Some (module_filter n), None), module_history)"
    by (simp add: New_filter_def Let_def ff f) (simp add: module_filter_def)
  moreover have "filterConfig (program_fm sample_libs (module_in n)) = [module_fc]"
    "filters (program_fm sample_libs (module_in n)) = []" by (simp_all add: program_fm_def module_in_def)
  ultimately show ?thesis by (simp add: sample_libs_loads loadFilters_def fc)
qed

theorem configured_retries_ignored_witness:
  "retries_s module_sender = 3 \<and> deliveryRetries (module_filter 9) = 9"
proof -
  have run: "(nat (MaxRetries c), None :: go_err option) = (r, None) \<Longrightarrow> r = nat (MaxRetries c)" for c r by simp
  have mem: "(''s'', module_filter 9)
      \<in> set (filters ((program_fm sample_libs (module_in 9))\<lparr>filters := [(''s'', module_filter 9)]\<rparr>))" by simp
  from configured_retries_ignored [OF sample_libs_honoured sample_module mem, of "\<lambda>r. r"] show ?thesis
    by (simp add: sample_libs_def module_filter_def module_dispatcher_def module_in_def)
qed

text \<open>
  From the configuration to Kinesis. Take the manager the module returns, a filter of it
  and the dispatcher it got, and run the dispatcher's queue from the start with the senders
  it was built with, under any interleaving of producers, loop and workers: a batch whose
  submission returned without an error stands acknowledged in the history of the service on
  one of the streams the filter's configuration names, the main one or an alternative.
\<close>

theorem program_delivers:
  assumes "honours_libraries l" and "FilterModule l i h = (Inr (Some fm, None), h')"
    and "(k, f) \<in> set (filters fm)" and "dispatcher f = Some b"
    and "honours_retry (env_run env) (env_limit env)"
    and "reachable (Submit sender_OnEvent (b_dispatcher b)) None
       (boot (b_queue b) ([], (env, map the (b_senders b), hist))) s"
    and "(batch, None) \<in> set (finished s)" and "fits batch"
  shows "\<exists>c. last_config k (c_Filters (in_FilterManager i)) = Some c \<and>
     (batch = [] \<or> (\<exists>st \<in> set (Stream_c c # AltStreams c). world_acked (snd (world s)) (StreamName st) batch))"
proof -
  from program_filters [OF assms(1-3)] assms(4) obtain c where
    c: "last_config k (c_Filters (in_FilterManager i)) = Some c" and pf: "program_filter l i c f b"
    by (auto simp: program_filter_def)
  have "list_all sender_ok (map the (b_senders b))"
    using pf by (auto simp: program_filter_def list_all_iff wired_def split: option.splits)
  then have "world_ok (env, map the (b_senders b), hist)"
    using assms(5) by (simp add: world_ok_def)
  from kinesis_dispatch.submits.acknowledged_batches [OF assms(6) _ assms(7,8)] this pf c show ?thesis
    by (simp add: program_filter_def)
qed

definition module_start :: "(msg, increments \<times> (unit, unit, nat) sender_world) system" where
  "module_start = boot (b_queue module_dispatcher)
     ([], (sample_env, map the (b_senders module_dispatcher), module_history))"

definition module_state :: "(msg, increments \<times> (unit, unit, nat) sender_world) system" where
  "module_state = (case run_events (Submit sender_OnEvent (b_dispatcher module_dispatcher)) None
     delivery_run module_start of Some s \<Rightarrow> s)"

lemma module_OnEvent:
  "OnEvent sample_env module_sender [Some sample_message] ''s'' module_history =
     (Inr (0, None), module_sender, module_history @ sample_put)"
  by (simp add: OnEvent_def sample_env_def module_sender_def sample_put_def put_task_def
      numeral_3_eq_3 PutRecords_def PutRecords_loop.simps GetBatch_def slice_from_def go_len_def
      put_batch_def refreshClient_def empty_client_def accepting_aws_def
      MaxPutRecordsBatchSize_def put_request_def Let_def)

lemma module_run:
  "run_events (Submit sender_OnEvent (b_dispatcher module_dispatcher)) None delivery_run module_start
     = Some module_state"
  "finished module_state = [([Some sample_message], None)]"
proof -
  have sub: "Submit sender_OnEvent \<lparr>d_id = ''s'', streams = [Stream_c module_fc]\<rparr> [Some sample_message]
      ([], (sample_env, [module_sender], module_history)) =
      (Inr None, [], (sample_env, [module_sender], module_history @ sample_put))"
    using module_OnEvent
    by (simp add: Submit_def submitBatch_def sender_OnEvent_def module_fc_def)
  show "run_events (Submit sender_OnEvent (b_dispatcher module_dispatcher)) None delivery_run module_start
     = Some module_state" "finished module_state = [([Some sample_message], None)]"
    by (simp_all add: module_state_def module_start_def delivery_run_def run_defs module_dispatcher_def sub)
qed

theorem program_delivers_witness:
  "world_acked (snd (world module_state)) ''s'' [Some sample_message]"
proof -
  have mem: "(''s'', module_filter 9)
      \<in> set (filters ((program_fm sample_libs (module_in 9))\<lparr>filters := [(''s'', module_filter 9)]\<rparr>))" by simp
  have d: "dispatcher (module_filter 9) = Some module_dispatcher" by (simp add: module_filter_def)
  note run = run_events_reachable [OF module_run(1) [unfolded module_start_def]]
  from program_delivers [OF sample_libs_honoured sample_module mem d sample_ok(1) run, of "[Some sample_message]"]
  show ?thesis
    by (simp add: module_run(2) fits_def module_in_def) (simp add: module_fc_def sample_fc_def)
qed

end
