(* ===== verification/Request_Handler.thy ===== *)
theory Request_Handler
  imports Manager
begin

text \<open>
  The way in (\<open>internal/event/request_handler.go\<close>, \<open>event_handler.go\<close>): the HTTP handler
  that decodes a WRP event from a request and the event handler that passes it to the filter
  manager.

  Parameters: \<open>decode\<close> is the decoder of the library \<open>wrp-go\<close> for a format and a payload,
  \<open>utf8\<close> its check \<open>wrp.UTF8\<close>, \<open>mime_json\<close> its constant \<open>MimeTypeJson\<close>, and \<open>uuid\<close> the
  identifier the UUID library makes for the call.
\<close>

section \<open>The event handler\<close>

text \<open>
  \<open>NewWrpEventHandler\<close> on two values that may be \<open>nil\<close>. \<open>HandleEvent\<close> passes the message
  to \<open>Queue\<close> of the manager, here \<open>queue\<close>.
\<close>

record 'm WrpEventHandler =
  FilterManager :: "'m option"
  Logger_e :: logger

definition NewWrpEventHandler :: "'m option \<Rightarrow> logger \<Rightarrow> 'm WrpEventHandler option \<times> go_err option" where
  "NewWrpEventHandler filterManager logger =
     (if filterManager = None then (None, Some (GoErr ''filterManager is required''))
      else if logger = None then (None, Some (GoErr ''logger is required''))
      else (Some \<lparr>FilterManager = filterManager, Logger_e = logger\<rparr>, None))"

definition HandleEvent :: "('m \<Rightarrow> msg \<Rightarrow> 'w \<Rightarrow> (go_panic + unit) \<times> 'w) \<Rightarrow> 'm WrpEventHandler
    \<Rightarrow> int \<Rightarrow> msg \<Rightarrow> 'w \<Rightarrow> (go_panic + unit) \<times> 'w" where
  "HandleEvent queue h workerID msg w =
     (if Logger_e h = None then (Inl NilDeref, w)
      else (case FilterManager h of None \<Rightarrow> (Inl NilDeref, w) | Some fm \<Rightarrow> queue fm msg w))"

section \<open>The request handler\<close>

definition MAX_OUTSTANDING_DEFAULT :: int where
  "MAX_OUTSTANDING_DEFAULT = 10000"

text \<open>
  A request: its \<open>Content-Type\<close> header values and what reading its body yields. A response
  writer: the status of the first \<open>WriteHeader\<close> and what was written.
\<close>

record request =
  rq_content_type :: "string list"
  rq_body :: "bytes \<times> go_err option"

record response =
  rw_status :: "int option"
  rw_body :: bytes

definition WriteHeader :: "int \<Rightarrow> response \<Rightarrow> response" where
  "WriteHeader code rw = (if rw_status rw = None then rw\<lparr>rw_status := Some code\<rparr> else rw)"

definition Write :: "bytes \<Rightarrow> response \<Rightarrow> response" where
  "Write b rw = rw\<lparr>rw_body := rw_body rw @ b\<rparr>"

datatype format = Msgpack | JSON

type_synonym decoder = "format \<Rightarrow> bytes \<Rightarrow> wrp_message \<times> go_err option"

record 'e RequestHandler =
  rh_logger :: logger
  eventHandler :: "'e option"
  incomingQueueDepth :: int32
  maxOutstanding :: int32

datatype 'e handler_option = WithLogger_h logger | WithEventHandler "'e option"

definition empty_handler :: "'e RequestHandler" where
  "empty_handler = \<lparr>rh_logger = None, eventHandler = None, incomingQueueDepth = 0, maxOutstanding = 0\<rparr>"

text \<open>\<open>New\<close> requires no option and returns the handler in every case.\<close>

definition New_handler :: "('e handler_option, 'e RequestHandler) apply_fun
    \<Rightarrow> ('e handler_option, 'e RequestHandler) required_fun \<Rightarrow> 'e handler_option list
    \<Rightarrow> 'e RequestHandler \<times> go_err option" where
  "New_handler apply_opts required opt =
     (case apply_opts opt empty_handler of
        (h, Some e) \<Rightarrow> (h, Some e)
      | (h, None) \<Rightarrow>
          (case required [] h of
             Some e \<Rightarrow> (h, Some e)
           | None \<Rightarrow> (h\<lparr>maxOutstanding := word_of_int MAX_OUTSTANDING_DEFAULT\<rparr>, None)))"

text \<open>The reasons \<open>fixWrp\<close> computes are not used.\<close>

definition fixWrp :: "string \<Rightarrow> string \<Rightarrow> wrp_message \<Rightarrow> wrp_message" where
  "fixWrp mime_json uuid m =
     (let m1 = (if ContentType m = '''' then m\<lparr>ContentType := mime_json\<rparr> else m)
      in if TransactionUUID m1 = '''' then m1\<lparr>TransactionUUID := uuid\<rparr> else m1)"

definition newline :: string where "newline = [CHR 0x0A]"

text \<open>The bodies of the answers.\<close>

definition reply_type :: bytes where "reply_type = ''Invalid Content-Type header. Expected application/msgpack or application/json.'' @ newline"
definition reply_full :: bytes where "reply_full = ''Incoming queue is full.'' @ newline"
definition reply_empty :: bytes where "reply_empty = ''Empty payload.'' @ newline"
definition reply_format :: bytes where "reply_format = ''Invalid payload format.'' @ newline"
definition reply_kind :: bytes where "reply_kind = ''Invalid MessageType.'' @ newline"
definition reply_utf8 :: bytes where "reply_utf8 = ''Strings must be UTF-8.'' @ newline"
definition reply_ok :: bytes where "reply_ok = ''Request placed on to queue.'' @ newline"

definition content_format :: "string list \<Rightarrow> format option" where
  "content_format values =
     (let contentType = (if length values = 1 then values ! 0 else '''')
      in if contentType = ''application/msgpack'' then Some Msgpack
         else if contentType = ''application/json'' then Some JSON else None)"

text \<open>
  The part of \<open>ServeHTTP\<close> between the increment of the depth and its deferred decrement,
  with the depth after the increment.
\<close>

definition serve_counted :: "decoder \<Rightarrow> (wrp_message \<Rightarrow> go_err option) \<Rightarrow> string \<Rightarrow> string
    \<Rightarrow> ('e \<Rightarrow> int \<Rightarrow> msg \<Rightarrow> 'w \<Rightarrow> (go_panic + unit) \<times> 'w)
    \<Rightarrow> format \<Rightarrow> request \<Rightarrow> int32 \<Rightarrow> 'e RequestHandler \<Rightarrow> response \<Rightarrow> 'w
    \<Rightarrow> (go_panic + unit) \<times> response \<times> 'w" where
  "serve_counted decode utf8 mime_json uuid handle fmt rq outstanding h rw w =
     (if 0 < sint (maxOutstanding h) \<and> sint (maxOutstanding h) < sint outstanding
      then (Inr (), Write reply_full (WriteHeader 503 rw), w)
      else (case rq_body rq of
        (_, Some e) \<Rightarrow> (Inr (), WriteHeader 400 rw, w)
      | (payload, None) \<Rightarrow>
          if payload = []
          then (Inr (), Write reply_empty (WriteHeader 400 rw), w)
          else (case decode fmt payload of
            (_, Some e) \<Rightarrow>
              (Inr (), Write reply_format (WriteHeader 400 rw), w)
          | (m, None) \<Rightarrow>
              if MessageType m \<noteq> 4
              then (Inr (), Write reply_kind (WriteHeader 400 rw), w)
              else if utf8 m \<noteq> None
              then (Inr (), Write reply_utf8 (WriteHeader 400 rw), w)
              else (case eventHandler h of
                None \<Rightarrow> (Inl NilDeref, rw, w)
              | Some eh \<Rightarrow>
                 (case handle eh 0 (Some (fixWrp mime_json uuid m)) w of
                    (Inl p, w') \<Rightarrow> (Inl p, rw, w')
                  | (Inr _, w') \<Rightarrow>
                      (Inr (), Write reply_ok (WriteHeader 202 rw), w'))))))"

definition ServeHTTP :: "decoder \<Rightarrow> (wrp_message \<Rightarrow> go_err option) \<Rightarrow> string \<Rightarrow> string
    \<Rightarrow> ('e \<Rightarrow> int \<Rightarrow> msg \<Rightarrow> 'w \<Rightarrow> (go_panic + unit) \<times> 'w)
    \<Rightarrow> request \<Rightarrow> 'e RequestHandler \<Rightarrow> response \<Rightarrow> 'w
    \<Rightarrow> (go_panic + unit) \<times> 'e RequestHandler \<times> response \<times> 'w" where
  "ServeHTTP decode utf8 mime_json uuid handle rq h rw w =
     (if rh_logger h = None then (Inl NilDeref, h, rw, w)
      else (case content_format (rq_content_type rq) of
        None \<Rightarrow> (Inr (), h, Write reply_type (WriteHeader 415 rw), w)
      | Some fmt \<Rightarrow>
          let h1 = h\<lparr>incomingQueueDepth := incomingQueueDepth h + 1\<rparr>;
              (r, rw', w') = serve_counted decode utf8 mime_json uuid handle fmt rq
                 (incomingQueueDepth h1) h1 rw w
          in (r, h1\<lparr>incomingQueueDepth := incomingQueueDepth h1 - 1\<rparr>, rw', w')))"

section \<open>Concurrent requests\<close>

text \<open>
  The counter among concurrent requests: each request takes the atomic increment and the
  test with its result in one step, works, and takes the deferred atomic decrement in
  another. \<open>working\<close> are the requests that passed the test, \<open>turning_away\<close> those that got
  a 503 and have not decremented yet.
\<close>

record server =
  depth :: int32
  limit :: int32
  working :: nat
  turning_away :: nat

definition enters :: "server \<Rightarrow> server" where
  "enters s =
     (let outstanding = depth s + 1 in
      if 0 < sint (limit s) \<and> sint (limit s) < sint outstanding
      then s\<lparr>depth := outstanding, turning_away := Suc (turning_away s)\<rparr>
      else s\<lparr>depth := outstanding, working := Suc (working s)\<rparr>)"

inductive serves :: "server \<Rightarrow> server \<Rightarrow> bool" where
  enter: "int (working s + turning_away s) < 2 ^ 31 - 1 \<Longrightarrow> serves s (enters s)"
| finish: "0 < working s \<Longrightarrow> serves s (s\<lparr>depth := depth s - 1, working := working s - 1\<rparr>)"
| refuse: "0 < turning_away s \<Longrightarrow> serves s (s\<lparr>depth := depth s - 1, turning_away := turning_away s - 1\<rparr>)"

inductive_cases servesE: "serves s t"

inductive served :: "server \<Rightarrow> server \<Rightarrow> bool" for s0 where
  served_start: "served s0 s0"
| served_step: "served s0 s \<Longrightarrow> serves s t \<Longrightarrow> served s0 t"

definition idle :: "int32 \<Rightarrow> server" where
  "idle n = \<lparr>depth = 0, limit = n, working = 0, turning_away = 0\<rparr>"

definition server_inv :: "server \<Rightarrow> bool" where
  "server_inv s \<longleftrightarrow> int (working s + turning_away s) < 2 ^ 31
     \<and> depth s = word_of_nat (working s + turning_away s)
     \<and> (0 < sint (limit s) \<longrightarrow> int (working s) \<le> sint (limit s))"

lemma sint_int32_nat: "int n < 2 ^ 31 \<Longrightarrow> sint (word_of_nat n :: int32) = int n"
  using sint_of_int32 [of "int n"] by simp

lemma server_inv_step:
  assumes "serves s t" "server_inv s"
  shows "server_inv t \<and> limit t = limit s"
  using assms(1)
proof cases
  case enter
  let ?n = "working s + turning_away s"
  have d: "depth s + 1 = word_of_nat (Suc ?n)" using assms(2) by (simp add: server_inv_def)
  have "int (Suc ?n) < 2 ^ 31" using enter(2) by simp
  from sint_int32_nat [OF this] have sd: "sint (depth s + 1) = int (Suc ?n)" by (simp only: d)
  let ?full = "0 < sint (limit s) \<and> sint (limit s) < int (Suc ?n)"
  have t: "t = (if ?full then s\<lparr>depth := word_of_nat (Suc ?n), turning_away := Suc (turning_away s)\<rparr>
      else s\<lparr>depth := word_of_nat (Suc ?n), working := Suc (working s)\<rparr>)"
    using enter(1) unfolding enters_def Let_def sd by (simp only: d)
  show ?thesis
  proof (cases ?full)
    case True
    with t assms(2) enter(2) show ?thesis by (simp add: server_inv_def)
  next
    case False
    with t assms(2) enter(2) show ?thesis by (auto simp: server_inv_def)
  qed
next
  case finish
  then have "word_of_nat (working s + turning_away s) - 1 = (word_of_nat (working s - 1 + turning_away s) :: int32)"
    by (cases "working s") simp_all
  with finish assms(2) show ?thesis by (auto simp: server_inv_def)
next
  case refuse
  then have "word_of_nat (working s + turning_away s) - 1 = (word_of_nat (working s + (turning_away s - 1)) :: int32)"
    by (cases "turning_away s") simp_all
  with refuse assms(2) show ?thesis by (auto simp: server_inv_def)
qed

lemma server_inv_served: "served s0 t \<Longrightarrow> server_inv s0 \<Longrightarrow> server_inv t \<and> limit t = limit s0"
  by (induction rule: served.induct) (auto dest: server_inv_step)

end
