(* ===== verification/Event_Properties.thy ===== *)
theory Event_Properties
  imports Request_Handler Manager_Properties
begin

text \<open>
  What the HTTP front promises: the status of every request, which requests reach the
  filters and with what message, that the outstanding counter is restored and bounds the
  requests at work.
\<close>

lemma serve_counted_cases:
  assumes "serve_counted decode utf8 mime uuid handle fmt rq n h rw w = (r, rw', w')"
  shows "(r = Inr () \<and> w' = w) \<or> eventHandler h = None
     \<or> (\<exists>eh m. eventHandler h = Some eh \<and> handle eh 0 (Some m) w = (r, w'))"
  using assms by (auto simp: serve_counted_def split: if_splits prod.splits option.splits sum.splits)

section \<open>The contract of an event handler\<close>

text \<open>
  What the request handler relies on: in a well-formed world the event handler takes any
  message and returns.
\<close>

locale event_sink =
  fixes handle :: "'e \<Rightarrow> int \<Rightarrow> msg \<Rightarrow> 'w \<Rightarrow> (go_panic + unit) \<times> 'w"
    and able :: "'e \<Rightarrow> 'w \<Rightarrow> bool"
  assumes handle_returns: "able eh w \<Longrightarrow> fst (handle eh i m w) = Inr ()"
    and handle_able: "able eh w \<Longrightarrow> able eh (snd (handle eh i m w))"
begin

lemma ServeHTTP_returns:
  assumes "rh_logger h \<noteq> None" "eventHandler h = Some eh" "able eh w"
    and "ServeHTTP decode utf8 mime uuid handle rq h rw w = (r, h', rw', w')"
  shows "r = Inr () \<and> h' = h \<and> able eh w'"
proof (cases "content_format (rq_content_type rq)")
  case None
  with assms show ?thesis by (auto simp: ServeHTTP_def)
next
  case (Some fmt)
  have "r = Inr () \<and> able eh w'"
    if run: "serve_counted decode utf8 mime uuid handle fmt rq n h1 rw w = (r, rw', w')"
      and eh: "eventHandler h1 = Some eh" for n h1
  proof -
    from serve_counted_cases [OF run] eh consider "r = Inr ()" "w' = w"
      | m where "handle eh 0 (Some m) w = (r, w')" by auto
    then show ?thesis
      using handle_returns [OF assms(3)] handle_able [OF assms(3)] assms(3) by cases (auto, metis fst_conv, metis snd_conv)
  qed
  with Some assms show ?thesis by (auto simp: ServeHTTP_def Let_def split: prod.splits)
qed

end

text \<open>
  The event handler of the program: the manager, its event counter and the queues of the
  dispatchers are the world.
\<close>

definition manager_handle :: "(wrp_message \<Rightarrow> string)
    \<Rightarrow> ((string \<times> ('re, 'd) BaseFilter) list \<Rightarrow> (string \<times> ('re, 'd) BaseFilter) list)
    \<Rightarrow> ('re \<Rightarrow> string \<Rightarrow> bool) \<Rightarrow> ('d, 'w) enqueue
    \<Rightarrow> ('re, 'd, 'h) BaseFilterManager WrpEventHandler \<Rightarrow> int \<Rightarrow> msg \<Rightarrow> string list \<times> 'w
    \<Rightarrow> (go_panic + unit) \<times> string list \<times> 'w" where
  "manager_handle event_type order matches enqueue eh i m w =
     HandleEvent (Manager_Queue event_type order matches enqueue) eh i m w"

definition handler_able :: "('re, 'd, 'h) BaseFilterManager WrpEventHandler \<Rightarrow> 'w \<Rightarrow> bool" where
  "handler_able eh w \<longleftrightarrow> Logger_e eh \<noteq> None
     \<and> (case FilterManager eh of None \<Rightarrow> False | Some fm \<Rightarrow> m_logger fm \<noteq> None)"

interpretation program_events: event_sink "manager_handle event_type order matches enqueue" handler_able
  for event_type order and matches :: "'re \<Rightarrow> string \<Rightarrow> bool" and enqueue :: "('d, 'w) enqueue"
  by unfold_locales
     (auto simp: manager_handle_def handler_able_def HandleEvent_def Manager_Queue_def Let_def
        split: option.splits prod.splits)

section \<open>Requests\<close>

text \<open>What a request decodes to, if it is one the handler takes.\<close>

definition event_of :: "decoder \<Rightarrow> (wrp_message \<Rightarrow> go_err option) \<Rightarrow> request \<Rightarrow> wrp_message option" where
  "event_of decode utf8 rq =
     (case (content_format (rq_content_type rq), rq_body rq) of
        (Some fmt, payload, None) \<Rightarrow>
          (if payload \<noteq> [] \<and> snd (decode fmt payload) = None
              \<and> MessageType (fst (decode fmt payload)) = 4 \<and> utf8 (fst (decode fmt payload)) = None
           then Some (fst (decode fmt payload)) else None)
      | _ \<Rightarrow> None)"

lemma serve_counted_event:
  assumes "serve_counted decode utf8 mime uuid handle fmt rq n h \<lparr>rw_status = None, rw_body = []\<rparr> w = (r, rw', w')"
    and "content_format (rq_content_type rq) = Some fmt" and "eventHandler h = Some eh"
    and "\<not> (0 < sint (maxOutstanding h) \<and> sint (maxOutstanding h) < sint n)"
    and hd: "\<And>m. handle eh 0 (Some m) w = (Inr (), snd (handle eh 0 (Some m) w))"
  shows "r = Inr () \<and> rw_status rw' = Some (if event_of decode utf8 rq = None then 400 else 202)
     \<and> w' = (case event_of decode utf8 rq of
          Some m \<Rightarrow> snd (handle eh 0 (Some (fixWrp mime uuid m)) w) | None \<Rightarrow> w)"
proof -
  obtain payload err where b: "rq_body rq = (payload, err)" by fastforce
  obtain m e where d: "decode fmt payload = (m, e)" by fastforce
  have w2: "(if 0 < sint (maxOutstanding h) \<and> sint (maxOutstanding h) < sint n then a else c) = c" for a c
    using assms(4) by (rule if_not_P)
  note run = assms(1) [unfolded serve_counted_def w2 b d prod.case assms(3) option.case]
  note ev = event_of_def [of decode utf8 rq, unfolded assms(2) b prod.case option.case]
  show ?thesis
  proof (cases "err = None \<and> payload \<noteq> [] \<and> e = None \<and> MessageType m = 4 \<and> utf8 m = None")
    case True
    have "handle eh 0 (Some (fixWrp mime uuid m)) w
        = (Inr (), snd (handle eh 0 (Some (fixWrp mime uuid m)) w))" by (rule hd)
    then obtain w1 where "handle eh 0 (Some (fixWrp mime uuid m)) w = (Inr (), w1)" by blast
    with True run ev d show ?thesis by (auto simp: Write_def WriteHeader_def)
  next
    case False
    with run ev d show ?thesis
      by (auto simp: Write_def WriteHeader_def split: option.splits if_splits)
  qed
qed

text \<open>
  C19. The answer to every request, from a fresh response: 415 unless there is exactly one
  \<open>Content-Type\<close> and it is one of the two formats; 503 when more requests than the limit
  are outstanding; 400 when the body cannot be read, is empty, does not decode, is
  not an event (type 4) or is not UTF-8; 202 otherwise. The event handler is called exactly in the
  last case, once, with the fixed message; in all others the world is as before. The
  counter of outstanding requests is restored.
\<close>

theorem ServeHTTP_answers:
  assumes "rh_logger h \<noteq> None" and "eventHandler h = Some eh"
    and "\<And>m. fst (handle eh 0 m w) = Inr ()"
    and "ServeHTTP decode utf8 mime uuid handle rq h \<lparr>rw_status = None, rw_body = []\<rparr> w = (r, h', rw', w')"
    and "full \<longleftrightarrow> 0 < sint (maxOutstanding h) \<and> sint (maxOutstanding h) < sint (incomingQueueDepth h + 1)"
  shows "r = Inr () \<and> h' = h
     \<and> rw_status rw' = Some (if content_format (rq_content_type rq) = None then 415
          else if full then 503 else if event_of decode utf8 rq = None then 400 else 202)
     \<and> w' = (case event_of decode utf8 rq of
          Some m \<Rightarrow> if full then w else snd (handle eh 0 (Some (fixWrp mime uuid m)) w)
        | None \<Rightarrow> w)"
proof (cases "content_format (rq_content_type rq)")
  case None
  with assms show ?thesis by (auto simp: ServeHTTP_def event_of_def Write_def WriteHeader_def)
next
  case (Some fmt)
  let ?h1 = "h\<lparr>incomingQueueDepth := incomingQueueDepth h + 1\<rparr>"
  from Some assms(1,4) have run: "serve_counted decode utf8 mime uuid handle fmt rq (incomingQueueDepth h + 1)
      ?h1 \<lparr>rw_status = None, rw_body = []\<rparr> w = (r, rw', w')" and h': "h' = h"
    by (auto simp: ServeHTTP_def Let_def split: prod.splits)
  show ?thesis
  proof (cases full)
    case True
    with run assms(5) Some h' show ?thesis
      by (auto simp: serve_counted_def Write_def WriteHeader_def split: option.splits)
  next
    case False
    have hd: "handle eh 0 (Some m) w = (Inr (), snd (handle eh 0 (Some m) w))" for m
      by (metis assms(3) prod.collapse)
    have "r = Inr () \<and> rw_status rw' = Some (if event_of decode utf8 rq = None then 400 else 202)
     \<and> w' = (case event_of decode utf8 rq of
          Some m \<Rightarrow> snd (handle eh 0 (Some (fixWrp mime uuid m)) w) | None \<Rightarrow> w)"
      by (rule serve_counted_event [OF run Some]) (use False assms(2,5) hd in auto)
    with False Some h' show ?thesis by (simp split: option.splits)
  qed
qed

definition appending :: "unit \<Rightarrow> int \<Rightarrow> msg \<Rightarrow> msg list \<Rightarrow> (go_panic + unit) \<times> msg list" where
  "appending eh i m w = (Inr (), w @ [m])"

definition sample_handler :: "'e \<Rightarrow> 'e RequestHandler" where
  "sample_handler eh = \<lparr>rh_logger = Some (), eventHandler = Some eh, incomingQueueDepth = 0,
     maxOutstanding = 10000\<rparr>"

definition sample_request :: request where
  "sample_request = \<lparr>rq_content_type = [''application/json''], rq_body = (''{}'', None)\<rparr>"

definition sample_decode :: decoder where
  "sample_decode fmt payload = (sample_message, None)"

lemma sample_event: "event_of sample_decode (\<lambda>m. None) sample_request = Some sample_message"
  by (simp add: event_of_def sample_request_def sample_decode_def content_format_def sample_message_def)

theorem ServeHTTP_answers_witness:
  "\<exists>rw'. ServeHTTP sample_decode (\<lambda>m. None) ''application/json'' ''u'' appending sample_request
       (sample_handler ()) \<lparr>rw_status = None, rw_body = []\<rparr> []
     = (Inr (), sample_handler (), rw', [Some sample_message]) \<and> rw_status rw' = Some 202"
proof -
  obtain r h' rw' w' where run: "ServeHTTP sample_decode (\<lambda>m. None) ''application/json'' ''u'' appending
      sample_request (sample_handler ()) \<lparr>rw_status = None, rw_body = []\<rparr> [] = (r, h', rw', w')"
    by (metis surj_pair)
  have h: "rh_logger (sample_handler ()) \<noteq> None" "eventHandler (sample_handler ()) = Some ()"
    by (simp_all add: sample_handler_def)
  have full: "False \<longleftrightarrow> 0 < sint (maxOutstanding (sample_handler ()))
      \<and> sint (maxOutstanding (sample_handler ())) < sint (incomingQueueDepth (sample_handler ()) + 1)"
    by (simp add: sample_handler_def)
  have app: "fst (appending () 0 m []) = Inr ()" for m by (simp add: appending_def)
  have unchanged: "fixWrp ''application/json'' ''u'' sample_message = sample_message"
    by (simp add: fixWrp_def sample_message_def)
  have ct: "content_format (rq_content_type sample_request) \<noteq> None"
    by (simp add: content_format_def sample_request_def)
  from ServeHTTP_answers [OF h app run full] show ?thesis
    using run ct by (simp add: sample_event unchanged appending_def)
qed

text \<open>
  \<open>fixWrp\<close> only fills in what is missing: a content type or a transaction id that is
  present stays, an empty one becomes the JSON type or the new identifier, nothing else changes
  (so no filter decides differently), and fixing again changes nothing.
\<close>

theorem fixWrp_fills:
  assumes "mime \<noteq> ''''" and "uuid \<noteq> ''''"
  shows "fixWrp mime uuid m = m\<lparr>ContentType := (if ContentType m = '''' then mime else ContentType m),
       TransactionUUID := (if TransactionUUID m = '''' then uuid else TransactionUUID m)\<rparr>
     \<and> fixWrp mime uuid' (fixWrp mime uuid m) = fixWrp mime uuid m
     \<and> admits matches f (fixWrp mime uuid m) = admits matches f m"
  using assms
  by (auto simp: fixWrp_def Let_def admits_def match_event_iff match_device_iff split: option.splits)

theorem fixWrp_fills_witness:
  "fixWrp ''j'' ''u'' (sample_message\<lparr>TransactionUUID := ''''\<rparr>) = sample_message\<lparr>TransactionUUID := ''u''\<rparr>"
  using fixWrp_fills [of "''j''" "''u''" "sample_message\<lparr>TransactionUUID := ''''\<rparr>", THEN conjunct1]
  by (simp add: sample_message_def)

section \<open>From a request to the queues\<close>

lemma request_effect:
  assumes "rh_logger h \<noteq> None" and "eventHandler h = Some eh" and "Logger_e eh \<noteq> None"
    and "FilterManager eh = Some fm" and "m_logger fm \<noteq> None" and "m_metrics fm \<noteq> None"
    and "mset (order (filters fm)) = mset (filters fm)"
    and "distinct (map (dispatcher \<circ> snd) (filters fm))"
    and "\<forall>kf \<in> set (filters fm). \<exists>d. dispatcher (snd kf) = Some d \<and> open_at qs d"
    and "\<not> (0 < sint (maxOutstanding h) \<and> sint (maxOutstanding h) < sint (incomingQueueDepth h + 1))"
    and "event_of decode utf8 rq = Some m"
    and "ServeHTTP decode utf8 mime uuid (manager_handle event_type order matches enqueue_at) rq h
       \<lparr>rw_status = None, rw_body = []\<rparr> (evs, qs) = (r, h', rw', evs', qs')"
  shows "r = Inr () \<and> h' = h \<and> rw_status rw' = Some 202
     \<and> offered matches (filters fm) (fixWrp mime uuid m) qs qs'"
proof -
  let ?handle = "manager_handle event_type order matches enqueue_at"
  have able: "handler_able eh (evs, qs)" using assms(3-5) by (simp add: handler_able_def)
  have returns: "r = Inr () \<and> h' = h"
    using program_events.ServeHTTP_returns [OF assms(1,2) able assms(12)] by simp
  obtain fmt where fmt: "content_format (rq_content_type rq) = Some fmt"
    using assms(11) by (auto simp: event_of_def split: option.splits prod.splits)
  let ?h1 = "h\<lparr>incomingQueueDepth := incomingQueueDepth h + 1\<rparr>"
  from assms(1,12) fmt have run: "serve_counted decode utf8 mime uuid ?handle fmt rq
      (incomingQueueDepth h + 1) ?h1 \<lparr>rw_status = None, rw_body = []\<rparr> (evs, qs) = (r, rw', (evs', qs'))"
    by (auto simp: ServeHTTP_def Let_def split: prod.splits)
  have hd: "?handle eh 0 (Some m') (evs, qs) = (Inr (), snd (?handle eh 0 (Some m') (evs, qs)))" for m'
    by (metis program_events.handle_returns [OF able] prod.collapse)
  have h1: "eventHandler ?h1 = Some eh"
    "\<not> (0 < sint (maxOutstanding ?h1) \<and> sint (maxOutstanding ?h1) < sint (incomingQueueDepth h + 1))"
    using assms(2,10) by simp_all
  let ?m = "fixWrp mime uuid m"
  from serve_counted_event [OF run fmt h1 hd] assms(11) have ans: "rw_status rw' = Some 202"
      "(evs', qs') = snd (?handle eh 0 (Some ?m) (evs, qs))" by simp_all
  have "?handle eh 0 (Some ?m) (evs, qs) =
      Manager_Queue event_type order matches enqueue_at fm (Some ?m) (evs, qs)"
    using assms(3,4) by (auto simp: manager_handle_def HandleEvent_def)
  with hd [of ?m] ans(2) have "Manager_Queue event_type order matches enqueue_at fm
      (Some ?m) (evs, qs) = (Inr (), evs', qs')" by metis
  from fanout_effect [OF assms(7-9,5,6) this] ans(1) returns show ?thesis by blast
qed

text \<open>
  C8. The whole way in. A request with an event, below the limit, to a program whose
  filters have dispatchers of their own that take messages: the answer is 202, and each filter
  that admits the event has it, fixed, at the end of its dispatcher's channel (or counted as
  dropped when the channel is full), and no other dispatcher has anything new. The answer
  is 202 whether or not a filter took the event.
\<close>

theorem request_reaches_queues:
  assumes "rh_logger h \<noteq> None" and "eventHandler h = Some eh" and "Logger_e eh \<noteq> None"
    and "FilterManager eh = Some fm" and "m_logger fm \<noteq> None" and "m_metrics fm \<noteq> None"
    and "mset (order (filters fm)) = mset (filters fm)"
    and "distinct (map (dispatcher \<circ> snd) (filters fm))"
    and "\<forall>kf \<in> set (filters fm). \<exists>d. dispatcher (snd kf) = Some d \<and> open_at qs d"
    and "\<not> (0 < sint (maxOutstanding h) \<and> sint (maxOutstanding h) < sint (incomingQueueDepth h + 1))"
    and "event_of decode utf8 rq = Some m"
    and "ServeHTTP decode utf8 mime uuid (manager_handle event_type order matches enqueue_at) rq h
       \<lparr>rw_status = None, rw_body = []\<rparr> (evs, qs) = (r, h', rw', evs', qs')"
  shows "r = Inr () \<and> h' = h \<and> rw_status rw' = Some 202
     \<and> offered matches (filters fm) (fixWrp mime uuid m) qs qs'"
  using assms by (rule request_effect)

definition sample_event_handler :: "(string, nat, nat) BaseFilterManager WrpEventHandler" where
  "sample_event_handler = \<lparr>FilterManager = Some sample_manager, Logger_e = Some ()\<rparr>"

theorem request_reaches_queues_witness:
  "\<exists>rw' evs' qs'. ServeHTTP sample_decode (\<lambda>m. None) ''application/json'' ''u''
       (manager_handle (\<lambda>m. ''online'') rev (=) enqueue_at) sample_request
       (sample_handler sample_event_handler) \<lparr>rw_status = None, rw_body = []\<rparr> ([], two_queues)
     = (Inr (), sample_handler sample_event_handler, rw', evs', qs')
     \<and> offered (=) (filters sample_manager) sample_message two_queues qs'"
proof -
  obtain r h' rw' evs' qs' where run: "ServeHTTP sample_decode (\<lambda>m. None) ''application/json'' ''u''
      (manager_handle (\<lambda>m. ''online'') rev (=) enqueue_at) sample_request
      (sample_handler sample_event_handler) \<lparr>rw_status = None, rw_body = []\<rparr> ([], two_queues)
      = (r, h', rw', evs', qs')" by (metis surj_pair)
  have open2: "open_at two_queues 0" "open_at two_queues (Suc 0)"
    by (simp_all add: open_at_def two_queues_def delivery_queue_def items_chan_def make_chan_def)
  have unchanged: "fixWrp ''application/json'' ''u'' sample_message = sample_message"
    by (simp add: fixWrp_def sample_message_def)
  have hand: "Logger_e sample_event_handler \<noteq> None"
      "FilterManager sample_event_handler = Some sample_manager"
    by (simp_all add: sample_event_handler_def)
  have "r = Inr () \<and> h' = sample_handler sample_event_handler \<and> rw_status rw' = Some 202
     \<and> offered (=) (filters sample_manager) (fixWrp ''application/json'' ''u'' sample_message) two_queues qs'"
    by (rule request_reaches_queues [OF _ _ hand(1,2) _ _ _ _ _ _ sample_event run])
       (use open2 in \<open>simp_all add: sample_handler_def sample_manager_def sample_built_def\<close>)
  then show ?thesis using run unchanged by auto
qed

section \<open>The limit of outstanding requests\<close>

text \<open>
  C20. Among concurrent requests, each with its atomic increment, test and atomic
  decrement, the counter is the number of requests between the two, and at most
  \<open>maxOutstanding\<close> requests are past the test at any time, as long as fewer than
  \<open>2\<^sup>3\<^sup>1 - 1\<close> requests are in the handler when one enters.
\<close>

theorem outstanding_bound:
  assumes "served (idle n) s" and "0 < sint n"
  shows "int (working s) \<le> sint n \<and> sint (depth s) = int (working s + turning_away s)"
proof -
  have "server_inv (idle n)" using assms(2) by (simp add: server_inv_def idle_def)
  from server_inv_served [OF assms(1) this] have inv: "server_inv s" "limit s = n"
    by (simp_all add: idle_def)
  then have "sint (depth s) = int (working s + turning_away s)"
    using sint_int32_nat [of "working s + turning_away s"] by (simp only: server_inv_def)
  with inv assms(2) show ?thesis by (simp add: server_inv_def)
qed

theorem outstanding_bound_witness:
  "working (enters (enters (idle 1))) = 1 \<and> turning_away (enters (enters (idle 1))) = 1
     \<and> int (working (enters (enters (idle 1)))) \<le> 1"
proof -
  have "serves (idle 1) (enters (idle 1))" "serves (enters (idle 1)) (enters (enters (idle 1)))"
    by (rule enter, simp add: idle_def enters_def Let_def)+
  then have "served (idle 1) (enters (enters (idle 1)))"
    by (blast intro: served_start served_step)
  from outstanding_bound [OF this] show ?thesis
    by (simp add: idle_def enters_def Let_def)
qed

end
