(* ===== verification/Authentication.thy ===== *)
theory Authentication
  imports Kinesis
begin

text \<open>
  Authentication (\<open>internal/auth/auth.go\<close>, \<open>public_key_provider.go\<close>): the middleware that
  guards the event route, with basic credentials or with JSON web tokens, and the public
  keys the tokens are checked against.

  The library \<open>bascule\<close> is a parameter: its parsers and middlewares are values of type
  variables, made by functions that may fail; a middleware is made from a parser and a
  validator. The library's errors are named by their identifiers. A token is what the
  validators ask of it: the name and password if it is a \<open>BasicToken\<close>, whether it has
  \<open>Claims\<close>, and its capabilities as \<open>GetCapabilities\<close> finds them.
\<close>

section \<open>The data of the package\<close>

record Basic =
  Username :: string
  Password :: string
  UpstreamUsername :: string
  UpstreamPassword :: string

record Jwt =
  PublicKeyUrl :: string
  KeyRefreshInterval :: int64
  ServiceCapabilities :: "string list"
  TokenUrl :: string
  ClientId :: string
  ClientSecret :: string

record ('mw, 'kp) Auth =
  a_logger :: logger
  isBasic :: bool
  Basic_a :: Basic
  Jwt_a :: Jwt
  Middleware :: "'mw option"
  keyProvider :: "'kp option"

datatype 'kp auth_option =
    IsBasic bool
  | WithBasic Basic
  | WithJwt Jwt
  | WithLogger_a logger
  | WithPublicKeyProvider "'kp option"

definition empty_auth :: "('mw, 'kp) Auth" where
  "empty_auth = \<lparr>a_logger = None, isBasic = False,
     Basic_a = \<lparr>Username = '''', Password = '''', UpstreamUsername = '''', UpstreamPassword = ''''\<rparr>,
     Jwt_a = \<lparr>PublicKeyUrl = '''', KeyRefreshInterval = 0, ServiceCapabilities = [], TokenUrl = '''',
       ClientId = '''', ClientSecret = ''''\<rparr>,
     Middleware = None, keyProvider = None\<rparr>"

section \<open>The validators\<close>

record token =
  tk_basic :: "(string \<times> string) option"
  tk_claims :: bool
  tk_capabilities :: "string list \<times> bool"

definition ErrBadCredentials :: go_err where
  "ErrBadCredentials = LibErr ''bascule.ErrBadCredentials''"

definition ErrUnauthorized :: go_err where
  "ErrUnauthorized = LibErr ''bascule.ErrUnauthorized''"

text \<open>The two nested loops over the capabilities, from the inside out.\<close>

fun service_loop :: "string \<Rightarrow> string list \<Rightarrow> bool" where
  "service_loop capability [] = False"
| "service_loop capability (s # ss) = (if capability = s then True else service_loop capability ss)"

fun capability_loop :: "string list \<Rightarrow> string list \<Rightarrow> bool" where
  "capability_loop [] services = False"
| "capability_loop (c # cs) services = (if service_loop c services then True else capability_loop cs services)"

definition checkCapabilities :: "('mw, 'kp) Auth \<Rightarrow> string list \<Rightarrow> bool" where
  "checkCapabilities auth capabilities =
     (if length (ServiceCapabilities (Jwt_a auth)) = 0 then True
      else capability_loop capabilities (ServiceCapabilities (Jwt_a auth)))"

text \<open>
  The validators are closures over the pointer to the \<open>Auth\<close>: they read its fields when a
  request comes in.
\<close>

type_synonym ('mw, 'kp) validator = "('mw, 'kp) Auth \<Rightarrow> token \<Rightarrow> go_err option"

definition basic_validator :: "('mw, 'kp) validator" where
  "basic_validator auth token =
     (case tk_basic token of
        Some (userName, password) \<Rightarrow>
          (if userName = Username (Basic_a auth) \<and> password = Password (Basic_a auth) then None
           else Some ErrBadCredentials)
      | None \<Rightarrow> Some ErrBadCredentials)"

definition jwt_validator :: "('mw, 'kp) validator" where
  "jwt_validator auth token =
     (if \<not> tk_claims token then Some ErrBadCredentials
      else let (capabilities, _) = tk_capabilities token in
        if \<not> checkCapabilities auth capabilities then Some ErrUnauthorized else None)"

section \<open>The middleware\<close>

record ('mw, 'kp, 'p, 'j, 'ks) bascule =
  new_basic_parser :: "'p \<times> go_err option"
  new_token_parser :: "'ks \<Rightarrow> 'j \<times> go_err option"
  new_bearer_parser :: "'j \<Rightarrow> 'p \<times> go_err option"
  new_middleware :: "'p \<Rightarrow> ('mw, 'kp) validator \<Rightarrow> 'mw option \<times> go_err option"
  get_keys :: "'kp \<Rightarrow> 'ks \<times> go_err option"

definition GetBasicAuthMiddleware :: "('mw, 'kp, 'p, 'j, 'ks) bascule \<Rightarrow> ('mw, 'kp) Auth
    \<Rightarrow> 'mw option \<times> go_err option" where
  "GetBasicAuthMiddleware lib auth =
     (case new_basic_parser lib of
        (_, Some err) \<Rightarrow> (None, Some err)
      | (tp, None) \<Rightarrow> new_middleware lib tp basic_validator)"

text \<open>Logging an error needs a logger.\<close>

definition log_error :: "('mw, 'kp) Auth \<Rightarrow> 'a \<Rightarrow> go_panic + 'a" where
  "log_error auth r = (if a_logger auth = None then Inl NilDeref else Inr r)"

definition GetJwtAuthMiddleware :: "('mw, 'kp, 'p, 'j, 'ks) bascule \<Rightarrow> ('mw, 'kp) Auth
    \<Rightarrow> go_panic + 'mw option \<times> go_err option" where
  "GetJwtAuthMiddleware lib auth =
     (case keyProvider auth of
        None \<Rightarrow> Inl NilDeref
      | Some kp \<Rightarrow>
     (case get_keys lib kp of
        (_, Some err) \<Rightarrow> log_error auth (None, Some err)
      | (keys, None) \<Rightarrow>
     (case new_token_parser lib keys of
        (_, Some err) \<Rightarrow> log_error auth (None, Some err)
      | (jwtp, None) \<Rightarrow>
     (case new_bearer_parser lib jwtp of
        (_, Some err) \<Rightarrow> log_error auth (None, Some err)
      | (tp, None) \<Rightarrow> Inr (new_middleware lib tp jwt_validator)))))"

text \<open>\<open>New\<close> logs an error of the middleware and goes on with what it got.\<close>

definition New_auth :: "('mw, 'kp, 'p, 'j, 'ks) bascule
    \<Rightarrow> ('kp auth_option, ('mw, 'kp) Auth) apply_fun \<Rightarrow> 'kp auth_option list
    \<Rightarrow> go_panic + ('mw, 'kp) Auth option \<times> go_err option" where
  "New_auth lib apply_opts opt =
     (case apply_opts opt empty_auth of
        (_, Some err) \<Rightarrow> Inr (None, Some err)
      | (auth, None) \<Rightarrow>
          go_bind (if isBasic auth then Inr (GetBasicAuthMiddleware lib auth) else GetJwtAuthMiddleware lib auth)
            (\<lambda>(m, err). go_bind (if err = None then Inr () else log_error auth ())
              (\<lambda>_. Inr (Some (auth\<lparr>Middleware := m\<rparr>), None))))"

section \<open>The public keys\<close>

text \<open>
  Keys of the library \<open>jwx\<close>, as far as the code reads them, with the material that is
  copied; an algorithm that is not set prints as the empty string.
\<close>

record key =
  key_alg :: string
  key_type :: string
  key_material :: string

definition AlgMap :: "string \<rightharpoonup> string list" where
  "AlgMap = [''RSA'' \<mapsto> [''RS256'', ''RS384'', ''RS512''], ''EC'' \<mapsto> [''ES256'', ''ES384'', ''ES512'']]"

record PublicKey =
  refreshIntervalHours :: int64
  keyUrl :: string

definition NewKeyProvider :: "int64 \<Rightarrow> string \<Rightarrow> PublicKey option" where
  "NewKeyProvider hours url = Some \<lparr>refreshIntervalHours = hours, keyUrl = url\<rparr>"

definition nanos_per_hour :: int64 where "nanos_per_hour = 3600000000000"

text \<open>
  \<open>GetKeys\<close> registers the address with the cache of the library, for a refresh interval
  that is multiplied in 64 bits, and returns the cached set with the error.
\<close>

definition GetKeys :: "(string \<Rightarrow> int64 \<Rightarrow> go_err option) \<Rightarrow> (string \<Rightarrow> 'ks) \<Rightarrow> PublicKey
    \<Rightarrow> 'ks \<times> go_err option" where
  "GetKeys register cached_set p =
     (let err = register (keyUrl p) (refreshIntervalHours p * nanos_per_hour)
      in (cached_set (keyUrl p), err))"

record jwk =
  Clone :: "key \<Rightarrow> key \<times> go_err option"
  Set_alg :: "string \<Rightarrow> key \<Rightarrow> key \<times> go_err option"
  AddKey :: "key list \<Rightarrow> key \<Rightarrow> key list \<times> go_err option"

text \<open>The loop over the algorithms of a key type, and the loop over the keys.\<close>

fun alg_loop :: "jwk \<Rightarrow> key \<Rightarrow> string list \<Rightarrow> key list \<Rightarrow> key list \<times> go_err option" where
  "alg_loop lib key [] newKeys = (newKeys, None)"
| "alg_loop lib key (alg # algs) newKeys =
     (case Clone lib key of
        (_, Some err) \<Rightarrow> (newKeys, Some err)
      | (keyDup, None) \<Rightarrow>
     (case Set_alg lib alg keyDup of
        (_, Some err) \<Rightarrow> (newKeys, Some err)
      | (keyDup', None) \<Rightarrow>
     (case AddKey lib newKeys keyDup' of
        (newKeys', Some err) \<Rightarrow> (newKeys', Some err)
      | (newKeys', None) \<Rightarrow> alg_loop lib key algs newKeys')))"

fun key_loop :: "jwk \<Rightarrow> key list \<Rightarrow> key list \<Rightarrow> key list \<times> go_err option" where
  "key_loop lib [] newKeys = (newKeys, None)"
| "key_loop lib (key # keys) newKeys =
     (case (if key_alg key \<noteq> '''' then AddKey lib newKeys key
            else alg_loop lib key (case AlgMap (key_type key) of None \<Rightarrow> [] | Some algs \<Rightarrow> algs) newKeys) of
        (newKeys', Some err) \<Rightarrow> (newKeys', Some err)
      | (newKeys', None) \<Rightarrow> key_loop lib keys newKeys')"

text \<open>An error anywhere yields the fetched set.\<close>

definition GetPostFetcher :: "jwk \<Rightarrow> string \<Rightarrow> key list \<Rightarrow> key list \<times> go_err option" where
  "GetPostFetcher lib url keySet =
     (case key_loop lib keySet [] of
        (_, Some err) \<Rightarrow> (keySet, Some err)
      | (newKeys, None) \<Rightarrow> (newKeys, None))"

section \<open>Properties\<close>

lemma service_loop_iff: "service_loop c ss \<longleftrightarrow> c \<in> set ss"
  by (induction ss) auto

lemma capability_loop_iff: "capability_loop cs ss \<longleftrightarrow> (\<exists>c \<in> set cs. c \<in> set ss)"
  by (induction cs) (auto simp: service_loop_iff)

text \<open>
  C34. Who gets in. With basic authentication, exactly the tokens that carry the configured name
  and password; any other token has bad credentials. With web tokens, a token without
  claims has bad credentials, and one with claims gets in exactly if no service capability
  is configured or it has one of them, and is unauthorized otherwise.
\<close>

theorem validators_decide:
  "basic_validator auth t =
     (if tk_basic t = Some (Username (Basic_a auth), Password (Basic_a auth)) then None
      else Some ErrBadCredentials)
   \<and> jwt_validator auth t =
     (if \<not> tk_claims t then Some ErrBadCredentials
      else if ServiceCapabilities (Jwt_a auth) = []
          \<or> (\<exists>c \<in> set (fst (tk_capabilities t)). c \<in> set (ServiceCapabilities (Jwt_a auth))) then None
      else Some ErrUnauthorized)"
  by (auto simp: basic_validator_def jwt_validator_def checkCapabilities_def capability_loop_iff
      split: option.splits prod.splits)

text \<open>
  The errors on the way to the middleware: with basic authentication of the parser; with web
  tokens of the keys, the token parser and the bearer parser, each made from the one before. And the
  last call, which makes the middleware.
\<close>

definition parser_errors :: "('mw, 'kp, 'p, 'j, 'ks) bascule \<Rightarrow> ('mw, 'kp) Auth \<Rightarrow> go_err option list" where
  "parser_errors lib auth =
     (if isBasic auth then [snd (new_basic_parser lib)]
      else let keys = get_keys lib (the (keyProvider auth)); jwtp = new_token_parser lib (fst keys)
           in [snd keys, snd jwtp, snd (new_bearer_parser lib (fst jwtp))])"

definition last_call :: "('mw, 'kp, 'p, 'j, 'ks) bascule \<Rightarrow> ('mw, 'kp) Auth \<Rightarrow> 'mw option \<times> go_err option" where
  "last_call lib auth =
     (if isBasic auth then new_middleware lib (fst (new_basic_parser lib)) basic_validator
      else new_middleware lib (fst (new_bearer_parser lib (fst (new_token_parser lib
             (fst (get_keys lib (the (keyProvider auth)))))))) jwt_validator)"

abbreviation some_error :: "go_err option list \<Rightarrow> bool" where
  "some_error es \<equiv> \<exists>e \<in> set es. e \<noteq> None"

lemma basic_outcome:
  assumes "isBasic auth"
  shows "GetBasicAuthMiddleware lib auth =
     (if some_error (parser_errors lib auth) then (None, hd (parser_errors lib auth)) else last_call lib auth)"
  using assms by (auto simp: GetBasicAuthMiddleware_def parser_errors_def last_call_def split: prod.splits option.splits)

lemma jwt_outcome:
  assumes "\<not> isBasic auth"
  shows "GetJwtAuthMiddleware lib auth = Inr (m, e) \<longleftrightarrow> keyProvider auth \<noteq> None
     \<and> (if some_error (parser_errors lib auth)
        then a_logger auth \<noteq> None \<and> m = None \<and> e = hd (filter (\<lambda>e. e \<noteq> None) (parser_errors lib auth))
        else last_call lib auth = (m, e))"
  using assms by (auto simp: GetJwtAuthMiddleware_def parser_errors_def last_call_def log_error_def Let_def
      split: prod.splits option.splits)

lemma jwt_panics:
  assumes "\<not> isBasic auth"
  shows "isl (GetJwtAuthMiddleware lib auth)
     \<longleftrightarrow> keyProvider auth = None \<or> a_logger auth = None \<and> some_error (parser_errors lib auth)"
  using assms by (auto simp: GetJwtAuthMiddleware_def parser_errors_def log_error_def Let_def
      split: prod.splits option.splits)

text \<open>
  C35. \<open>New\<close> reports an error only when the options cannot be applied. Whatever goes wrong in
  making the middleware is logged and forgotten: \<open>New\<close> returns no error, and a middleware that is
  \<open>nil\<close> if any of the basic parser, the keys, the token parser and the bearer parser that it
  needs cannot be had, and otherwise what \<open>NewMiddleware\<close> returned for the last parser and the
  validator of the kind asked for, be it with an error or without. It panics exactly if web tokens have no
  key provider, or if something goes wrong, \<open>NewMiddleware\<close> included, and there is no logger.
\<close>

theorem New_auth_swallows:
  assumes "apply_opts opt empty_auth = (auth, err)"
  shows "(err \<noteq> None \<longrightarrow> New_auth lib apply_opts opt = Inr (None, err))
     \<and> (err = None \<longrightarrow>
         (isl (New_auth lib apply_opts opt) \<longleftrightarrow> \<not> isBasic auth \<and> keyProvider auth = None
            \<or> a_logger auth = None \<and> some_error (parser_errors lib auth @ [snd (last_call lib auth)]))
         \<and> (\<forall>r e. New_auth lib apply_opts opt = Inr (r, e) \<longrightarrow> e = None \<and>
              (\<exists>m. r = Some (auth\<lparr>Middleware := m\<rparr>)
                 \<and> (some_error (parser_errors lib auth) \<longrightarrow> m = None)
                 \<and> (\<not> some_error (parser_errors lib auth) \<longrightarrow> m = fst (last_call lib auth)))))"
proof (cases "isBasic auth")
  case True
  obtain m e where "last_call lib auth = (m, e)" by fastforce
  with basic_outcome [OF True, of lib] True assms show ?thesis
    by (cases err; cases e) (auto simp: New_auth_def log_error_def parser_errors_def)
next
  case False
  note jwt = jwt_outcome [OF False, of lib] jwt_panics [OF False, of lib]
  show ?thesis
  proof (cases "GetJwtAuthMiddleware lib auth")
    case (Inl p)
    with jwt assms False show ?thesis by (cases err) (auto simp: New_auth_def)
  next
    case (Inr me)
    obtain m e where "me = (m, e)" by fastforce
    with Inr jwt(1) [of m e] assms False show ?thesis
      by (cases err; cases e) (auto simp: New_auth_def log_error_def split: if_splits)
  qed
qed

definition failing_keys :: "(unit, 'kp, unit, unit, unit) bascule" where
  "failing_keys = \<lparr>new_basic_parser = ((), None), new_token_parser = (\<lambda>ks. ((), None)),
     new_bearer_parser = (\<lambda>j. ((), None)), new_middleware = (\<lambda>p v. (Some (), None)),
     get_keys = (\<lambda>kp. ((), Some (LibErr ''unreachable'')))\<rparr>"

theorem New_auth_swallows_witness:
  "\<exists>a. New_auth (failing_keys\<lparr>get_keys := \<lambda>kp. ((), None), new_bearer_parser := \<lambda>j. ((), Some (LibErr ''scheme''))\<rparr>)
       (\<lambda>opts a. (a\<lparr>a_logger := Some (), keyProvider := Some ()\<rparr>, None)) [] = Inr (Some a, None)
     \<and> Middleware a = None"
proof -
  let ?lib = "failing_keys\<lparr>get_keys := \<lambda>kp. ((), None), new_bearer_parser := \<lambda>j. ((), Some (LibErr ''scheme''))\<rparr>"
  let ?ap = "\<lambda>opts a. (a\<lparr>a_logger := Some (), keyProvider := Some ()\<rparr>, None)"
  have "\<not> isl (New_auth ?lib ?ap [])" "some_error (parser_errors ?lib (fst (?ap [] empty_auth)))"
    using New_auth_swallows [of ?ap "[]" "fst (?ap [] empty_auth)" None ?lib]
    by (simp_all add: empty_auth_def parser_errors_def Let_def)
  moreover from this(1) obtain r e where "New_auth ?lib ?ap [] = Inr (r, e)"
    by (cases "New_auth ?lib ?ap []") auto
  ultimately show ?thesis
    using New_auth_swallows [of ?ap "[]" "fst (?ap [] empty_auth)" None ?lib] by auto
qed

text \<open>
  The library as documented: a clone is a copy, an algorithm can be set, and a key that is not in
  the set yet is added at its end. (Keys are compared by identity, and the loop adds each
  fetched key and each fresh clone once.)
\<close>

definition honours_jwk :: "jwk \<Rightarrow> bool" where
  "honours_jwk lib \<longleftrightarrow> (\<forall>k. Clone lib k = (k, None))
     \<and> (\<forall>a k. Set_alg lib a k = (k\<lparr>key_alg := a\<rparr>, None))
     \<and> (\<forall>ks k. AddKey lib ks k = (ks @ [k], None))"

definition expand :: "key \<Rightarrow> key list" where
  "expand k = (if key_alg k \<noteq> '''' then [k]
     else if key_type k = ''RSA'' then map (\<lambda>a. k\<lparr>key_alg := a\<rparr>) [''RS256'', ''RS384'', ''RS512'']
     else if key_type k = ''EC'' then map (\<lambda>a. k\<lparr>key_alg := a\<rparr>) [''ES256'', ''ES384'', ''ES512'']
     else [])"

lemma alg_loop_lawful:
  "honours_jwk lib \<Longrightarrow> alg_loop lib k algs acc = (acc @ map (\<lambda>a. k\<lparr>key_alg := a\<rparr>) algs, None)"
  by (induction algs arbitrary: acc) (simp_all add: honours_jwk_def)

lemma key_loop_lawful: "honours_jwk lib \<Longrightarrow> key_loop lib ks acc = (acc @ concat (map expand ks), None)"
proof (induction ks arbitrary: acc)
  case (Cons k ks)
  then have "AddKey lib acc k = (acc @ [k], None)" by (simp add: honours_jwk_def)
  with Cons show ?case by (auto simp: alg_loop_lawful expand_def AlgMap_def)
qed simp

text \<open>
  C36. The fetched keys are expanded in order: a key with an algorithm stays, an RSA or EC key
  without one becomes three keys, one for each algorithm of its type, and a key of another type
  without one is dropped. So every key that is used has an algorithm.
\<close>

theorem post_fetch_expands:
  assumes "honours_jwk lib"
  shows "GetPostFetcher lib url ks = (concat (map expand ks), None)
     \<and> (\<forall>k \<in> set (fst (GetPostFetcher lib url ks)). key_alg k \<noteq> '''')"
  using key_loop_lawful [OF assms, of ks "[]"]
  by (auto simp: GetPostFetcher_def expand_def split: if_splits)

theorem post_fetch_expands_witness:
  "length (fst (GetPostFetcher \<lparr>Clone = (\<lambda>k. (k, None)), Set_alg = (\<lambda>a k. (k\<lparr>key_alg := a\<rparr>, None)),
       AddKey = (\<lambda>ks k. (ks @ [k], None))\<rparr> ''u''
     [\<lparr>key_alg = '''', key_type = ''RSA'', key_material = ''123''\<rparr>,
      \<lparr>key_alg = ''RS256'', key_type = ''RSA'', key_material = ''124''\<rparr>])) = 4"
proof -
  have "honours_jwk \<lparr>Clone = (\<lambda>k. (k, None)), Set_alg = (\<lambda>a k. (k\<lparr>key_alg := a\<rparr>, None)),
      AddKey = (\<lambda>ks k. (ks @ [k], None))\<rparr>" by (simp add: honours_jwk_def)
  from post_fetch_expands [OF this] show ?thesis by (simp add: expand_def)
qed

end
