(* ===== verification/Metrics_Provider.thy ===== *)
theory Metrics_Provider
  imports Go_Strings
begin

text \<open>
  The metrics of the program (\<open>internal/metrics/fx.go\<close>, \<open>tags.go\<close>) and the names under
  which the filters ask for them (\<open>filter/filter_module.go\<close>).

  \<open>touchkit\<close>'s constructors are kept as the constructors of a datatype: what \<open>Provide\<close>
  asks them to make. \<open>strconv.ParseFloat\<close> is a parameter, over an arbitrary type of numbers.
\<close>

section \<open>Definitions of metrics\<close>

type_synonym metricType = int

definition COUNTER :: metricType where "COUNTER = 1"
definition GAUGE :: metricType where "GAUGE = 2"
definition HISTOGRAM :: metricType where "HISTOGRAM = 3"
definition COUNTER_NO_LABELS :: metricType where "COUNTER_NO_LABELS = 4"
definition GAUGE_NO_LABELS :: metricType where "GAUGE_NO_LABELS = 5"

lemmas metric_types = COUNTER_def GAUGE_def HISTOGRAM_def COUNTER_NO_LABELS_def GAUGE_NO_LABELS_def

record metricDefinition =
  Type :: metricType
  Name :: string
  Help :: string
  Labels :: string
  Buckets :: string

definition UrlLabel :: string where "UrlLabel = ''url''"
definition EventLabel :: string where "EventLabel = ''event''"
definition ReasonLabel :: string where "ReasonLabel = ''reason''"
definition MetricNamespace :: string where "MetricNamespace = ''xmidt_event_streams''"

text \<open>A field that a Go literal leaves out is the empty string.\<close>

definition fxMetrics :: "metricDefinition list" where
  "fxMetrics =
    [\<lparr>Type = GAUGE, Name = ''queue_waiting_events'',
       Help = ''The number of events waiting to run in the queue.'', Labels = ''name'', Buckets = ''''\<rparr>,
     \<lparr>Type = GAUGE, Name = ''queue_batch_size'',
       Help = ''The number of items in a batch submitted for processing.'', Labels = ''name'', Buckets = ''''\<rparr>,
     \<lparr>Type = COUNTER, Name = ''queue_dropped_events'',
       Help = ''The number of events dropped on the floor.'', Labels = ''name'', Buckets = ''''\<rparr>,
     \<lparr>Type = COUNTER, Name = ''queue_submit_errors'',
       Help = ''error when queue submits a batch'', Labels = ''name'', Buckets = ''''\<rparr>,
     \<lparr>Type = HISTOGRAM, Name = ''queue_submit_duration'', Help = ''duration of call'', Labels = ''name'',
       Buckets = ''10, 100, 1000, 5000, 10000, 100000, 500000, 1000000, 2000000''\<rparr>,
     \<lparr>Type = COUNTER, Name = ''event_type_count'',
       Help = ''Incoming count of events by event type'', Labels = EventLabel, Buckets = ''''\<rparr>,
     \<lparr>Type = COUNTER, Name = ''dropped_message_count'', Help = ''messages dropped by id'',
       Labels = UrlLabel @ '','' @ ReasonLabel, Buckets = ''''\<rparr>]"

section \<open>Providing them\<close>

datatype 'f fx_option =
    touchkit_Counter string string "string list"          \<comment> \<open>name, help, labels\<close>
  | touchkit_Gauge string string "string list"
  | touchkit_Histogram string string "'f list" "string list"

definition comma :: char where "comma = CHR '',''"

fun bucket_limits :: "(string \<Rightarrow> 'f option) \<Rightarrow> string list \<Rightarrow> go_panic + 'f list" where
  "bucket_limits ParseFloat [] = Inr []"
| "bucket_limits ParseFloat (b # bs) =
     (case ParseFloat (TrimSpace b) of
        None \<Rightarrow> Inl (PanicMsg (''bucket has non-numeric value '' @ [CHR 0x27] @ b @ [CHR 0x27]))
      | Some f \<Rightarrow> go_bind (bucket_limits ParseFloat bs) (\<lambda>fs. Inr (f # fs)))"

text \<open>One turn of the loop. (No constructor of \<open>touchkit\<close> returns \<open>nil\<close>.)\<close>

definition provide_metric :: "(string \<Rightarrow> 'f option) \<Rightarrow> metricDefinition \<Rightarrow> go_panic + 'f fx_option" where
  "provide_metric ParseFloat m =
     (let labels = map TrimSpace (Split (Labels m) comma);
          name = MetricNamespace @ ''_'' @ Name m
      in if Type m = COUNTER then Inr (touchkit_Counter name (Help m) labels)
         else if Type m = COUNTER_NO_LABELS then Inr (touchkit_Counter name (Help m) [])
         else if Type m = GAUGE then Inr (touchkit_Gauge name (Help m) labels)
         else if Type m = GAUGE_NO_LABELS then Inr (touchkit_Gauge name (Help m) [])
         else if Type m = HISTOGRAM then
           go_bind (bucket_limits ParseFloat (Split (Buckets m) comma))
             (\<lambda>limits. Inr (touchkit_Histogram name (Help m) limits labels))
         else Inl (PanicMsg (''unknown metric type '' @ itoa (Type m) @ '' for '' @ [CHR 0x27] @ Name m @ [CHR 0x27])))"

fun provide_loop :: "(string \<Rightarrow> 'f option) \<Rightarrow> metricDefinition list \<Rightarrow> go_panic + 'f fx_option list" where
  "provide_loop ParseFloat [] = Inr []"
| "provide_loop ParseFloat (m # ms) =
     go_bind (provide_metric ParseFloat m)
       (\<lambda>opt. go_bind (provide_loop ParseFloat ms) (\<lambda>opts. Inr (opt # opts)))"

definition Provide :: "(string \<Rightarrow> 'f option) \<Rightarrow> go_panic + 'f fx_option list" where
  "Provide ParseFloat = provide_loop ParseFloat fxMetrics"

definition GetUnknownTagIfEmpty :: "string \<Rightarrow> string" where
  "GetUnknownTagIfEmpty tag = (if tag = '''' then ''unknown'' else tag)"

section \<open>What the filters ask for\<close>

text \<open>The named parameters of \<open>QueueTelemetryIn\<close>, \<open>FilterTelemetryIn\<close> and
  \<open>FilterManagerTelemetryIn\<close>, with the kind of metric each field has.\<close>

datatype kind = Counter | Gauge | Histogram

definition QueueTelemetryIn :: "(string \<times> kind) list" where
  "QueueTelemetryIn =
     [(''xmidt_event_streams_queue_waiting_events'', Gauge),
      (''xmidt_event_streams_queue_dropped_events'', Counter),
      (''xmidt_event_streams_queue_batch_size'', Gauge),
      (''xmidt_event_streams_queue_submit_errors'', Counter),
      (''xmidt_event_streams_queue_submit_duration'', Histogram)]"

definition FilterTelemetryIn :: "(string \<times> kind) list" where
  "FilterTelemetryIn = [(''xmidt_event_streams_dropped_message_count'', Counter)]"

definition FilterManagerTelemetryIn :: "(string \<times> kind) list" where
  "FilterManagerTelemetryIn = [(''xmidt_event_streams_event_type_count'', Counter)]"

fun named :: "'f fx_option \<Rightarrow> string \<times> kind" where
  "named (touchkit_Counter n h ls) = (n, Counter)"
| "named (touchkit_Gauge n h ls) = (n, Gauge)"
| "named (touchkit_Histogram n h bs ls) = (n, Histogram)"

fun label_names :: "'f fx_option \<Rightarrow> string list" where
  "label_names (touchkit_Counter n h ls) = ls"
| "label_names (touchkit_Gauge n h ls) = ls"
| "label_names (touchkit_Histogram n h bs ls) = ls"

section \<open>Properties\<close>

text \<open>Concrete splits and trims.\<close>

lemma trims:
  "TrimSpace ''name'' = ''name''" "TrimSpace ''event'' = ''event''" "TrimSpace ''url'' = ''url''"
  "TrimSpace ''reason'' = ''reason''"
  "TrimSpace ''10'' = ''10''" "TrimSpace '' 100'' = ''100''" "TrimSpace '' 1000'' = ''1000''"
  "TrimSpace '' 5000'' = ''5000''" "TrimSpace '' 10000'' = ''10000''" "TrimSpace '' 100000'' = ''100000''"
  "TrimSpace '' 500000'' = ''500000''" "TrimSpace '' 1000000'' = ''1000000''"
  "TrimSpace '' 2000000'' = ''2000000''"
  by (simp_all add: TrimSpace_ascii ascii_space_def byte_def)

lemma splits:
  "Split ''name'' comma = [''name'']" "Split ''event'' comma = [''event'']"
  "Split ''url,reason'' comma = [''url'', ''reason'']"
  "Split ''10, 100, 1000, 5000, 10000, 100000, 500000, 1000000, 2000000'' comma =
     [''10'', '' 100'', '' 1000'', '' 5000'', '' 10000'', '' 100000'', '' 500000'', '' 1000000'', '' 2000000'']"
  by (simp_all add: comma_def)

lemma provide_kinds:
  "Type m = GAUGE \<Longrightarrow> provide_metric ParseFloat m =
     Inr (touchkit_Gauge (MetricNamespace @ ''_'' @ Name m) (Help m) (map TrimSpace (Split (Labels m) comma)))"
  "Type m = COUNTER \<Longrightarrow> provide_metric ParseFloat m =
     Inr (touchkit_Counter (MetricNamespace @ ''_'' @ Name m) (Help m) (map TrimSpace (Split (Labels m) comma)))"
  "Type m = HISTOGRAM \<Longrightarrow> bucket_limits ParseFloat (Split (Buckets m) comma) = Inr bs \<Longrightarrow> provide_metric ParseFloat m =
     Inr (touchkit_Histogram (MetricNamespace @ ''_'' @ Name m) (Help m) bs (map TrimSpace (Split (Labels m) comma)))"
  by (simp_all add: provide_metric_def metric_types Let_def)

lemma provide_loop_Inr:
  "list_all2 (\<lambda>m opt. provide_metric ParseFloat m = Inr opt) ms opts \<Longrightarrow> provide_loop ParseFloat ms = Inr opts"
  by (induction ms opts rule: list_all2_induct) auto

lemma Provide_opts:
  assumes "bucket_limits ParseFloat (Split ''10, 100, 1000, 5000, 10000, 100000, 500000, 1000000, 2000000'' comma) = Inr bs"
  shows "Provide ParseFloat = Inr
    [touchkit_Gauge (MetricNamespace @ ''_'' @ ''queue_waiting_events'')
       ''The number of events waiting to run in the queue.'' [''name''],
     touchkit_Gauge (MetricNamespace @ ''_'' @ ''queue_batch_size'')
       ''The number of items in a batch submitted for processing.'' [''name''],
     touchkit_Counter (MetricNamespace @ ''_'' @ ''queue_dropped_events'')
       ''The number of events dropped on the floor.'' [''name''],
     touchkit_Counter (MetricNamespace @ ''_'' @ ''queue_submit_errors'')
       ''error when queue submits a batch'' [''name''],
     touchkit_Histogram (MetricNamespace @ ''_'' @ ''queue_submit_duration'') ''duration of call'' bs [''name''],
     touchkit_Counter (MetricNamespace @ ''_'' @ ''event_type_count'')
       ''Incoming count of events by event type'' [''event''],
     touchkit_Counter (MetricNamespace @ ''_'' @ ''dropped_message_count'')
       ''messages dropped by id'' [''url'', ''reason'']]"
  unfolding Provide_def fxMetrics_def
  by (rule provide_loop_Inr, intro list.rel_intros)
     (simp_all only: provide_kinds assms splits(1-3) trims(1-4) metricDefinition.simps EventLabel_def
        UrlLabel_def ReasonLabel_def append.simps list.map)

definition reads_digits :: "(string \<Rightarrow> 'f option) \<Rightarrow> bool" where
  "reads_digits ParseFloat \<longleftrightarrow> (\<forall>ds. ds \<noteq> '''' \<and> list_all is_digit ds \<longrightarrow> (\<exists>f. ParseFloat ds = Some f))"

lemma Provide_computed:
  assumes "reads_digits ParseFloat"
  shows "\<exists>opts. Provide ParseFloat = Inr opts \<and> map named opts =
     [(''xmidt_event_streams_queue_waiting_events'', Gauge), (''xmidt_event_streams_queue_batch_size'', Gauge),
      (''xmidt_event_streams_queue_dropped_events'', Counter), (''xmidt_event_streams_queue_submit_errors'', Counter),
      (''xmidt_event_streams_queue_submit_duration'', Histogram), (''xmidt_event_streams_event_type_count'', Counter),
      (''xmidt_event_streams_dropped_message_count'', Counter)]
     \<and> map label_names opts = [[''name''], [''name''], [''name''], [''name''], [''name''], [''event''], [''url'', ''reason'']]"
proof -
  have buckets: "\<exists>fs. bucket_limits ParseFloat bs = Inr fs"
    if "list_all (\<lambda>b. TrimSpace b \<noteq> [] \<and> list_all is_digit (TrimSpace b)) bs" for bs
    using that
  proof (induction bs)
    case (Cons b bs)
    then obtain f fs where "ParseFloat (TrimSpace b) = Some f" "bucket_limits ParseFloat bs = Inr fs"
      using assms by (auto simp: reads_digits_def)
    then show ?case by simp
  qed simp
  have "\<exists>bs. bucket_limits ParseFloat (Split ''10, 100, 1000, 5000, 10000, 100000, 500000, 1000000, 2000000'' comma) = Inr bs"
    by (rule buckets) (simp add: splits(4) trims is_digit_def del: Split.simps)
  then obtain bs where
    "bucket_limits ParseFloat (Split ''10, 100, 1000, 5000, 10000, 100000, 500000, 1000000, 2000000'' comma) = Inr bs" ..
  from Provide_opts [OF this] show ?thesis
    by (intro exI conjI) (assumption, simp_all only: MetricNamespace_def append.simps named.simps
        label_names.simps list.map)
qed

text \<open>
  C38. Provided \<open>ParseFloat\<close> reads strings of digits, \<open>Provide\<close> does not panic; no two metrics
  have the same name; and what it provides is exactly what the filters, their manager and
  the queues ask for, by name and kind, each with the labels their code uses: \<open>name\<close> for the
  queues, \<open>event\<close> for the count of event types, \<open>url\<close> and \<open>reason\<close> for dropped messages.
\<close>

theorem metrics_match:
  assumes "reads_digits ParseFloat"
  shows "\<exists>opts. Provide ParseFloat = Inr opts \<and> distinct (map (fst \<circ> named) opts)
     \<and> set (map named opts) = set (QueueTelemetryIn @ FilterTelemetryIn @ FilterManagerTelemetryIn)
     \<and> (\<forall>opt \<in> set opts.
          (named opt \<in> set QueueTelemetryIn \<longrightarrow> label_names opt = [''name''])
          \<and> (named opt \<in> set FilterTelemetryIn \<longrightarrow> label_names opt = [''url'', ''reason''])
          \<and> (named opt \<in> set FilterManagerTelemetryIn \<longrightarrow> label_names opt = [''event'']))"
proof -
  obtain opts where p: "Provide ParseFloat = Inr opts"
    and n: "map named opts = [(''xmidt_event_streams_queue_waiting_events'', Gauge),
      (''xmidt_event_streams_queue_batch_size'', Gauge), (''xmidt_event_streams_queue_dropped_events'', Counter),
      (''xmidt_event_streams_queue_submit_errors'', Counter), (''xmidt_event_streams_queue_submit_duration'', Histogram),
      (''xmidt_event_streams_event_type_count'', Counter), (''xmidt_event_streams_dropped_message_count'', Counter)]"
    and l: "map label_names opts = [[''name''], [''name''], [''name''], [''name''], [''name''], [''event''], [''url'', ''reason'']]"
    using Provide_computed [OF assms] by (elim exE conjE) (rule that)
  have d: "distinct (map fst (map named opts))" unfolding n by simp
  have s: "set (map named opts) = set (QueueTelemetryIn @ FilterTelemetryIn @ FilterManagerTelemetryIn)"
    unfolding n by (auto simp: QueueTelemetryIn_def FilterTelemetryIn_def FilterManagerTelemetryIn_def)
  have z: "(named opt, label_names opt) \<in> set (zip (map named opts) (map label_names opts))" if "opt \<in> set opts" for opt
    using that by (induction opts) auto
  have "\<forall>opt \<in> set opts.
          (named opt \<in> set QueueTelemetryIn \<longrightarrow> label_names opt = [''name''])
          \<and> (named opt \<in> set FilterTelemetryIn \<longrightarrow> label_names opt = [''url'', ''reason''])
          \<and> (named opt \<in> set FilterManagerTelemetryIn \<longrightarrow> label_names opt = [''event''])"
  proof
    fix opt assume "opt \<in> set opts"
    from z [OF this, unfolded n l] show "(named opt \<in> set QueueTelemetryIn \<longrightarrow> label_names opt = [''name''])
          \<and> (named opt \<in> set FilterTelemetryIn \<longrightarrow> label_names opt = [''url'', ''reason''])
          \<and> (named opt \<in> set FilterManagerTelemetryIn \<longrightarrow> label_names opt = [''event''])"
      by (auto simp: QueueTelemetryIn_def FilterTelemetryIn_def FilterManagerTelemetryIn_def)
  qed
  with p d s show ?thesis by (simp add: o_def)
qed

theorem metrics_match_witness: "\<exists>opts. Provide (\<lambda>ds. Some (length ds)) = Inr opts"
  using metrics_match [of "\<lambda>ds. Some (length ds)"] by (auto simp: reads_digits_def)

end
