(* ===== verification/My_Time.thy ===== *)
theory My_Time
  imports Kinesis
begin

text \<open>
  The package \<open>internal/mytime\<close> (\<open>time.go\<close>, \<open>timer.go\<close>): times read from numbers and
  dates, and the form they are stored in, a number of microseconds.

  Of the standard library, \<open>strconv.ParseInt\<close> and the conversions between numbers
  and times are defined here with their 64-bit arithmetic; parsing a date or a duration
  is a parameter. A \<open>time.Time\<close> is a number of nanoseconds as in \<open>Kinesis\<close>; the location
  is left out.
\<close>

section \<open>Reading a number\<close>

definition syntax_error :: go_err where "syntax_error = LibErr ''invalid syntax''"
definition range_error :: go_err where "range_error = LibErr ''value out of range''"

text \<open>The loop of \<open>ParseUint\<close>: an invalid character or an overflow of 64 bits ends it.\<close>

fun ParseUint_loop :: "nat \<Rightarrow> string \<Rightarrow> go_err + nat" where
  "ParseUint_loop n [] = Inr n"
| "ParseUint_loop n (c # cs) =
     (if of_char c < (48 :: nat) \<or> 57 < (of_char c :: nat) then Inl syntax_error
      else let n' = 10 * n + (of_char c - 48) in
        if 2 ^ 64 \<le> n' then Inl range_error else ParseUint_loop n' cs)"

definition ParseUint :: "string \<Rightarrow> go_err + nat" where
  "ParseUint s = (if s = '''' then Inl syntax_error else ParseUint_loop 0 s)"

definition ParseInt :: "string \<Rightarrow> go_err + int" where
  "ParseInt s =
     (if s = '''' then Inl syntax_error
      else
      let neg = (hd s = CHR ''-'');
          body = (if hd s = CHR ''+'' \<or> neg then tl s else s)
      in case ParseUint body of
           Inl e \<Rightarrow> Inl e
         | Inr un \<Rightarrow>
             if \<not> neg \<and> 2 ^ 63 \<le> un then Inl range_error
             else if neg \<and> 2 ^ 63 < un then Inl range_error
             else Inr (if neg then - int un else int un))"

section \<open>Times and numbers\<close>

text \<open>
  Go keeps seconds since the year 1 in an \<open>int64\<close>: the constructor adds the seconds up
  to 1970, which wraps for the largest arguments. \<open>UnixMicro\<close> has no such arguments.
\<close>

definition unixToInternal :: int64 where "unixToInternal = 62135596800"

definition time_Unix :: "int64 \<Rightarrow> time" where
  "time_Unix sec = (sint (sec + unixToInternal) - 62135596800) * 10 ^ 9"

definition time_UnixMicro :: "int64 \<Rightarrow> time" where
  "time_UnixMicro usec = sint usec * 1000"

text \<open>The method \<open>UnixMicro\<close> of a time, in 64-bit arithmetic.\<close>

definition UnixMicro :: "time \<Rightarrow> int64" where
  "UnixMicro t = word_of_int (t div 10 ^ 9) * 1000000 + word_of_int ((t mod 10 ^ 9) div 1000)"

section \<open>The functions of the package\<close>

type_synonym duration = int

definition second :: duration where "second = 10 ^ 9"
definition microsecond :: duration where "microsecond = 1000"

definition invalidTime :: time where "invalidTime = time_Unix 0"

definition errInvalidNumericTimeString :: go_err where
  "errInvalidNumericTimeString = GoErr ''invalid numeric time string''"
definition errInvalidTimeString :: go_err where
  "errInvalidTimeString = GoErr ''invalid time string''"
definition errInvalidTimeDurationString :: go_err where
  "errInvalidTimeDurationString = GoErr ''invalid time duration string''"

text \<open>\<open>time.Parse\<close>, for a layout and a string, and \<open>time.ParseDuration\<close>.\<close>

datatype layout = RFC3339 | RFC3339Nano

definition GetTimeFromXmidtTSString :: "(layout \<Rightarrow> string \<Rightarrow> time \<times> go_err option) \<Rightarrow> string
    \<Rightarrow> time \<times> go_err option" where
  "GetTimeFromXmidtTSString parse val = parse RFC3339Nano val"

definition GetTimeFromNumberString :: "string \<Rightarrow> duration \<Rightarrow> time \<times> go_err option" where
  "GetTimeFromNumberString val duration =
     (if val \<noteq> '''' then
        (case ParseInt val of
           Inl err \<Rightarrow> (invalidTime, Some err)
         | Inr t \<Rightarrow>
             if duration = second then (time_Unix (word_of_int t), None)
             else if duration = microsecond then (time_UnixMicro (word_of_int t), None)
             else (invalidTime, Some errInvalidNumericTimeString))
      else (invalidTime, Some errInvalidNumericTimeString))"

definition GetTimeFromDateString :: "(layout \<Rightarrow> string \<Rightarrow> time \<times> go_err option) \<Rightarrow> string
    \<Rightarrow> time \<times> go_err option" where
  "GetTimeFromDateString parse st =
     (case parse RFC3339 st of
        (_, Some err) \<Rightarrow> (invalidTime, Some errInvalidTimeString)
      | (t, None) \<Rightarrow> (t, None))"

definition GetDurationFromString :: "(string \<Rightarrow> duration \<times> go_err option) \<Rightarrow> string
    \<Rightarrow> duration \<times> go_err option" where
  "GetDurationFromString parse st =
     (case parse st of
        (_, Some err) \<Rightarrow> (0, Some errInvalidTimeDurationString)
      | (d, None) \<Rightarrow> (d, None))"

definition TimeToStored :: "time \<Rightarrow> int64" where
  "TimeToStored t = UnixMicro t"

definition StoredToTime :: "int64 \<Rightarrow> time" where
  "StoredToTime t = time_UnixMicro t"

text \<open>
  \<open>Timer\<close> reads the clock and returns a function that observes the milliseconds since;
  with both readings of the clock, the observation and its label. \<open>Milliseconds\<close> divides
  towards zero.
\<close>

definition Milliseconds :: "duration \<Rightarrow> int" where
  "Milliseconds d = (if d < 0 then - (- d div 10 ^ 6) else d div 10 ^ 6)"

definition Timer :: "string \<Rightarrow> time \<Rightarrow> time \<Rightarrow> string \<times> int" where
  "Timer name start now = (name, Milliseconds (now - start))"

section \<open>Printed numbers are read back\<close>

lemma of_char_digit: "d < 10 \<Longrightarrow> (of_char (digit d) :: nat) = 48 + d"
  by (simp add: digit_def)

lemma ParseUint_loop_append:
  "ParseUint_loop n (xs @ ys) =
     (case ParseUint_loop n xs of Inl e \<Rightarrow> Inl e | Inr n' \<Rightarrow> ParseUint_loop n' ys)"
  by (induction n xs rule: ParseUint_loop.induct) (auto simp: Let_def)

lemma digits_not_Nil [simp]: "digits n \<noteq> []"
  by (subst digits.simps) simp

lemma ParseUint_digits: "n < 2 ^ 64 \<Longrightarrow> ParseUint_loop 0 (digits n) = Inr n"
proof (induction n rule: digits.induct)
  case (1 n)
  show ?case
  proof (cases "n < 10")
    case True
    then show ?thesis by (subst digits.simps) (simp add: of_char_digit Let_def)
  next
    case False
    have "n div 10 < 2 ^ 64" using "1.prems" by simp
    from "1.IH" [OF False this] have IH: "ParseUint_loop 0 (digits (n div 10)) = Inr (n div 10)" .
    have "digits n = digits (n div 10) @ [digit (n mod 10)]" using False by (subst digits.simps) simp
    with IH "1.prems" show ?thesis
      by (simp add: ParseUint_loop_append of_char_digit Let_def)
  qed
qed

lemma hd_digits: "hd (digits n) \<noteq> CHR ''-'' \<and> hd (digits n) \<noteq> CHR ''+''"
proof (induction n rule: digits.induct)
  case (1 n)
  have dig: "digit d \<noteq> CHR ''-'' \<and> digit d \<noteq> CHR ''+''" if "d < 10" for d
    using of_char_digit [OF that] by (auto simp: char_of_def dest!: arg_cong [of _ _ "of_char :: char \<Rightarrow> nat"])
  show ?case
  proof (cases "n < 10")
    case True
    then show ?thesis using dig by (subst (1 2) digits.simps) simp
  next
    case False
    with "1.IH" show ?thesis by (subst (1 2) digits.simps) simp
  qed
qed

lemma ParseInt_itoa:
  assumes "- (2 ^ 63) \<le> t" "t < 2 ^ 63"
  shows "ParseInt (itoa t) = Inr t"
proof (cases "t < 0")
  case True
  then have "nat (- t) < 2 ^ 64" "nat (- t) \<le> 2 ^ 63" using assms(1) by simp_all
  with True ParseUint_digits [of "nat (- t)"] show ?thesis
    by (simp add: ParseInt_def itoa_def ParseUint_def)
next
  case False
  then have "nat t < 2 ^ 64" "nat t < 2 ^ 63" using assms(2) by simp_all
  with False ParseUint_digits [of "nat t"] hd_digits [of "nat t"] show ?thesis
    by (simp add: ParseInt_def itoa_def ParseUint_def)
qed

section \<open>What is read from a number\<close>

text \<open>
  The decimal value of a string of digits, and what \<open>ParseInt\<close> accepts: an optional sign
  and at least one digit, with a value that fits in 64 bits.
\<close>

fun decimal :: "nat \<Rightarrow> string \<Rightarrow> nat" where
  "decimal n [] = n"
| "decimal n (c # cs) = decimal (10 * n + (of_char c - 48)) cs"

lemma decimal_mono: "n \<le> decimal n s"
proof (induction n s rule: decimal.induct)
  case (2 n c cs)
  have "n \<le> 10 * n + (of_char c - 48)" by simp
  with "2.IH" show ?case by simp
qed simp

lemma ParseUint_loop_iff:
  "n < 2 ^ 64 \<Longrightarrow> ParseUint_loop n s = Inr v \<longleftrightarrow> list_all is_digit s \<and> v = decimal n s \<and> v < 2 ^ 64"
proof (induction n s rule: ParseUint_loop.induct)
  case (1 n)
  then show ?case by auto
next
  case (2 n c cs)
  let ?n = "10 * n + (of_char c - 48)"
  show ?case
  proof (cases "is_digit c")
    case True
    show ?thesis
    proof (cases "?n < 2 ^ 64")
      case small: True
      have "ParseUint_loop ?n cs = Inr v \<longleftrightarrow> list_all is_digit cs \<and> v = decimal ?n cs \<and> v < 2 ^ 64"
        by (rule "2.IH") (use True small in \<open>simp_all add: is_digit_def\<close>)
      moreover have "ParseUint_loop n (c # cs) = ParseUint_loop ?n cs"
        using True small by (simp add: is_digit_def Let_def)
      ultimately show ?thesis using True by simp
    next
      case False
      then have "ParseUint_loop n (c # cs) = Inl range_error"
        using True by (simp add: is_digit_def Let_def)
      moreover have "\<not> decimal n (c # cs) < 2 ^ 64"
        using decimal_mono [of ?n cs] False by simp
      ultimately show ?thesis by auto
    qed
  next
    case False
    then show ?thesis by (auto simp: is_digit_def)
  qed
qed

definition is_number :: "string \<Rightarrow> nat \<Rightarrow> bool" where
  "is_number ds v \<longleftrightarrow> ds \<noteq> [] \<and> list_all is_digit ds \<and> v = decimal 0 ds"

definition signed_number :: "string \<Rightarrow> int \<Rightarrow> bool" where
  "signed_number s t \<longleftrightarrow> (\<exists>v. is_number s v \<and> t = int v)
     \<or> (\<exists>ds v. s = CHR ''+'' # ds \<and> is_number ds v \<and> t = int v)
     \<or> (\<exists>ds v. s = CHR ''-'' # ds \<and> is_number ds v \<and> t = - int v)"

lemma sign_not_number: "\<not> is_number (CHR ''-'' # ds) v" "\<not> is_number (CHR ''+'' # ds) v"
  by (simp_all add: is_number_def is_digit_def)

lemma ParseUint_iff: "ParseUint s = Inr v \<longleftrightarrow> is_number s v \<and> v < 2 ^ 64"
  using ParseUint_loop_iff [of 0 s v] by (auto simp: ParseUint_def is_number_def)

lemma ParseInt_iff: "ParseInt s = Inr t \<longleftrightarrow> signed_number s t \<and> - (2 ^ 63) \<le> t \<and> t < 2 ^ 63"
proof (cases s)
  case Nil
  then show ?thesis by (simp add: ParseInt_def signed_number_def is_number_def)
next
  case (Cons c cs)
  consider "c = CHR ''-''" | "c = CHR ''+''" | "c \<noteq> CHR ''-''" "c \<noteq> CHR ''+''" by blast
  then show ?thesis
  proof cases
    case 1
    have "signed_number s t \<longleftrightarrow> (\<exists>v. is_number cs v \<and> t = - int v)"
      by (simp add: signed_number_def Cons 1 sign_not_number)
    moreover have "ParseInt s = Inr t \<longleftrightarrow> (\<exists>un. ParseUint cs = Inr un \<and> \<not> 2 ^ 63 < un \<and> t = - int un)"
      by (auto simp: ParseInt_def Cons 1 split: sum.split)
    ultimately show ?thesis
      unfolding ParseUint_iff by auto
  next
    case 2
    have "signed_number s t \<longleftrightarrow> (\<exists>v. is_number cs v \<and> t = int v)"
      by (simp add: signed_number_def Cons 2 sign_not_number)
    moreover have "ParseInt s = Inr t \<longleftrightarrow> (\<exists>un. ParseUint cs = Inr un \<and> \<not> 2 ^ 63 \<le> un \<and> t = int un)"
      by (auto simp: ParseInt_def Cons 2 split: sum.split)
    ultimately show ?thesis
      unfolding ParseUint_iff by auto
  next
    case 3
    have "signed_number s t \<longleftrightarrow> (\<exists>v. is_number s v \<and> t = int v)"
      using 3 by (simp add: signed_number_def Cons)
    moreover have "ParseInt s = Inr t \<longleftrightarrow> (\<exists>un. ParseUint s = Inr un \<and> \<not> 2 ^ 63 \<le> un \<and> t = int un)"
      using 3 by (auto simp: ParseInt_def Cons split: sum.split)
    ultimately show ?thesis
      unfolding ParseUint_iff by auto
  qed
qed

section \<open>Properties\<close>

lemma time_Unix_value:
  assumes "- (2 ^ 63) \<le> t" "t < 2 ^ 63"
  shows "time_Unix (word_of_int t) =
     (if t + 62135596800 < 2 ^ 63 then t else t - 2 ^ 64) * 10 ^ 9"
proof (cases "t + 62135596800 < 2 ^ 63")
  case True
  have "sint (word_of_int t + unixToInternal) = t + 62135596800"
    using sint_of_int64 [of "t + 62135596800"] True assms by (simp add: unixToInternal_def flip: wi_hom_add)
  with True show ?thesis by (simp add: time_Unix_def)
next
  case False
  have "word_of_int t + unixToInternal = (word_of_int (t + 62135596800 - 2 ^ 64) :: int64)"
    by (simp add: unixToInternal_def word_of_int_eq_iff take_bit_eq_mod flip: wi_hom_add)
  then have "sint (word_of_int t + unixToInternal) = t + 62135596800 - 2 ^ 64"
    using False assms by (simp only:) (rule sint_of_int64, simp_all)
  with False show ?thesis by (simp add: time_Unix_def)
qed

text \<open>
  C39. A number of microseconds or seconds that fits in 64 bits, printed in decimal, is
  read back as the time of that number. In microseconds this holds for every 64-bit value; in
  seconds the value wraps around when it is within 62135596800 of the largest \<open>int64\<close>,
  and the result is then a time before year 1.
\<close>

theorem number_string_roundtrip:
  assumes "- (2 ^ 63) \<le> t" and "t < 2 ^ 63"
  shows "GetTimeFromNumberString (itoa t) microsecond = (t * 1000, None)
     \<and> GetTimeFromNumberString (itoa t) second =
         ((if t + 62135596800 < 2 ^ 63 then t else t - 2 ^ 64) * 10 ^ 9, None)"
proof -
  have "itoa t \<noteq> ''''" by (simp add: itoa_def)
  moreover have "sint (word_of_int t :: int64) = t" using assms by (rule sint_of_int64)
  ultimately show ?thesis
    using ParseInt_itoa [OF assms] time_Unix_value [OF assms]
    by (simp add: GetTimeFromNumberString_def second_def microsecond_def time_UnixMicro_def)
qed

theorem number_string_roundtrip_witness:
  "GetTimeFromNumberString ''-42'' microsecond = (-42000, None)"
proof -
  have "itoa (-42) = ''-42''"
    by (simp add: itoa_def digits.simps digit_def char_of_def bit_0)
  with number_string_roundtrip [of "-42"] show ?thesis by simp
qed

text \<open>
  \<open>GetTimeFromNumberString\<close> succeeds exactly on an optional sign followed by digits whose
  value fits in 64 bits, with a duration of one second or one microsecond; in every
  other case the time is the one of the epoch, with an error.
\<close>

theorem number_string_accepts:
  "(case GetTimeFromNumberString s d of
      (t, None) \<Rightarrow> (\<exists>v. signed_number s v \<and> - (2 ^ 63) \<le> v \<and> v < 2 ^ 63) \<and> (d = second \<or> d = microsecond)
    | (t, Some e) \<Rightarrow> t = 0
        \<and> \<not> ((\<exists>v. signed_number s v \<and> - (2 ^ 63) \<le> v \<and> v < 2 ^ 63) \<and> (d = second \<or> d = microsecond)))"
proof -
  have "invalidTime = 0"
    using time_Unix_value [of 0] by (simp add: invalidTime_def)
  then show ?thesis
    unfolding ParseInt_iff [symmetric]
    by (cases "ParseInt s") (auto simp: GetTimeFromNumberString_def ParseInt_def [of "''''"])
qed

text \<open>
  C40. The stored form of a time: every number of microseconds comes back from the time it
  stands for, and a time whose microseconds fit in 64 bits comes back rounded down to the
  microsecond.
\<close>

theorem stored_time_roundtrip:
  assumes "- (2 ^ 63) \<le> t div 1000" and "t div 1000 < 2 ^ 63"
  shows "TimeToStored (StoredToTime u) = u \<and> StoredToTime (TimeToStored t) = t - t mod 1000"
proof -
  have micro: "UnixMicro t = word_of_int (t div 1000)" for t
  proof -
    have "t mod (1000 * 10 ^ 6) = 1000 * (t div 1000 mod 10 ^ 6) + t mod 1000"
      by (rule zmod_zmult2_eq) simp
    then have "(t mod 10 ^ 9) div 1000 = t div 1000 mod 10 ^ 6" by simp
    moreover have "t div 10 ^ 9 = t div 1000 div 10 ^ 6"
      using zdiv_zmult2_eq [of "10 ^ 6" t 1000] by simp
    ultimately have "t div 1000 = t div 10 ^ 9 * 1000000 + (t mod 10 ^ 9) div 1000"
      using div_mult_mod_eq [of "t div 1000" "10 ^ 6"] by simp
    then show ?thesis by (simp add: UnixMicro_def flip: wi_hom_add wi_hom_mult)
  qed
  have "t div 1000 * 1000 = t - t mod 1000" by (simp add: minus_mod_eq_div_mult)
  with sint_of_int64 [OF assms] show ?thesis
    by (simp add: TimeToStored_def StoredToTime_def micro time_UnixMicro_def)
qed

theorem stored_time_roundtrip_witness:
  "TimeToStored (StoredToTime 7) = 7 \<and> StoredToTime (TimeToStored 1234567) = 1234000"
  using stored_time_roundtrip [of 1234567 7] by simp

end
