(* ===== verification/Install.thy ===== *)
theory Install
  imports Module_Properties Event_Properties Authentication Metrics_Provider My_Time
begin

text \<open>
  The program as it is put together (\<open>internal/install\<close>): the configuration with its
  defaults, the providers of the logger, the authentication and the handlers, and the routes of
  the servers.

  Parameters: the libraries for configuration (\<open>goschtalt\<close>), logging (\<open>sallust\<close>) and options,
  and \<open>ThenFunc\<close> of the middleware. A server's handler is kept as a datatype: the calls of
  \<open>Method\<close> on its mux, in order, and what is wrapped around it.
\<close>

section \<open>Configuration\<close>

record ServerConfig =
  Network :: string
  Address :: string

record HealthServer =
  hs_HTTP :: ServerConfig
  hs_Path :: string

record MetricsServer =
  ms_HTTP :: ServerConfig
  ms_Path :: string

record PrimaryServer =
  pr_HTTP :: ServerConfig

record PprofServer =
  pp_HTTP :: ServerConfig
  pp_Path :: string

record Servers =
  Health :: HealthServer
  Metrics_s :: MetricsServer
  Pprof_s :: PprofServer
  Primary :: PrimaryServer
  Alternate :: PrimaryServer

record Route =
  Path :: string
  Server :: string

record Routes =
  Events_r :: Route

record Auth_config =
  ac_IsBasic :: bool
  ac_Basic :: Basic
  ac_Jwt :: Jwt

record RequestHandler_config =
  MaxOutstanding :: int32

record touchstone_config =
  DefaultNamespace :: string
  DefaultSubsystem :: string

record touchhttp_config =
  InstrumentMetricHandler :: bool
  MaxRequestsInFlight :: int
  Timeout :: duration

text \<open>
  The logging configuration has the fields that \<open>provideLogger\<close> sets. Of the other library
  configurations, the fields that the defaults set.
\<close>

record sallust_config =
  EncodeLevel :: string
  EncodeTime :: string
  Level :: string
  Development :: bool
  Encoding :: string
  OutputPaths :: "string list"
  ErrorOutputPaths :: "string list"

record Config =
  Logging :: sallust_config
  ApplicationName :: string
  Prometheus :: touchstone_config
  PrometheusHandler :: touchhttp_config
  Servers_c :: Servers
  Routes_c :: Routes
  RequestHandler_c :: RequestHandler_config
  Auth_c :: Auth_config
  FilterManager_c :: FilterManagerConfig

definition applicationName :: string where "applicationName = ''eventStream''"

definition defaultFilter :: FilterConfig where
  "defaultFilter =
     \<lparr>Stream_c = \<lparr>StreamName = ''comcast-cl.device-status.local'',
        ConfigItems =
          [\<lparr>Key = Endpoint_key, Value = ''http://localhost:4567''\<rparr>, \<lparr>Key = Region_key, Value = ''local''\<rparr>,
           \<lparr>Key = AccessKey_key, Value = ''accessKey''\<rparr>, \<lparr>Key = SecretKey_key, Value = ''secretKey''\<rparr>,
           \<lparr>Key = SessionToken_key, Value = ''sessionToken''\<rparr>, \<lparr>Key = Version_key, Value = ''1.0''\<rparr>]\<rparr>,
      AltStreams = [], Events = [''device-status.*''], Metadata_c = \<lparr>DeviceIds = []\<rparr>,
      DestType_c = ''kinesis'', QueueSize = 100, BatchSize_c = 1, MaxWorkers = 100, StreamVersion = ''1.0''\<rparr>"

definition defaultAuth :: Auth_config where
  "defaultAuth = \<lparr>ac_IsBasic = True,
     ac_Basic = \<lparr>Username = ''eventstream'', Password = ''eventstream-password'',
       UpstreamUsername = '''', UpstreamPassword = ''''\<rparr>,
     ac_Jwt = \<lparr>PublicKeyUrl = ''https://sat-stg.codebig2.net/v2/sign-keys/available'',
       KeyRefreshInterval = 1, ServiceCapabilities = [''eventstream:write''],
       TokenUrl = '''', ClientId = '''', ClientSecret = ''''\<rparr>\<rparr>"

definition empty_sallust :: sallust_config where
  "empty_sallust = \<lparr>EncodeLevel = '''', EncodeTime = '''', Level = '''', Development = False, Encoding = '''',
     OutputPaths = [], ErrorOutputPaths = []\<rparr>"

text \<open>The prefix of the profiling paths is a constant of \<open>arrangepprof\<close>.\<close>

definition defaultConfig :: "string \<Rightarrow> Config" where
  "defaultConfig DefaultPathPrefix =
     \<lparr>Logging = empty_sallust,
      ApplicationName = applicationName,
      Prometheus = \<lparr>DefaultNamespace = ''anemoi'', DefaultSubsystem = ''eventstream''\<rparr>,
      PrometheusHandler = \<lparr>InstrumentMetricHandler = True, MaxRequestsInFlight = 5, Timeout = 5 * second\<rparr>,
      Servers_c =
        \<lparr>Health = \<lparr>hs_HTTP = \<lparr>Network = ''tcp'', Address = '':8088''\<rparr>, hs_Path = ''/''\<rparr>,
         Metrics_s = \<lparr>ms_HTTP = \<lparr>Network = ''tcp'', Address = ''127.0.0.1:9361''\<rparr>, ms_Path = ''/metrics''\<rparr>,
         Pprof_s = \<lparr>pp_HTTP = \<lparr>Network = ''tcp'', Address = ''127.0.0.1:9999''\<rparr>, pp_Path = DefaultPathPrefix\<rparr>,
         Primary = \<lparr>pr_HTTP = \<lparr>Network = ''tcp'', Address = ''127.0.0.1:8080''\<rparr>\<rparr>,
         Alternate = \<lparr>pr_HTTP = \<lparr>Network = ''tcp'', Address = ''127.0.0.1:9090''\<rparr>\<rparr>\<rparr>,
      Routes_c = \<lparr>Events_r = \<lparr>Path = ''/api/events'', Server = ''primary''\<rparr>\<rparr>,
      RequestHandler_c = \<lparr>MaxOutstanding = 0\<rparr>,
      Auth_c = defaultAuth,
      FilterManager_c = \<lparr>c_DeliveryRetries = 3, c_Filters = [defaultFilter], c_DefaultQueueSize = 1000,
        c_DefaultBatchSize = 100, c_DefaultMaxWorkers = 1000\<rparr>\<rparr>"

section \<open>Command line, configuration and logger\<close>

record CLI =
  Dev :: bool
  Show :: bool
  Default_f :: string
  Graph :: string
  Files :: "string list"

text \<open>
  A provider either leaves the process, with an exit status, or returns a value and an error.
  Output is left out.
\<close>

datatype 'g config_outcome = Exit int | Returned "'g option" "go_err option"

text \<open>The description that the help prints, with the values of the build.\<close>

definition nl :: string where "nl = [CHR 0x0A]"
definition tab :: string where "tab = [CHR 0x09]"

record build_info =
  bi_commit :: string
  bi_version :: string
  bi_date :: string
  bi_builtBy :: string

definition undefined_build :: build_info where
  "undefined_build = \<lparr>bi_commit = ''undefined'', bi_version = ''undefined'', bi_date = ''undefined'',
     bi_builtBy = ''undefined''\<rparr>"

definition cli_description :: "build_info \<Rightarrow> string" where
  "cli_description b = ''The cpe agent for Xmidt service.'' @ nl
     @ tab @ ''Version:  '' @ bi_version b @ nl
     @ tab @ ''Date:     '' @ bi_date b @ nl
     @ tab @ ''Commit:   '' @ bi_commit b @ nl
     @ tab @ ''Built By: '' @ bi_builtBy b @ nl
     @ nl
     @ ''Configuration files are read in the following order unless the ''
     @ ''-f option is presented:'' @ nl
     @ ''----------------------------------------------------'' @ nl
     @ tab @ ''1.  $(pwd)/xmidt-agent.{properties|yaml|yml}'' @ nl
     @ tab @ ''2.  $(pwd)/conf.d/*.{properties|yaml|yml}'' @ nl
     @ tab @ ''3.  /etc/xmidt-agent/xmidt-agent.{properties|yaml|yml}'' @ nl
     @ tab @ ''4.  /etc/xmidt-agent/xonfig.d/*.{properties|yaml|yml}'' @ nl
     @ nl @ ''If an exact file (1 or 3) is found, the search stops.  If ''
     @ ''a conf.d directory is found, all files in that directory are ''
     @ ''read in lexical order.''
     @ nl @ nl @ ''When the -f is used, it adds to the list of files or directories ''
     @ ''to read.  The -f option can be used multiple times.''
     @ nl @ nl @ ''Environment variables are may be used in the configuration ''
     @ ''files.  The environment variables are expanded in the ''
     @ ''configuration files using the standard ${ VAR } syntax.''
     @ nl @ nl @ ''It is suggested to explore the configuration using the -s/--show ''
     @ ''option to help ensure you understand how the client is configured.''"

text \<open>
  The parser (\<open>kong\<close>) is a parameter: \<open>kong_New\<close> makes it, from the name, the description
  and whether its output is discarded; \<open>parse\<close> returns the command line or an error, or
  calls the parser's \<open>Exit\<close> with a status, as for the help; \<open>FatalIfErrorf\<close> calls \<open>Exit\<close>
  with a status \<open>fatal_code\<close> for an error. \<open>Exit\<close> ends the process, and panics under test.
\<close>

datatype parse_outcome = Parsed CLI | ParseError go_err | ParseExit int

definition provideCLIWithOpts :: "(string \<Rightarrow> string \<Rightarrow> bool \<Rightarrow> go_err option) \<Rightarrow> (string list \<Rightarrow> parse_outcome)
    \<Rightarrow> (go_err \<Rightarrow> int) \<Rightarrow> build_info \<Rightarrow> string list \<Rightarrow> bool \<Rightarrow> go_panic + CLI config_outcome" where
  "provideCLIWithOpts kong_New parse fatal_code b args testOpts =
     (case kong_New applicationName (cli_description b) testOpts of
        Some err \<Rightarrow> Inr (Returned None (Some err))
      | None \<Rightarrow>
          let leave = (\<lambda>status. if testOpts then Inl (PanicMsg ''exit'') else Inr (Exit status)) in
          (case parse args of
             Parsed cli \<Rightarrow> Inr (Returned (Some cli) None)
           | ParseError err \<Rightarrow> leave (fatal_code err)
           | ParseExit status \<Rightarrow> leave status))"

definition provideCLI :: "(string \<Rightarrow> string \<Rightarrow> bool \<Rightarrow> go_err option) \<Rightarrow> (string list \<Rightarrow> parse_outcome)
    \<Rightarrow> (go_err \<Rightarrow> int) \<Rightarrow> build_info \<Rightarrow> string list \<Rightarrow> go_panic + CLI config_outcome" where
  "provideCLI kong_New parse fatal_code b args = provideCLIWithOpts kong_New parse fatal_code b args False"

definition provideConfig :: "(string list \<Rightarrow> 'g \<times> go_err option) \<Rightarrow> ('g \<Rightarrow> go_err option) \<Rightarrow> CLI
    \<Rightarrow> 'g config_outcome" where
  "provideConfig new_config unmarshal cli =
     (case new_config (Files cli) of
        (_, Some err) \<Rightarrow> Returned None (Some err)
      | (gs, None) \<Rightarrow>
          if Show cli then Exit 0
          else if unmarshal gs \<noteq> None then Exit (-1)
          else Returned (Some gs) None)"

definition dev_config :: "sallust_config \<Rightarrow> sallust_config" where
  "dev_config c = c\<lparr>EncodeLevel := ''capitalColor'', EncodeTime := ''RFC3339'', Level := ''DEBUG'',
     Development := True, Encoding := ''console'', OutputPaths := OutputPaths c @ [''stderr''],
     ErrorOutputPaths := ErrorOutputPaths c @ [''stderr'']\<rparr>"

definition provideLogger :: "(sallust_config \<Rightarrow> 'level \<times> go_err option)
    \<Rightarrow> (sallust_config \<Rightarrow> logger \<times> go_err option) \<Rightarrow> CLI \<Rightarrow> sallust_config
    \<Rightarrow> 'level option \<times> logger \<times> go_err option" where
  "provideLogger NewZapConfig build cli sc =
     (let sc = (if Dev cli then dev_config sc else sc) in
      case NewZapConfig sc of
        (_, Some err) \<Rightarrow> (None, None, Some err)
      | (zcfg, None) \<Rightarrow> (case build sc of (logger, err) \<Rightarrow> (Some zcfg, logger, err)))"

section \<open>Authentication and handlers\<close>

definition auth_opts :: "logger \<Rightarrow> Auth_config \<Rightarrow> PublicKey auth_option list" where
  "auth_opts logger ac =
     [IsBasic (ac_IsBasic ac), WithBasic (ac_Basic ac), WithJwt (ac_Jwt ac), WithLogger_a logger,
      WithPublicKeyProvider (NewKeyProvider (KeyRefreshInterval (ac_Jwt ac)) (PublicKeyUrl (ac_Jwt ac)))]"

definition provideAuth :: "('mw, PublicKey, 'p, 'j, 'ks) bascule
    \<Rightarrow> (PublicKey auth_option, ('mw, PublicKey) Auth) apply_fun \<Rightarrow> logger \<Rightarrow> Auth_config
    \<Rightarrow> go_panic + ('mw, PublicKey) Auth option \<times> go_err option" where
  "provideAuth lib apply_opts logger ac = New_auth lib apply_opts (auth_opts logger ac)"

text \<open>The module of the event handler: an error is returned without a handler.\<close>

definition EventHandlerModule :: "logger \<Rightarrow> 'm option \<Rightarrow> 'm WrpEventHandler option \<times> go_err option" where
  "EventHandlerModule logger manager =
     (case NewWrpEventHandler manager logger of
        (_, Some err) \<Rightarrow> (None, Some err)
      | (h, None) \<Rightarrow> (h, None))"

text \<open>
  The module of the request handler: it asserts that the event handler is a
  \<open>WrpEventHandler\<close>, which panics on \<open>nil\<close>, and looks at its logger only for a
  warning, which needs a logger of its own.
\<close>

definition HandlerModule :: "('m WrpEventHandler handler_option, 'm WrpEventHandler RequestHandler) apply_fun
    \<Rightarrow> ('m WrpEventHandler handler_option, 'm WrpEventHandler RequestHandler) required_fun
    \<Rightarrow> logger \<Rightarrow> RequestHandler_config \<Rightarrow> 'm WrpEventHandler option
    \<Rightarrow> go_panic + 'm WrpEventHandler RequestHandler \<times> go_err option" where
  "HandlerModule apply_opts required logger rc eh =
     (case eh of
        None \<Rightarrow> Inl (PanicMsg ''interface conversion'')
      | Some impl \<Rightarrow>
          if Logger_e impl = None \<and> logger = None then Inl NilDeref
          else Inr (New_handler apply_opts required [WithLogger_h logger, WithEventHandler (Some impl)]))"

section \<open>Routes\<close>

datatype 'g handler =
    Guarded 'g             \<comment> \<open>the request handler behind the middleware\<close>
  | ConstantHandler int
  | MetricsHandler

text \<open>A call of \<open>Method\<close> on a mux: the method, the pattern and the handler.\<close>

type_synonym 'g mux = "(string \<times> string \<times> 'g handler) list"

datatype 'g server_handler =
    Instrumented string "'g mux"   \<comment> \<open>the server label of the metrics\<close>
  | Plain "'g mux"
  | Pprof string

record ('mw, 'kp, 'e) RoutesIn =
  ri_Routes :: Routes
  ri_Auth :: "('mw, 'kp) Auth"
  ri_EventHandler :: 'e

definition getHandlers :: "('mw option \<Rightarrow> 'e \<Rightarrow> go_panic + 'g) \<Rightarrow> 'mw option \<Rightarrow> 'e \<Rightarrow> go_panic + 'g" where
  "getHandlers ThenFunc m h = ThenFunc m h"

definition provideCoreOption :: "(nat \<Rightarrow> nat) \<Rightarrow> ('mw option \<Rightarrow> 'e \<Rightarrow> go_panic + 'g) \<Rightarrow> string
    \<Rightarrow> ('mw, 'kp, 'e) RoutesIn \<Rightarrow> go_panic + 'g server_handler" where
  "provideCoreOption lower ThenFunc server i =
     go_bind
       (if ToLower lower (Server (Events_r (ri_Routes i))) = server
        then go_bind (getHandlers ThenFunc (Middleware (ri_Auth i)) (ri_EventHandler i))
          (\<lambda>g. Inr [(''POST'', Path (Events_r (ri_Routes i)), Guarded g)])
        else Inr [])
       (\<lambda>mux. if server = ''primary'' then Inr (Instrumented ''primary'' mux)
              else Inr (Instrumented ''alternate'' mux))"

text \<open>The options of the two servers, which the servers apply to themselves.\<close>

definition provideCoreEndpoints :: "(nat \<Rightarrow> nat) \<Rightarrow> ('mw option \<Rightarrow> 'e \<Rightarrow> go_panic + 'g)
    \<Rightarrow> ('mw, 'kp, 'e) RoutesIn \<Rightarrow> (go_panic + 'g server_handler) \<times> (go_panic + 'g server_handler)" where
  "provideCoreEndpoints lower ThenFunc i =
     (provideCoreOption lower ThenFunc ''primary'' i, provideCoreOption lower ThenFunc ''alternate'' i)"

definition provideHealthCheck :: "string \<Rightarrow> 'g server_handler" where
  "provideHealthCheck path = Instrumented ''health'' [(''GET'', path, ConstantHandler 200)]"

definition provideMetricEndpoint :: "string \<Rightarrow> 'g server_handler" where
  "provideMetricEndpoint path = Plain [(''GET'', path, MetricsHandler)]"

definition providePprofEndpoint :: "string \<Rightarrow> 'g server_handler" where
  "providePprofEndpoint pathPrefix = Pprof pathPrefix"

end
