(* ===== verification/Install_Properties.thy ===== *)
theory Install_Properties
  imports Install
begin

text \<open>
  What the installed program promises: where the event route is, who gets past its guard with
  the default configuration, how many requests it works on, and what an event does to the
  queues of a program built from its configuration.
\<close>

section \<open>Routes\<close>

definition mounted :: "('mw option \<Rightarrow> 'e \<Rightarrow> go_panic + 'g) \<Rightarrow> ('mw, 'kp, 'e) RoutesIn \<Rightarrow> string
    \<Rightarrow> go_panic + 'g server_handler" where
  "mounted ThenFunc i server =
     (case ThenFunc (Middleware (ri_Auth i)) (ri_EventHandler i) of
        Inl p \<Rightarrow> Inl p
      | Inr g \<Rightarrow> Inr (Instrumented server [(''POST'', Path (Events_r (ri_Routes i)), Guarded g)]))"

text \<open>
  C33. The event route is on exactly the server that the configuration names, whatever the case
  of its letters: as a \<open>POST\<close> of the configured path to the request handler behind the
  middleware. The other server, and both for any other name, have no route at all.
\<close>

theorem event_route:
  assumes "ascii (Server (Events_r (ri_Routes i)))"
    and "map ascii_lower (Server (Events_r (ri_Routes i))) = name"
  shows "provideCoreEndpoints lower ThenFunc i =
     (if name = ''primary'' then mounted ThenFunc i ''primary'' else Inr (Instrumented ''primary'' []),
      if name = ''alternate'' then mounted ThenFunc i ''alternate'' else Inr (Instrumented ''alternate'' []))"
  using assms
  by (auto simp: provideCoreEndpoints_def provideCoreOption_def getHandlers_def ToLower_ascii mounted_def
      split: sum.split)

definition sample_routes :: "(unit, unit, nat) RoutesIn" where
  "sample_routes = \<lparr>ri_Routes = \<lparr>Events_r = \<lparr>Path = ''/api/events'', Server = ''Alternate''\<rparr>\<rparr>,
     ri_Auth = empty_auth\<lparr>Middleware := Some ()\<rparr>, ri_EventHandler = 7\<rparr>"

theorem event_route_witness:
  "provideCoreEndpoints (\<lambda>r. r) (\<lambda>m h. Inr h) sample_routes =
     (Inr (Instrumented ''primary'' []), Inr (Instrumented ''alternate'' [(''POST'', ''/api/events'', Guarded 7)]))"
proof -
  have "ascii (Server (Events_r (ri_Routes sample_routes)))"
    by (simp add: sample_routes_def byte_def)
  moreover have "map ascii_lower (Server (Events_r (ri_Routes sample_routes))) = ''alternate''"
    by (simp add: sample_routes_def ascii_lower_def byte_def char_of_def bit_0)
  ultimately show ?thesis
    using event_route [of sample_routes "''alternate''" "\<lambda>r. r" "\<lambda>m h. Inr h"]
    by (simp add: mounted_def) (simp add: sample_routes_def)
qed

section \<open>Authentication by default\<close>

fun put_auth_option :: "'kp auth_option \<Rightarrow> ('mw, 'kp) Auth \<Rightarrow> ('mw, 'kp) Auth" where
  "put_auth_option (IsBasic b) a = a\<lparr>isBasic := b\<rparr>"
| "put_auth_option (WithBasic b) a = a\<lparr>Basic_a := b\<rparr>"
| "put_auth_option (WithJwt j) a = a\<lparr>Jwt_a := j\<rparr>"
| "put_auth_option (WithLogger_a l) a = a\<lparr>a_logger := l\<rparr>"
| "put_auth_option (WithPublicKeyProvider p) a = a\<lparr>keyProvider := p\<rparr>"

text \<open>
  With the default configuration and libraries that work, the program's middleware is
  the one of the basic validator, which lets in exactly the tokens with the name
  \<open>eventstream\<close> and the password \<open>eventstream-password\<close>.
\<close>

theorem default_auth:
  assumes "honours_opts apply_opts put_auth_option"
    and "new_basic_parser lib = (tp, None)" and "new_middleware lib tp basic_validator = (Some mw, None)"
  shows "\<exists>a. provideAuth lib apply_opts logger (Auth_c (defaultConfig prefix)) = Inr (Some a, None)
     \<and> Middleware a = Some mw
     \<and> (\<forall>t. basic_validator a t = None \<longleftrightarrow> tk_basic t = Some (''eventstream'', ''eventstream-password''))"
proof -
  have "apply_opts (auth_opts logger defaultAuth) empty_auth =
      (fold put_auth_option (auth_opts logger defaultAuth) empty_auth, None)"
    using assms(1) by (rule honours_opts_fold)
  then show ?thesis
    using assms(2,3)
    by (auto simp: provideAuth_def New_auth_def defaultConfig_def auth_opts_def defaultAuth_def
        GetBasicAuthMiddleware_def basic_validator_def split: option.split)
qed

theorem default_auth_witness:
  "\<exists>a. provideAuth failing_keys (fst (put_all put_auth_option)) (Some ()) (Auth_c (defaultConfig ''/debug/pprof''))
       = Inr (Some a, None)
     \<and> basic_validator a \<lparr>tk_basic = Some (''eventstream'', ''guess''), tk_claims = False, tk_capabilities = ([], False)\<rparr>
       \<noteq> None"
proof -
  have h: "honours_opts (fst (put_all put_auth_option)) put_auth_option"
    by (simp add: honours_opts_def put_all_def)
  have lib: "new_basic_parser failing_keys = ((), None)"
    "new_middleware failing_keys () basic_validator = (Some (), None)" by (simp_all add: failing_keys_def)
  from default_auth [OF h lib, of "Some ()" "''/debug/pprof''"] obtain a where
    "provideAuth failing_keys (fst (put_all put_auth_option)) (Some ()) (Auth_c (defaultConfig ''/debug/pprof''))
       = Inr (Some a, None)"
    and "\<forall>t. basic_validator a t = None \<longleftrightarrow> tk_basic t = Some (''eventstream'', ''eventstream-password'')"
    by (elim exE conjE) (rule that)
  then show ?thesis by (intro exI [of _ a]) simp
qed

section \<open>The request handler\<close>

fun put_handler_option :: "'e handler_option \<Rightarrow> 'e RequestHandler \<Rightarrow> 'e RequestHandler" where
  "put_handler_option (WithLogger_h l) h = h\<lparr>rh_logger := l\<rparr>"
| "put_handler_option (WithEventHandler e) h = h\<lparr>eventHandler := e\<rparr>"

lemma HandlerModule_handler:
  assumes "honours_opts apply_opts put_handler_option"
    and "HandlerModule apply_opts required logger rc (Some eh) = Inr (rh, None)"
  shows "rh = \<lparr>rh_logger = logger, eventHandler = Some eh, incomingQueueDepth = 0, maxOutstanding = 10000\<rparr>"
  using assms(2) honours_opts_fold [OF assms(1)]
  by (auto simp: HandlerModule_def New_handler_def empty_handler_def MAX_OUTSTANDING_DEFAULT_def
      split: if_splits option.splits)

text \<open>
  C37. The configured \<open>MaxOutstanding\<close> has no effect: the handler the module makes has the limit
  of 10000, so among concurrent requests at most that many are past the test at any time (as
  long as fewer than \<open>2\<^sup>3\<^sup>1 - 1\<close> are in the handler when one enters).
\<close>

theorem max_outstanding_ignored:
  assumes "honours_opts apply_opts put_handler_option"
    and "HandlerModule apply_opts required logger rc (Some eh) = Inr (rh, None)"
    and "served (idle (maxOutstanding rh)) s"
  shows "sint (maxOutstanding rh) = 10000 \<and> working s \<le> 10000"
proof -
  have lim: "sint (maxOutstanding rh) = 10000"
    unfolding HandlerModule_handler [OF assms(1,2)] by simp
  have "server_inv (idle (maxOutstanding rh))" using lim by (simp add: server_inv_def idle_def)
  from server_inv_served [OF assms(3) this] lim have "int (working s) \<le> 10000"
    by (auto simp: server_inv_def idle_def)
  with lim show ?thesis by simp
qed

theorem max_outstanding_ignored_witness:
  "\<exists>rh. HandlerModule (fst (put_all put_handler_option)) (\<lambda>opts h. None) (Some ()) \<lparr>MaxOutstanding = 3\<rparr>
       (Some sample_event_handler) = Inr (rh, None) \<and> sint (maxOutstanding rh) = 10000"
proof -
  have h: "honours_opts (fst (put_all put_handler_option)) put_handler_option"
    by (simp add: honours_opts_def put_all_def)
  obtain rh where run: "HandlerModule (fst (put_all put_handler_option)) (\<lambda>opts h. None) (Some ())
      \<lparr>MaxOutstanding = 3\<rparr> (Some sample_event_handler) = Inr (rh, None)"
    by (simp add: HandlerModule_def New_handler_def put_all_def apply_each_put)
  from max_outstanding_ignored [OF h run served_start] run show ?thesis by blast
qed

section \<open>The program from its configuration\<close>

text \<open>
  The started program: its queues, one for each filter in the order of the manager's list, and
  the manager with each dispatcher named by the index of its queue.
\<close>

definition index_filter :: "nat \<Rightarrow> ('re, 'd) BaseFilter \<Rightarrow> ('re, nat) BaseFilter" where
  "index_filter j f = \<lparr>f_id = f_id f, streamVersion = streamVersion f, eventMatchers = eventMatchers f,
     metadataMatchers = metadataMatchers f, deliveryRetries = deliveryRetries f, f_wg = f_wg f,
     f_maxWorkers = f_maxWorkers f, f_batchSize = f_batchSize f, f_queueSize = f_queueSize f,
     dispatcher = (case dispatcher f of None \<Rightarrow> None | Some d \<Rightarrow> Some j), destType = destType f\<rparr>"

definition index_filters :: "(string \<times> ('re, 'd) BaseFilter) list \<Rightarrow> (string \<times> ('re, nat) BaseFilter) list" where
  "index_filters fs = map (\<lambda>(j, k, f). (k, index_filter j f)) (enumerate 0 fs)"

definition started_manager :: "('re, 'd, 'h) BaseFilterManager \<Rightarrow> ('re, nat, unit) BaseFilterManager" where
  "started_manager fm = \<lparr>dispatchProvider = None, m_deliveryRetries = m_deliveryRetries fm,
     m_logger = m_logger fm, filters = index_filters (filters fm), m_metrics = m_metrics fm,
     filterMetrics = filterMetrics fm, m_wg = m_wg fm, shutdown_closed = shutdown_closed fm,
     filterConfig = filterConfig fm, m_defaultQueueSize = m_defaultQueueSize fm,
     m_defaultBatchSize = m_defaultBatchSize fm, m_defaultMaxWorkers = m_defaultMaxWorkers fm\<rparr>"

definition queues_of :: "('re, 'k, 'c, 'r) program_manager \<Rightarrow> msg MyQueue list" where
  "queues_of fm = map (\<lambda>(k, f). b_queue (the (dispatcher f))) (filters fm)"

lemma nth_index_filters:
  "j < length fs \<Longrightarrow> index_filters fs ! j = (fst (fs ! j), index_filter j (snd (fs ! j)))"
  by (simp add: index_filters_def nth_enumerate_eq split: prod.split)

lemma length_index_filters [simp]: "length (index_filters fs) = length fs"
  by (simp add: index_filters_def)

lemma index_filter_simps [simp]:
  "admits matches (index_filter j f) m \<longleftrightarrow> admits matches f m"
  "dispatcher (index_filter j f) = (case dispatcher f of None \<Rightarrow> None | Some d \<Rightarrow> Some j)"
  by (simp_all add: admits_def index_filter_def)

lemma fixWrp_selects [simp]: "selects compile matches c (fixWrp mime uuid m) \<longleftrightarrow> selects compile matches c m"
  by (simp add: selects_def fixWrp_def Let_def)

lemma NewQueue_fresh:
  "NewQueue c t logger sub = (Some q, err) \<Longrightarrow> heap q \<noteq> [] \<and> items_ref q = 0 \<and> cbuf (items_chan q) = []
     \<and> \<not> cclosed (items_chan q) \<and> has_room q"
  using with_defaults_pos(2) [of c]
  by (auto simp: NewQueue_def Let_def items_chan_def make_chan_def has_room_def split: if_splits)

lemma program_queues:
  assumes "honours_libraries l" and "FilterModule l i h = (Inr (Some fm, None), h')"
    and "j < length (filters fm)"
  shows "\<exists>c. last_config (fst (filters fm ! j)) (c_Filters (in_FilterManager i)) = Some c
     \<and> dispatcher (snd (index_filters (filters fm) ! j)) = Some j
     \<and> open_at (queues_of fm) j \<and> room_at (queues_of fm) j \<and> backlog_at (queues_of fm) j = []
     \<and> (\<forall>matches m. admits matches (snd (index_filters (filters fm) ! j)) m \<longleftrightarrow> selects (l_compile l) matches c m)"
proof -
  obtain k f where kf: "filters fm ! j = (k, f)" by fastforce
  then have "(k, f) \<in> set (filters fm)" using assms(3) by (metis nth_mem)
  from program_filters [OF assms(1,2) this] obtain c b where
    c: "last_config k (c_Filters (in_FilterManager i)) = Some c" and pf: "program_filter l i c f b"
    and adm: "\<forall>matches m. admits matches f m \<longleftrightarrow> selects (l_compile l) matches c m" by blast
  have d: "dispatcher f = Some b" using pf by (simp add: program_filter_def)
  from pf have "heap (b_queue b) \<noteq> [] \<and> items_ref (b_queue b) = 0 \<and> cbuf (items_chan (b_queue b)) = []
     \<and> \<not> cclosed (items_chan (b_queue b)) \<and> has_room (b_queue b)"
    unfolding program_filter_def by (blast dest: NewQueue_fresh)
  moreover from d have "queues_of fm ! j = b_queue b" using kf assms(3) by (simp add: queues_of_def)
  ultimately show ?thesis
    using assms(3) kf d c adm by (intro exI [of _ c])
      (simp add: nth_index_filters open_at_def room_at_def backlog_at_def queues_of_def)
qed

lemma EventHandlerModule_Some:
  "EventHandlerModule logger (Some fm) = (Some eh, None) \<Longrightarrow>
     logger \<noteq> None \<and> eh = \<lparr>FilterManager = Some fm, Logger_e = logger\<rparr>"
  by (auto simp: EventHandlerModule_def NewWrpEventHandler_def split: if_splits)

text \<open>What the manager of the program offers to its first queues, filter by filter.\<close>

lemma offered_by_config:
  assumes "honours_libraries l" and "FilterModule l i h = (Inr (Some fm, None), h')"
    and "offered matches (index_filters (filters fm)) msg (queues_of fm) qs'" and "j < length (filters fm)"
  shows "\<exists>c. last_config (fst (filters fm ! j)) (c_Filters (in_FilterManager i)) = Some c
      \<and> backlog_at qs' j = (if selects (l_compile l) matches c msg then [Some msg] else [])"
proof -
  let ?fs = "index_filters (filters fm)"
  note queue = program_queues [OF assms(1,2)]
  from queue [OF assms(4)] obtain c where
    c: "last_config (fst (filters fm ! j)) (c_Filters (in_FilterManager i)) = Some c"
    and d: "dispatcher (snd (?fs ! j)) = Some j" "room_at (queues_of fm) j" "backlog_at (queues_of fm) j = []"
    and adm: "\<And>m. admits matches (snd (?fs ! j)) m \<longleftrightarrow> selects (l_compile l) matches c m" by blast
  have mem: "?fs ! j \<in> set ?fs" using assms(4) by simp
  have only: "kf = ?fs ! j" if "kf \<in> set ?fs" "dispatcher (snd kf) = Some j" for kf
  proof -
    from that(1) obtain j' where "j' < length (filters fm)" "kf = ?fs ! j'" by (auto simp: in_set_conv_nth)
    with that(2) queue [of j'] show ?thesis by auto
  qed
  note took = assms(3) [unfolded offered_def, THEN conjunct1, rule_format, OF mem, of j]
  note kept = assms(3) [unfolded offered_def, THEN conjunct2, rule_format, of j]
  show ?thesis
  proof (cases "selects (l_compile l) matches c msg")
    case True
    then have "dispatcher (snd (?fs ! j)) = Some j \<and> admits matches (snd (?fs ! j)) msg"
      using d(1) adm by simp
    from took [OF this] c d(2,3) True show ?thesis by simp
  next
    case False
    have "\<not> admits matches (snd kf) msg" if "kf \<in> set ?fs" "dispatcher (snd kf) = Some j" for kf
      using only [OF that] adm False by simp
    from kept [OF this] c d(3) False show ?thesis by simp
  qed
qed

text \<open>
  C5. The program, from its configuration to the queues. Take a manager the filter module returned,
  the event handler and the request handler made on it, and a request with an event, in
  whatever order the filters are iterated. The answer is 202, and then the queue of each
  filter holds the event, fixed, and nothing else, if the last configuration of the filter's name
  selects it by its patterns, and is empty otherwise.
\<close>

theorem program_serves:
  assumes "honours_libraries l" and "FilterModule l i h = (Inr (Some fm, None), h')"
    and "in_FilterManagerMetrics i \<noteq> None"
    and "EventHandlerModule (in_Logger i) (Some (started_manager fm)) = (Some eh, None)"
    and "honours_opts apply_opts put_handler_option"
    and "HandlerModule apply_opts required (in_Logger i) rc (Some eh) = Inr (rh, None)"
    and "\<And>fs. mset (order fs) = mset fs"
    and "event_of decode utf8 rq = Some m"
    and "ServeHTTP decode utf8 mime uuid (manager_handle event_type order matches enqueue_at) rq rh
       \<lparr>rw_status = None, rw_body = []\<rparr> (evs, queues_of fm) = (r, rh', rw', evs', qs')"
  shows "r = Inr () \<and> rw_status rw' = Some 202
     \<and> (\<forall>j < length (filters fm). \<exists>c. last_config (fst (filters fm ! j)) (c_Filters (in_FilterManager i)) = Some c
          \<and> backlog_at qs' j =
              (if selects (l_compile l) matches c m then [Some (fixWrp mime uuid m)] else []))"
proof -
  let ?fs = "index_filters (filters fm)"
  have eh: "in_Logger i \<noteq> None" "eh = \<lparr>FilterManager = Some (started_manager fm), Logger_e = in_Logger i\<rparr>"
    using EventHandlerModule_Some [OF assms(4)] by blast+
  note rh = HandlerModule_handler [OF assms(5,6)]
  note queue = program_queues [OF assms(1,2)]
  have fs: "filters (started_manager fm) = ?fs" "m_logger (started_manager fm) \<noteq> None"
    "m_metrics (started_manager fm) \<noteq> None"
    using FilterModule_manager [OF assms(1,2)] eh(1) assms(3) by (simp_all add: started_manager_def)
  have disp: "dispatcher (snd (?fs ! j)) = Some j" "open_at (queues_of fm) j" if "j < length (filters fm)" for j
    using queue [OF that] by blast+
  then have "map (dispatcher \<circ> snd) ?fs = map Some [0..<length (filters fm)]"
    using disp by (auto intro!: nth_equalityI)
  then have dist: "distinct (map (dispatcher \<circ> snd) (filters (started_manager fm)))"
    by (simp add: fs(1) distinct_map)
  have opens: "\<forall>kf \<in> set (filters (started_manager fm)). \<exists>d. dispatcher (snd kf) = Some d \<and> open_at (queues_of fm) d"
    unfolding fs(1) all_set_conv_all_nth using disp by simp
  have rh_facts: "rh_logger rh \<noteq> None" "eventHandler rh = Some eh" "Logger_e eh \<noteq> None"
    "FilterManager eh = Some (started_manager fm)"
    "\<not> (0 < sint (maxOutstanding rh) \<and> sint (maxOutstanding rh) < sint (incomingQueueDepth rh + 1))"
    using eh by (simp_all add: rh)
  from request_effect [OF rh_facts(1-4) fs(2,3) assms(7) dist opens rh_facts(5) assms(8,9)]
  have "r = Inr ()" "rw_status rw' = Some 202" and "offered matches ?fs (fixWrp mime uuid m) (queues_of fm) qs'"
    by (simp_all add: fs(1))
  with offered_by_config [OF assms(1,2) this(3)] show ?thesis by simp
qed

definition module_fm :: "(string, unit, unit, nat) program_manager" where
  "module_fm = (program_fm sample_libs (module_in 3))\<lparr>filters := [(''s'', module_filter 3)]\<rparr>"

theorem program_serves_witness:
  "\<exists>(rh :: (string, nat, unit) BaseFilterManager WrpEventHandler RequestHandler) rh' rw' evs' qs'. ServeHTTP sample_decode (\<lambda>m. None) ''application/json'' ''u''
       (manager_handle (\<lambda>m. ''online'') rev (=) enqueue_at) sample_request
       rh \<lparr>rw_status = None, rw_body = []\<rparr> ([], queues_of module_fm) = (Inr (), rh', rw', evs', qs')
     \<and> backlog_at qs' 0 = [Some sample_message]"
proof -
  let ?eh = "\<lparr>FilterManager = Some (started_manager module_fm), Logger_e = Some ()\<rparr>"
  let ?ap = "fst (put_all put_handler_option)"
  have run: "FilterModule sample_libs (module_in 3) [] = (Inr (Some module_fm, None), module_history)"
    using sample_module [of 3] by (simp add: module_fm_def)
  have i: "in_FilterManagerMetrics (module_in 3) \<noteq> None" "in_Logger (module_in 3) = Some ()"
    "c_Filters (in_FilterManager (module_in 3)) = [module_fc]" by (simp_all add: module_in_def)
  have eh: "EventHandlerModule (in_Logger (module_in 3)) (Some (started_manager module_fm)) = (Some ?eh, None)"
    by (simp add: EventHandlerModule_def NewWrpEventHandler_def i(2))
  have h: "honours_opts ?ap put_handler_option" by (simp add: honours_opts_def put_all_def)
  obtain rh where rh: "HandlerModule ?ap (\<lambda>opts h. None) (in_Logger (module_in 3)) \<lparr>MaxOutstanding = 3\<rparr> (Some ?eh)
      = Inr (rh, None)"
    by (simp add: HandlerModule_def New_handler_def put_all_def apply_each_put i(2))
  obtain r rh' rw' evs' qs' where serve: "ServeHTTP sample_decode (\<lambda>m. None) ''application/json'' ''u''
      (manager_handle (\<lambda>m. ''online'') rev (=) enqueue_at) sample_request rh \<lparr>rw_status = None, rw_body = []\<rparr>
      ([], queues_of module_fm) = (r, rh', rw', evs', qs')" by (metis surj_pair)
  have sel: "selects (l_compile sample_libs) (=) module_fc sample_message"
    by (simp add: selects_def sample_libs_def exact_def TrimPrefix_def sample_message_def Let_def
        module_fc_def sample_fc_def)
  have unchanged: "fixWrp ''application/json'' ''u'' sample_message = sample_message"
    by (simp add: fixWrp_def sample_message_def)
  have one: "filters module_fm = [(''s'', module_filter 3)]" "StreamName (Stream_c module_fc) = ''s''"
    by (simp_all add: module_fm_def module_fc_def)
  have perm: "mset (rev fs) = mset fs" for fs :: "(string \<times> (string, nat) BaseFilter) list" by simp
  from program_serves [OF sample_libs_honoured run i(1) eh h rh perm sample_event serve]
  have "r = Inr ()" "backlog_at qs' 0 = [Some sample_message]"
    by (simp_all add: i(3) one unchanged sel)
  with serve show ?thesis by blast
qed

end
