(* ===== verification/Container.thy ===== *)
theory Container
  imports Install
begin

text \<open>
  The dependency injection container of the program: the list of options that
  \<open>provideAppOptions\<close> builds (\<open>internal/install/eventstream.go\<close>) with the constructors of
  \<open>routes.go\<close>, \<open>auth.go\<close>, \<open>event_handler.go\<close>, \<open>request_handler.go\<close> and
  \<open>filter/filter_module.go\<close>, each by what it needs and what it gives, and the command line.

  The container (\<open>fx\<close>) itself, and the constructors that the libraries \<open>goschtalt\<close>,
  \<open>touchstone\<close>, \<open>touchhttp\<close>, \<open>touchkit\<close> and \<open>arrangehttp\<close> bring along, are not part
  of the repository: the constructors are parameters (\<open>fx_libs\<close>), of which
  \<open>documented\<close> states what their documentation says they need and give.
\<close>

section \<open>Slots and constructors\<close>

text \<open>The types that travel through the container; \<open>T_Lib\<close> is any type that only libraries use.\<close>

datatype go_type =
    T_cliArgs | T_CLI | T_goschtalt_Config | T_AtomicLevel | T_Logger
  | T_sallust_Config | T_HealthPath | T_MetricsPath | T_PprofPathPrefix | T_Routes | T_Auth
  | T_candlelight_Config | T_touchstone_Config | T_touchhttp_Config | T_RequestHandler
  | T_FilterManagerConfig | T_ServerConfig
  | T_Factory | T_Gatherer | T_Registerer | T_ServerInstrumenter | T_metrics_Handler
  | T_kit kind
  | T_FilterMetrics | T_FilterManagerMetrics | T_Telemetry | T_FilterManager
  | T_auth_Auth | T_EventHandler | T_event_RequestHandler | T_ServerOption | T_Server
  | T_DotGraph | T_Lifecycle | T_Shutdowner | T_Lib string

text \<open>
  A slot: a value of a type, with the empty name if it has none; or a value group, to which any
  number of constructors contribute and which a constructor takes as a slice.
\<close>

datatype slot = Slot go_type string | Group go_type string

text \<open>A constructor: what it needs, what it takes if there is one, and what it gives.\<close>

record ctor =
  needs :: "slot list"
  wants :: "slot list"
  gives :: "slot list"

abbreviation plain :: "go_type \<Rightarrow> slot" where
  "plain t \<equiv> Slot t ''''"

definition makes :: "slot list \<Rightarrow> slot list \<Rightarrow> ctor" where
  "makes ins outs = \<lparr>needs = ins, wants = [], gives = outs\<rparr>"

text \<open>\<open>fx.Annotated\<close> with a name: the values that the target gives get the name.\<close>

fun rename_slot :: "string \<Rightarrow> slot \<Rightarrow> slot" where
  "rename_slot n (Slot t _) = Slot t n"
| "rename_slot n (Group t g) = Group t g"

definition Annotated :: "string \<Rightarrow> ctor \<Rightarrow> ctor" where
  "Annotated n c = c\<lparr>gives := map (rename_slot n) (gives c)\<rparr>"

datatype fx_opt =
    Supply "slot list"
  | Populate slot
  | WithLogger "slot list"
  | Provide_fx "ctor list"
  | Invoke "slot list"

text \<open>What the libraries bring along.\<close>

record 'f fx_libs =
  lib_UnmarshalFunc :: "go_type \<Rightarrow> string \<Rightarrow> ctor"
  lib_ServerLabel :: string
  lib_NewInstrumenter :: "string \<Rightarrow> string \<Rightarrow> ctor"
  lib_touchkit :: "'f fx_option \<Rightarrow> ctor"
  lib_touchstone :: ctor
  lib_touchhttp :: ctor
  lib_NewServer :: "string \<Rightarrow> ctor"

section \<open>The constructors of the program\<close>

text \<open>The routes: two instrumenters, and the options of the two servers from \<open>RoutesIn\<close>.\<close>

definition RoutesIn_slots :: "slot list" where
  "RoutesIn_slots = [Slot T_ServerInstrumenter ''servers.primary.metrics'',
     Slot T_ServerInstrumenter ''servers.alternate.metrics'', plain T_Routes, plain T_auth_Auth,
     plain T_event_RequestHandler]"

definition RoutesOut_slots :: "slot list" where
  "RoutesOut_slots = [Group T_ServerOption ''servers.primary.options'',
     Group T_ServerOption ''servers.alternate.options'']"

definition core_endpoints_fx :: "'f fx_libs \<Rightarrow> fx_opt list" where
  "core_endpoints_fx lib =
     [Provide_fx
       [Annotated ''servers.primary.metrics'' (lib_NewInstrumenter lib (lib_ServerLabel lib) ''primary''),
        Annotated ''servers.alternate.metrics'' (lib_NewInstrumenter lib (lib_ServerLabel lib) ''alternate''),
        makes RoutesIn_slots RoutesOut_slots]]"

definition health_check_fx :: "'f fx_libs \<Rightarrow> fx_opt list" where
  "health_check_fx lib =
     [Provide_fx
       [Annotated ''servers.health.metrics'' (lib_NewInstrumenter lib (lib_ServerLabel lib) ''health''),
        makes [Slot T_ServerInstrumenter ''servers.health.metrics'', plain T_HealthPath]
          [Group T_ServerOption ''servers.health.options'']]]"

definition metric_endpoint_fx :: "fx_opt list" where
  "metric_endpoint_fx =
     [Provide_fx [makes [plain T_metrics_Handler, plain T_MetricsPath] [Group T_ServerOption ''servers.metrics.options'']]]"

definition pprof_endpoint_fx :: "fx_opt list" where
  "pprof_endpoint_fx =
     [Provide_fx [makes [plain T_PprofPathPrefix] [Group T_ServerOption ''servers.pprof.options'']]]"

text \<open>The module of the filters; \<open>metrics\<close> is what \<open>metrics.Provide\<close> returned.\<close>

definition telemetry_slots :: "(string \<times> kind) list \<Rightarrow> slot list" where
  "telemetry_slots = map (\<lambda>(n, k). Slot (T_kit k) n)"

definition FilterManagerIn_slots :: "slot list" where
  "FilterManagerIn_slots = [plain T_Logger, plain T_FilterManagerConfig, plain T_FilterMetrics,
     plain T_FilterManagerMetrics, plain T_Telemetry]"

definition filter_module_fx :: "'f fx_libs \<Rightarrow> 'f fx_option list \<Rightarrow> fx_opt list" where
  "filter_module_fx lib metrics =
     map (\<lambda>m. Provide_fx [lib_touchkit lib m]) metrics @
     [Provide_fx [makes (telemetry_slots FilterTelemetryIn) [plain T_FilterMetrics]],
      Provide_fx [makes (telemetry_slots FilterManagerTelemetryIn) [plain T_FilterManagerMetrics]],
      Provide_fx [makes (telemetry_slots QueueTelemetryIn) [plain T_Telemetry]],
      Provide_fx [makes FilterManagerIn_slots [plain T_FilterManager]]]"

definition handler_module_fx :: "fx_opt list" where
  "handler_module_fx =
     [Provide_fx [makes [plain T_Logger, plain T_RequestHandler, plain T_EventHandler]
       [plain T_event_RequestHandler]]]"

definition event_handler_module_fx :: "fx_opt list" where
  "event_handler_module_fx =
     [Provide_fx [makes [plain T_Logger, plain T_FilterManager] [plain T_EventHandler]]]"

text \<open>The constructors that \<open>provideAppOptions\<close> names itself.\<close>

definition provideCLI_fx :: ctor where
  "provideCLI_fx = makes [plain T_cliArgs] [plain T_CLI]"

definition provideLogger_fx :: ctor where
  "provideLogger_fx = makes [plain T_CLI, plain T_sallust_Config] [plain T_AtomicLevel, plain T_Logger]"

definition provideConfig_fx :: ctor where
  "provideConfig_fx = makes [plain T_CLI] [plain T_goschtalt_Config]"

definition provideAuth_fx :: ctor where
  "provideAuth_fx = makes [plain T_Logger, plain T_Auth] [plain T_auth_Auth]"

text \<open>\<open>arrangehttp.ProvideServer\<close>: the constructor of the server, which is then started.\<close>

definition ProvideServer :: "'f fx_libs \<Rightarrow> string \<Rightarrow> fx_opt list" where
  "ProvideServer lib n = [Provide_fx [lib_NewServer lib n], Invoke [Slot T_Server n]]"

text \<open>
  The options, and the file the graph is written to. The variable \<open>cli\<close> is \<open>nil\<close> when it is
  tested: only the container fills it, from the option \<open>Populate\<close>.
\<close>

definition provideAppOptions :: "'f fx_libs \<Rightarrow> 'f fx_option list \<Rightarrow> fx_opt list \<times> string option" where
  "provideAppOptions lib metrics =
     (let cli = None :: CLI option;
          opts =
       [Supply [plain T_cliArgs],
        Populate (plain T_DotGraph), Populate (plain T_goschtalt_Config), Populate (plain T_CLI),
        WithLogger [plain T_Logger],
        Provide_fx
         [provideCLI_fx, provideLogger_fx, provideConfig_fx, provideAuth_fx,
          lib_UnmarshalFunc lib T_sallust_Config ''logger'',
          lib_UnmarshalFunc lib T_HealthPath ''servers.health.path'',
          lib_UnmarshalFunc lib T_MetricsPath ''servers.metrics.path'',
          lib_UnmarshalFunc lib T_PprofPathPrefix ''servers.pprof.path'',
          lib_UnmarshalFunc lib T_Routes ''routes'',
          lib_UnmarshalFunc lib T_Auth ''auth'',
          lib_UnmarshalFunc lib T_candlelight_Config ''tracing'',
          lib_UnmarshalFunc lib T_touchstone_Config ''prometheus'',
          lib_UnmarshalFunc lib T_touchhttp_Config ''prometheus_handler'',
          lib_UnmarshalFunc lib T_RequestHandler ''request_handler'',
          lib_UnmarshalFunc lib T_FilterManagerConfig ''filter_manager'',
          Annotated ''servers.health.config'' (lib_UnmarshalFunc lib T_ServerConfig ''servers.health.http''),
          Annotated ''servers.metrics.config'' (lib_UnmarshalFunc lib T_ServerConfig ''servers.metrics.http''),
          Annotated ''servers.pprof.config'' (lib_UnmarshalFunc lib T_ServerConfig ''servers.pprof.http''),
          Annotated ''servers.primary.config'' (lib_UnmarshalFunc lib T_ServerConfig ''servers.primary.http''),
          Annotated ''servers.alternate.config'' (lib_UnmarshalFunc lib T_ServerConfig ''servers.alternate.http'')]]
        @ core_endpoints_fx lib @ metric_endpoint_fx @ health_check_fx lib @ pprof_endpoint_fx
        @ [Provide_fx [lib_touchstone lib], Provide_fx [lib_touchhttp lib]]
        @ ProvideServer lib ''servers.health'' @ ProvideServer lib ''servers.metrics''
        @ ProvideServer lib ''servers.pprof'' @ ProvideServer lib ''servers.primary''
        @ ProvideServer lib ''servers.alternate''
        @ filter_module_fx lib metrics @ handler_module_fx @ event_handler_module_fx
      in (opts,
          case cli of None \<Rightarrow> None | Some c \<Rightarrow> if Graph c \<noteq> '''' then Some (Graph c) else None))"

text \<open>
  The entry point: a panic of the container goes on, its error is returned, and otherwise the
  application runs if it is asked to; the application that is run, and the error.
\<close>

definition EventStream :: "(fx_opt list \<Rightarrow> go_panic + 'app \<times> go_err option) \<Rightarrow> 'f fx_libs \<Rightarrow> 'f fx_option list
    \<Rightarrow> bool \<Rightarrow> go_panic + 'app option \<times> go_err option" where
  "EventStream fx_New lib metrics run =
     go_bind (fx_New (fst (provideAppOptions lib metrics)))
       (\<lambda>(app, err). case err of Some e \<Rightarrow> Inr (None, Some e)
          | None \<Rightarrow> Inr (if run then Some app else None, None))"

text \<open>
  \<open>main\<close>: the status the process leaves with. A panic is recovered, its stack printed, and
  \<open>main\<close> returns.
\<close>

definition main_status :: "go_panic + 'app option \<times> go_err option \<Rightarrow> int" where
  "main_status r = (case r of Inl p \<Rightarrow> 0 | Inr (app, Some e) \<Rightarrow> -1 | Inr (app, None) \<Rightarrow> 0)"

section \<open>A container that can build everything\<close>

fun ctors_of :: "fx_opt list \<Rightarrow> ctor list" where
  "ctors_of [] = []"
| "ctors_of (Provide_fx cs # os) = cs @ ctors_of os"
| "ctors_of (_ # os) = ctors_of os"

fun supplied :: "fx_opt list \<Rightarrow> slot list" where
  "supplied [] = []"
| "supplied (Supply ss # os) = ss @ supplied os"
| "supplied (_ # os) = supplied os"

text \<open>What is taken out of the container when it starts.\<close>

fun demanded :: "fx_opt list \<Rightarrow> slot list" where
  "demanded [] = []"
| "demanded (Populate s # os) = s # demanded os"
| "demanded (WithLogger ss # os) = ss @ demanded os"
| "demanded (Invoke ss # os) = ss @ demanded os"
| "demanded (_ # os) = demanded os"

text \<open>The container itself supplies these.\<close>

definition builtin :: "slot list" where
  "builtin = [plain T_DotGraph, plain T_Lifecycle, plain T_Shutdowner]"

definition given :: "fx_opt list \<Rightarrow> slot list" where
  "given os = builtin @ supplied os @ concat (map gives (ctors_of os))"

fun is_group :: "slot \<Rightarrow> bool" where
  "is_group (Group t n) = True"
| "is_group (Slot t n) = False"

text \<open>
  A constructor can be called when each value it needs is there, each group it takes is complete,
  and each value it wants is there or will never be. A round calls all that can be called.
\<close>

definition callable :: "slot list \<Rightarrow> ctor list \<Rightarrow> ctor \<Rightarrow> bool" where
  "callable have_slots pending c \<longleftrightarrow>
     list_all (\<lambda>s. if is_group s then list_all (\<lambda>d. s \<notin> set (gives d)) pending else s \<in> set have_slots) (needs c)
     \<and> list_all (\<lambda>s. s \<in> set have_slots \<or> list_all (\<lambda>d. s \<notin> set (gives d)) pending) (wants c)"

definition call_round :: "slot list \<times> ctor list \<Rightarrow> slot list \<times> ctor list" where
  "call_round hp = (case hp of (h, pending) \<Rightarrow>
     (h @ concat (map gives (filter (callable h pending) pending)), filter (\<lambda>c. \<not> callable h pending c) pending))"

definition built :: "fx_opt list \<Rightarrow> nat \<Rightarrow> slot list \<times> ctor list" where
  "built os n = (call_round ^^ n) (builtin @ supplied os, ctors_of os)"
section \<open>Ranked constructors can all be called\<close>

text \<open>
  If every value a constructor needs is given by some constructor or is there from the start, and
  what it takes has a smaller rank than what it gives, then each round calls at least
  the constructors of the next rank, and nothing is left after as many rounds as there are ranks.
\<close>

definition ranked :: "(slot \<Rightarrow> nat) \<Rightarrow> ctor list \<Rightarrow> bool" where
  "ranked rank cs \<longleftrightarrow> (\<forall>c \<in> set cs. gives c \<noteq> [] \<and> (\<forall>g \<in> set (gives c). \<forall>s \<in> set (needs c) \<union> set (wants c). rank s < rank g))"

definition complete :: "slot list \<Rightarrow> ctor list \<Rightarrow> bool" where
  "complete have_slots cs \<longleftrightarrow>
     (\<forall>c \<in> set cs. \<forall>s \<in> set (needs c). is_group s \<or> s \<in> set have_slots \<union> (\<Union>d \<in> set cs. set (gives d)))"

lemma call_round_keeps:
  assumes "call_round (h, p) = (h', p')" "complete h p" "ranked rank p" "\<forall>c \<in> set p. \<forall>g \<in> set (gives c). k \<le> rank g"
  shows "complete h' p' \<and> ranked rank p' \<and> (\<forall>c \<in> set p'. \<forall>g \<in> set (gives c). Suc k \<le> rank g)
     \<and> set h' \<union> (\<Union>d \<in> set p'. set (gives d)) = set h \<union> (\<Union>d \<in> set p. set (gives d))"
proof -
  have h': "h' = h @ concat (map gives (filter (callable h p) p))" and p': "p' = filter (\<lambda>c. \<not> callable h p c) p"
    using assms(1) by (auto simp: call_round_def)
  have all: "set h' \<union> (\<Union>d \<in> set p'. set (gives d)) = set h \<union> (\<Union>d \<in> set p. set (gives d))"
    unfolding h' p' by auto
  have "Suc k \<le> rank g" if c: "c \<in> set p'" and g: "g \<in> set (gives c)" for c g
  proof -
    from c p' have cp: "c \<in> set p" and "\<not> callable h p c" by auto
    then have "(\<exists>s \<in> set (needs c). \<not> is_group s \<and> s \<notin> set h)
        \<or> (\<exists>s \<in> set (needs c) \<union> set (wants c). \<exists>d \<in> set p. s \<in> set (gives d))"
      unfolding callable_def list_all_iff by (metis Un_iff)
    then obtain s where s: "s \<in> set (needs c) \<union> set (wants c)" and "\<exists>d \<in> set p. s \<in> set (gives d)"
    proof
      assume "\<exists>s \<in> set (needs c). \<not> is_group s \<and> s \<notin> set h"
      then obtain s where "s \<in> set (needs c)" "\<not> is_group s" "s \<notin> set h" by blast
      moreover from this have "\<exists>d \<in> set p. s \<in> set (gives d)"
        using assms(2) cp unfolding complete_def by blast
      ultimately show ?thesis using that by blast
    qed blast
    then have "k \<le> rank s" using assms(4) by blast
    also have "rank s < rank g" using assms(3) cp g s unfolding ranked_def by blast
    finally show ?thesis by simp
  qed
  moreover have "complete h' p'"
    using assms(2) p' unfolding complete_def all by auto
  moreover have "ranked rank p'" using assms(3) p' unfolding ranked_def by auto
  ultimately show ?thesis using all by blast
qed

lemma call_rounds_keep:
  assumes "complete h p" "ranked rank p"
  shows "case (call_round ^^ n) (h, p) of (h', p') \<Rightarrow> complete h' p' \<and> ranked rank p'
     \<and> (\<forall>c \<in> set p'. \<forall>g \<in> set (gives c). n \<le> rank g)
     \<and> set h' \<union> (\<Union>d \<in> set p'. set (gives d)) = set h \<union> (\<Union>d \<in> set p. set (gives d))"
proof (induction n)
  case 0
  with assms show ?case by simp
next
  case (Suc n)
  obtain h1 p1 where r: "(call_round ^^ n) (h, p) = (h1, p1)" by fastforce
  obtain h2 p2 where r2: "call_round (h1, p1) = (h2, p2)" by fastforce
  from Suc.IH r have "complete h1 p1" "ranked rank p1" "\<forall>c \<in> set p1. \<forall>g \<in> set (gives c). n \<le> rank g"
    "set h1 \<union> (\<Union>d \<in> set p1. set (gives d)) = set h \<union> (\<Union>d \<in> set p. set (gives d))" by auto
  with call_round_keeps [OF r2, of rank n] r r2 show ?case by simp
qed

lemma all_called:
  assumes "complete h p" "ranked rank p" "\<forall>c \<in> set p. \<forall>g \<in> set (gives c). rank g < n"
  shows "snd ((call_round ^^ n) (h, p)) = []
     \<and> set (fst ((call_round ^^ n) (h, p))) = set h \<union> (\<Union>d \<in> set p. set (gives d))"
proof -
  obtain h' p' where r: "(call_round ^^ n) (h, p) = (h', p')" by fastforce
  from call_rounds_keep [OF assms(1,2), of n] r have k: "ranked rank p'"
    "\<forall>c \<in> set p'. \<forall>g \<in> set (gives c). n \<le> rank g"
    "set h' \<union> (\<Union>d \<in> set p'. set (gives d)) = set h \<union> (\<Union>d \<in> set p. set (gives d))" by auto
  have sub: "set p' \<subseteq> set p"
  proof -
    have "set (snd ((call_round ^^ m) (h, p))) \<subseteq> set p" for m
      by (induction m) (auto simp: call_round_def split: prod.splits)
    from this [of n] r show ?thesis by simp
  qed
  have "p' = []"
  proof (rule ccontr)
    assume "p' \<noteq> []"
    then obtain c where c: "c \<in> set p'" by (cases p') auto
    then obtain g where "g \<in> set (gives c)" using k(1) unfolding ranked_def by (cases "gives c") auto
    then have "n \<le> rank g" "rank g < n" using k(2) assms(3) c sub by auto
    then show False by simp
  qed
  with k(3) r show ?thesis by simp
qed

section \<open>What the documentation says\<close>

text \<open>
  \<open>UnmarshalFunc\<close> makes its type from the configuration. The instrumenters and the metrics of
  \<open>touchkit\<close> are made by the factory of \<open>touchstone\<close>, which is made from its
  configuration, with the logger if there is one. The handler of \<open>touchhttp\<close> reads the
  gatherer. A server takes its configuration by name, if there is one, its options as a group,
  and other groups of library types, which nothing in this program contributes to.
\<close>

fun library_group :: "slot \<Rightarrow> bool" where
  "library_group (Group (T_Lib t) n) = True"
| "library_group _ = False"

definition documented :: "'f fx_libs \<Rightarrow> bool" where
  "documented lib \<longleftrightarrow>
     (\<forall>t k. lib_UnmarshalFunc lib t k = makes [plain T_goschtalt_Config] [plain t])
   \<and> (\<forall>l v. gives (lib_NewInstrumenter lib l v) = [plain T_ServerInstrumenter]
        \<and> set (needs (lib_NewInstrumenter lib l v)) \<union> set (wants (lib_NewInstrumenter lib l v))
          \<subseteq> {plain T_Factory, plain T_Registerer})
   \<and> (\<forall>m. gives (lib_touchkit lib m) = [Slot (T_kit (snd (named m))) (fst (named m))]
        \<and> set (needs (lib_touchkit lib m)) \<union> set (wants (lib_touchkit lib m)) \<subseteq> {plain T_Factory, plain T_Registerer})
   \<and> gives (lib_touchstone lib) = [plain T_Factory, plain T_Gatherer, plain T_Registerer]
   \<and> set (needs (lib_touchstone lib)) \<union> set (wants (lib_touchstone lib)) \<subseteq> {plain T_touchstone_Config, plain T_Logger}
   \<and> gives (lib_touchhttp lib) = [plain T_metrics_Handler]
   \<and> set (needs (lib_touchhttp lib)) \<union> set (wants (lib_touchhttp lib))
       \<subseteq> {plain T_touchhttp_Config, plain T_Logger, plain T_Factory, plain T_Gatherer, plain T_Registerer}
   \<and> (\<forall>n. gives (lib_NewServer lib n) = [Slot T_Server n]
        \<and> wants (lib_NewServer lib n) = [Slot T_ServerConfig (n @ ''.config'')]
        \<and> Group T_ServerOption (n @ ''.options'') \<in> set (needs (lib_NewServer lib n))
        \<and> (\<forall>s \<in> set (needs (lib_NewServer lib n)). s = Group T_ServerOption (n @ ''.options'') \<or> library_group s))"

fun type_rank :: "go_type \<Rightarrow> nat" where
  "type_rank T_CLI = 1"
| "type_rank T_goschtalt_Config = 2"
| "type_rank T_AtomicLevel = 4" | "type_rank T_Logger = 4"
| "type_rank T_Factory = 5" | "type_rank T_Gatherer = 5" | "type_rank T_Registerer = 5"
| "type_rank T_auth_Auth = 5"
| "type_rank T_ServerInstrumenter = 6" | "type_rank T_metrics_Handler = 6" | "type_rank (T_kit k) = 6"
| "type_rank T_FilterMetrics = 7" | "type_rank T_FilterManagerMetrics = 7" | "type_rank T_Telemetry = 7"
| "type_rank T_FilterManager = 8"
| "type_rank T_EventHandler = 9"
| "type_rank T_event_RequestHandler = 10"
| "type_rank T_ServerOption = 11"
| "type_rank T_Server = 12"
| "type_rank T_cliArgs = 0" | "type_rank T_DotGraph = 0" | "type_rank T_Lifecycle = 0"
| "type_rank T_Shutdowner = 0" | "type_rank (T_Lib t) = 0"
| "type_rank _ = 3"

fun slot_rank :: "slot \<Rightarrow> nat" where
  "slot_rank (Slot t n) = type_rank t"
| "slot_rank (Group t n) = type_rank t"

lemmas fx_defs = core_endpoints_fx_def health_check_fx_def metric_endpoint_fx_def pprof_endpoint_fx_def
  filter_module_fx_def handler_module_fx_def event_handler_module_fx_def provideCLI_fx_def
  provideLogger_fx_def provideConfig_fx_def provideAuth_fx_def ProvideServer_def Annotated_def
  makes_def RoutesIn_slots_def RoutesOut_slots_def FilterManagerIn_slots_def telemetry_slots_def
  QueueTelemetryIn_def FilterTelemetryIn_def FilterManagerTelemetryIn_def

section \<open>The wiring of the program\<close>

lemma documentedD:
  assumes "documented lib"
  shows "lib_UnmarshalFunc lib t k = makes [plain T_goschtalt_Config] [plain t]"
    and "gives (lib_NewInstrumenter lib l v) = [plain T_ServerInstrumenter]"
    and "set (needs (lib_NewInstrumenter lib l v)) \<union> set (wants (lib_NewInstrumenter lib l v))
          \<subseteq> {plain T_Factory, plain T_Registerer}"
    and "gives (lib_touchkit lib m) = [Slot (T_kit (snd (named m))) (fst (named m))]"
    and "set (needs (lib_touchkit lib m)) \<union> set (wants (lib_touchkit lib m)) \<subseteq> {plain T_Factory, plain T_Registerer}"
    and "gives (lib_touchstone lib) = [plain T_Factory, plain T_Gatherer, plain T_Registerer]"
    and "set (needs (lib_touchstone lib)) \<union> set (wants (lib_touchstone lib)) \<subseteq> {plain T_touchstone_Config, plain T_Logger}"
    and "gives (lib_touchhttp lib) = [plain T_metrics_Handler]"
    and "set (needs (lib_touchhttp lib)) \<union> set (wants (lib_touchhttp lib))
       \<subseteq> {plain T_touchhttp_Config, plain T_Logger, plain T_Factory, plain T_Gatherer, plain T_Registerer}"
    and "gives (lib_NewServer lib n) = [Slot T_Server n]"
    and "wants (lib_NewServer lib n) = [Slot T_ServerConfig (n @ ''.config'')]"
    and "Group T_ServerOption (n @ ''.options'') \<in> set (needs (lib_NewServer lib n))"
    and "s \<in> set (needs (lib_NewServer lib n)) \<Longrightarrow> s = Group T_ServerOption (n @ ''.options'') \<or> library_group s"
  using assms unfolding documented_def by blast+

lemma ctors_of_append [simp]: "ctors_of (os @ os') = ctors_of os @ ctors_of os'"
  by (induction os rule: ctors_of.induct) auto

lemma ctors_of_kits [simp]: "ctors_of (map (\<lambda>m. Provide_fx [lib_touchkit lib m]) ms) = map (lib_touchkit lib) ms"
  by (induction ms) auto

lemma supplied_append [simp]: "supplied (os @ os') = supplied os @ supplied os'"
  by (induction os rule: supplied.induct) auto

lemma supplied_kits [simp]: "supplied (map (\<lambda>m. Provide_fx [lib_touchkit lib m]) ms) = []"
  by (induction ms) auto

lemma demanded_append [simp]: "demanded (os @ os') = demanded os @ demanded os'"
  by (induction os rule: demanded.induct) auto

lemma demanded_kits [simp]: "demanded (map (\<lambda>m. Provide_fx [lib_touchkit lib m]) ms) = []"
  by (induction ms) auto

lemma kit_gives:
  "documented lib \<Longrightarrow> map gives (map (lib_touchkit lib) ms) = map (\<lambda>(n, k). [Slot (T_kit k) n]) (map named ms)"
  by (induction ms) (simp_all add: documentedD(4) split: prod.splits)

definition program_slots :: "slot list" where
  "program_slots =
     [plain T_DotGraph, plain T_Lifecycle, plain T_Shutdowner,
      plain T_cliArgs, plain T_CLI, plain T_AtomicLevel, plain T_Logger,
      plain T_goschtalt_Config, plain T_auth_Auth, plain T_sallust_Config,
      plain T_HealthPath, plain T_MetricsPath, plain T_PprofPathPrefix,
      plain T_Routes, plain T_Auth, plain T_candlelight_Config,
      plain T_touchstone_Config, plain T_touchhttp_Config,
      plain T_RequestHandler, plain T_FilterManagerConfig,
      Slot T_ServerConfig ''servers.health.config'', Slot T_ServerConfig ''servers.metrics.config'',
      Slot T_ServerConfig ''servers.pprof.config'', Slot T_ServerConfig ''servers.primary.config'',
      Slot T_ServerConfig ''servers.alternate.config'',
      Slot T_ServerInstrumenter ''servers.primary.metrics'', Slot T_ServerInstrumenter ''servers.alternate.metrics'',
      Group T_ServerOption ''servers.primary.options'', Group T_ServerOption ''servers.alternate.options'',
      Group T_ServerOption ''servers.metrics.options'',
      Slot T_ServerInstrumenter ''servers.health.metrics'', Group T_ServerOption ''servers.health.options'',
      Group T_ServerOption ''servers.pprof.options'', plain T_Factory,
      plain T_Gatherer, plain T_Registerer, plain T_metrics_Handler,
      Slot T_Server ''servers.health'', Slot T_Server ''servers.metrics'',
      Slot T_Server ''servers.pprof'', Slot T_Server ''servers.primary'', Slot T_Server ''servers.alternate'',
      Slot (T_kit Gauge) ''xmidt_event_streams_queue_waiting_events'',
      Slot (T_kit Gauge) ''xmidt_event_streams_queue_batch_size'',
      Slot (T_kit Counter) ''xmidt_event_streams_queue_dropped_events'',
      Slot (T_kit Counter) ''xmidt_event_streams_queue_submit_errors'',
      Slot (T_kit Histogram) ''xmidt_event_streams_queue_submit_duration'',
      Slot (T_kit Counter) ''xmidt_event_streams_event_type_count'',
      Slot (T_kit Counter) ''xmidt_event_streams_dropped_message_count'',
      plain T_FilterMetrics, plain T_FilterManagerMetrics, plain T_Telemetry,
      plain T_FilterManager, plain T_event_RequestHandler, plain T_EventHandler]"

definition program_metrics :: "'f fx_option list \<Rightarrow> bool" where
  "program_metrics metrics \<longleftrightarrow> map named metrics =
     [(''xmidt_event_streams_queue_waiting_events'', Gauge), (''xmidt_event_streams_queue_batch_size'', Gauge),
      (''xmidt_event_streams_queue_dropped_events'', Counter), (''xmidt_event_streams_queue_submit_errors'', Counter),
      (''xmidt_event_streams_queue_submit_duration'', Histogram), (''xmidt_event_streams_event_type_count'', Counter),
      (''xmidt_event_streams_dropped_message_count'', Counter)]"

lemma given_by_program:
  assumes "documented lib" "program_metrics metrics"
  shows "given (fst (provideAppOptions lib metrics)) = program_slots"
  by (simp add: given_def builtin_def provideAppOptions_def fx_defs documentedD [OF assms(1)] kit_gives [OF assms(1)]
     assms(2) [unfolded program_metrics_def] program_slots_def del: map_map)

text \<open>One constructor at a time: its slots are there, and its ranks rise.\<close>

definition fits_in :: "slot list \<Rightarrow> ctor \<Rightarrow> bool" where
  "fits_in slots c \<longleftrightarrow> gives c \<noteq> [] \<and> (\<forall>s \<in> set (needs c). is_group s \<or> s \<in> set slots)
     \<and> (\<forall>g \<in> set (gives c). slot_rank g < 13 \<and> (\<forall>s \<in> set (needs c) \<union> set (wants c). slot_rank s < slot_rank g))"

lemma fits_in_all:
  assumes "list_all (fits_in slots) cs" "set slots = set h \<union> (\<Union>d \<in> set cs. set (gives d))"
  shows "complete h cs" "ranked slot_rank cs" "\<forall>c \<in> set cs. \<forall>g \<in> set (gives c). slot_rank g < 13"
  using assms unfolding complete_def ranked_def list_all_iff fits_in_def by blast+

lemma library_group_rank: "library_group s \<Longrightarrow> is_group s \<and> slot_rank s = 0"
  by (cases s rule: library_group.cases) auto

lemma library_fits:
  assumes "documented lib"
  shows "fits_in program_slots (lib_touchkit lib m)" "fits_in program_slots (lib_touchstone lib)"
    "fits_in program_slots (lib_touchhttp lib)" "fits_in program_slots (lib_NewServer lib n)"
    "fits_in program_slots (Annotated name (lib_NewInstrumenter lib l v))"
proof -
  have slots: "plain T_Factory \<in> set program_slots" "plain T_Registerer \<in> set program_slots"
    "plain T_Gatherer \<in> set program_slots" "plain T_Logger \<in> set program_slots"
    "plain T_touchstone_Config \<in> set program_slots" "plain T_touchhttp_Config \<in> set program_slots"
    by (simp_all add: program_slots_def)
  note d = documentedD [OF assms]
  show "fits_in program_slots (lib_touchkit lib m)"
    using d(5) [of m] slots by (auto simp: fits_in_def d(4))
  show "fits_in program_slots (lib_touchstone lib)"
    using d(7) slots by (auto simp: fits_in_def d(6))
  show "fits_in program_slots (lib_touchhttp lib)"
    using d(9) slots by (auto simp: fits_in_def d(8))
  show "fits_in program_slots (Annotated name (lib_NewInstrumenter lib l v))"
    using d(3) [of l v] slots by (auto simp: fits_in_def d(2) Annotated_def)
  show "fits_in program_slots (lib_NewServer lib n)"
    using d(13) library_group_rank by (fastforce simp: fits_in_def d(10,11))
qed

lemma needed_slots:
  "plain T_cliArgs \<in> set program_slots"
  "plain T_CLI \<in> set program_slots"
  "plain T_sallust_Config \<in> set program_slots"
  "plain T_goschtalt_Config \<in> set program_slots"
  "plain T_Logger \<in> set program_slots"
  "plain T_Auth \<in> set program_slots"
  "plain T_Routes \<in> set program_slots"
  "plain T_auth_Auth \<in> set program_slots"
  "plain T_event_RequestHandler \<in> set program_slots"
  "plain T_metrics_Handler \<in> set program_slots"
  "plain T_MetricsPath \<in> set program_slots"
  "plain T_HealthPath \<in> set program_slots"
  "plain T_PprofPathPrefix \<in> set program_slots"
  "plain T_FilterManagerConfig \<in> set program_slots"
  "plain T_FilterMetrics \<in> set program_slots"
  "plain T_FilterManagerMetrics \<in> set program_slots"
  "plain T_Telemetry \<in> set program_slots"
  "plain T_RequestHandler \<in> set program_slots"
  "plain T_EventHandler \<in> set program_slots"
  "plain T_FilterManager \<in> set program_slots"
  "Slot T_ServerInstrumenter ''servers.primary.metrics'' \<in> set program_slots"
  "Slot T_ServerInstrumenter ''servers.alternate.metrics'' \<in> set program_slots"
  "Slot T_ServerInstrumenter ''servers.health.metrics'' \<in> set program_slots"
  "Slot (T_kit Gauge) ''xmidt_event_streams_queue_waiting_events'' \<in> set program_slots"
  "Slot (T_kit Gauge) ''xmidt_event_streams_queue_batch_size'' \<in> set program_slots"
  "Slot (T_kit Counter) ''xmidt_event_streams_queue_dropped_events'' \<in> set program_slots"
  "Slot (T_kit Counter) ''xmidt_event_streams_queue_submit_errors'' \<in> set program_slots"
  "Slot (T_kit Histogram) ''xmidt_event_streams_queue_submit_duration'' \<in> set program_slots"
  "Slot (T_kit Counter) ''xmidt_event_streams_event_type_count'' \<in> set program_slots"
  "Slot (T_kit Counter) ''xmidt_event_streams_dropped_message_count'' \<in> set program_slots"
  by (simp_all add: program_slots_def)

lemma makes_fits:
  assumes "outs \<noteq> []" "list_all (\<lambda>s. s \<in> set program_slots) ins"
    "list_all (\<lambda>g. slot_rank g < 13 \<and> list_all (\<lambda>s. slot_rank s < slot_rank g) ins) outs"
  shows "fits_in program_slots (makes ins outs)"
  using assms by (simp add: fits_in_def makes_def list_all_iff)

lemma Annotated_makes: "Annotated name (makes ins outs) = makes ins (map (rename_slot name) outs)"
  by (simp add: Annotated_def makes_def)

lemma program_fits:
  assumes "documented lib"
  shows "list_all (fits_in program_slots) (ctors_of (fst (provideAppOptions lib metrics)))"
proof -
  have kits: "list_all (fits_in program_slots) (map (lib_touchkit lib) metrics)"
    using library_fits(1) [OF assms] by (simp add: list_all_iff)
  have routes: "fits_in program_slots (makes RoutesIn_slots RoutesOut_slots)"
    by (rule makes_fits) (simp_all add: needed_slots RoutesIn_slots_def RoutesOut_slots_def)
  have filters: "fits_in program_slots (makes FilterManagerIn_slots [plain T_FilterManager])"
    by (rule makes_fits) (simp_all add: needed_slots FilterManagerIn_slots_def)
  have telemetry: "fits_in program_slots (makes (telemetry_slots QueueTelemetryIn) [plain T_Telemetry])"
    "fits_in program_slots (makes (telemetry_slots FilterTelemetryIn) [plain T_FilterMetrics])"
    "fits_in program_slots (makes (telemetry_slots FilterManagerTelemetryIn) [plain T_FilterManagerMetrics])"
    by (rule makes_fits; simp add: needed_slots telemetry_slots_def QueueTelemetryIn_def FilterTelemetryIn_def
        FilterManagerTelemetryIn_def)+
  show ?thesis
    by (simp add: provideAppOptions_def kits routes filters telemetry library_fits [OF assms]
        documentedD(1) [OF assms] Annotated_makes makes_fits needed_slots
        core_endpoints_fx_def health_check_fx_def metric_endpoint_fx_def pprof_endpoint_fx_def
        filter_module_fx_def handler_module_fx_def event_handler_module_fx_def provideCLI_fx_def
        provideLogger_fx_def provideConfig_fx_def provideAuth_fx_def ProvideServer_def)
qed

text \<open>
  C11. The wiring of the program is well typed. If the libraries need and give what they document,
  then no value is provided twice under the same type and name; every value that a
  constructor needs is provided under exactly that type and name; no constructor depends on
  itself, so that in at most 13 rounds the container can call every constructor of
  the program and has what it is asked for at the start (the configuration, the command line, the
  logger and the five servers); each server finds its configuration and exactly one option; and
  the graph of the container is never written, whatever the command line says.
\<close>

theorem wiring_well_typed:
  assumes "documented lib" and "reads_digits ParseFloat"
  shows "\<exists>metrics. Provide ParseFloat = Inr metrics
     \<and> (case provideAppOptions lib metrics of (os, written) \<Rightarrow>
          distinct (filter (\<lambda>s. \<not> is_group s) (given os))
        \<and> snd (built os 13) = [] \<and> set (fst (built os 13)) = set (given os)
        \<and> set (demanded os) \<subseteq> set (fst (built os 13))
        \<and> (\<forall>n \<in> {''servers.health'', ''servers.metrics'', ''servers.pprof'', ''servers.primary'', ''servers.alternate''}.
             Slot T_ServerConfig (n @ ''.config'') \<in> set (given os)
             \<and> count_list (given os) (Group T_ServerOption (n @ ''.options'')) = 1)
        \<and> written = None)"
proof -
  obtain metrics where p: "Provide ParseFloat = Inr metrics" and n: "program_metrics metrics"
    using Provide_computed [OF assms(2)]
    by (elim exE conjE) (rule that, assumption, simp only: program_metrics_def)
  let ?os = "fst (provideAppOptions lib metrics)"
  note g = given_by_program [OF assms(1) n]
  have all: "set program_slots = set (builtin @ supplied ?os) \<union> (\<Union>d \<in> set (ctors_of ?os). set (gives d))"
    unfolding g [symmetric] by (simp add: given_def Un_assoc)
  note f = fits_in_all [OF program_fits [OF assms(1)] all]
  have done_: "snd (built ?os 13) = []" "set (fst (built ?os 13)) = set program_slots"
    using all_called [OF f] all unfolding built_def by auto
  have "demanded ?os = [plain T_DotGraph, plain T_goschtalt_Config, plain T_CLI, plain T_Logger,
      Slot T_Server ''servers.health'', Slot T_Server ''servers.metrics'', Slot T_Server ''servers.pprof'',
      Slot T_Server ''servers.primary'', Slot T_Server ''servers.alternate'']"
    by (simp add: provideAppOptions_def core_endpoints_fx_def health_check_fx_def metric_endpoint_fx_def
        pprof_endpoint_fx_def filter_module_fx_def handler_module_fx_def event_handler_module_fx_def ProvideServer_def)
  then have "set (demanded ?os) \<subseteq> set program_slots" by (simp add: program_slots_def)
  moreover have "distinct (filter (\<lambda>s. \<not> is_group s) program_slots)" by (simp add: program_slots_def)
  moreover have "snd (provideAppOptions lib metrics) = None" by (simp add: provideAppOptions_def)
  moreover have "\<forall>n \<in> {''servers.health'', ''servers.metrics'', ''servers.pprof'', ''servers.primary'', ''servers.alternate''}.
             Slot T_ServerConfig (n @ ''.config'') \<in> set program_slots
             \<and> count_list program_slots (Group T_ServerOption (n @ ''.options'')) = 1"
    by (simp add: program_slots_def)
  ultimately show ?thesis
    using done_ g p by (intro exI [of _ metrics]) (simp add: case_prod_unfold)
qed

definition sample_fx :: "nat fx_libs" where
  "sample_fx = \<lparr>lib_UnmarshalFunc = (\<lambda>t k. makes [plain T_goschtalt_Config] [plain t]),
     lib_ServerLabel = ''server'',
     lib_NewInstrumenter = (\<lambda>l v. makes [plain T_Factory] [plain T_ServerInstrumenter]),
     lib_touchkit = (\<lambda>m. makes [plain T_Factory] [Slot (T_kit (snd (named m))) (fst (named m))]),
     lib_touchstone = \<lparr>needs = [], wants = [plain T_touchstone_Config],
       gives = [plain T_Factory, plain T_Gatherer, plain T_Registerer]\<rparr>,
     lib_touchhttp = makes [plain T_Gatherer] [plain T_metrics_Handler],
     lib_NewServer = (\<lambda>n. \<lparr>needs = [Group T_ServerOption (n @ ''.options''), Group (T_Lib ''ListenerMiddleware'') n],
       wants = [Slot T_ServerConfig (n @ ''.config'')], gives = [Slot T_Server n]\<rparr>)\<rparr>"

lemma sample_fx_documented: "documented sample_fx"
  unfolding documented_def by (simp add: sample_fx_def makes_def)

theorem wiring_well_typed_witness:
  "\<exists>metrics. Provide (\<lambda>ds. Some (length ds)) = Inr metrics
     \<and> snd (built (fst (provideAppOptions sample_fx metrics)) 13) = []"
proof -
  have "reads_digits (\<lambda>ds. Some (length ds))" by (simp add: reads_digits_def)
  from wiring_well_typed [OF sample_fx_documented this]  show ?thesis
    by (auto simp: case_prod_unfold)
qed

end
