(* ===== verification/Shutdown.thy ===== *)
theory Shutdown
  imports Dispatcher_Properties
begin

text \<open>
  A call of \<open>Shutdown\<close> of a stream dispatcher (\<open>filter/stream_dispatcher.go\<close>) while the
  rest of the program goes on: producers queue messages, the loop collects batches and the
  workers submit them between any two statements of the call.

  The goroutine that shuts down has a program point beside the state of the system; its
  statements are the steps \<open>Close_call\<close>, \<open>Empty_count\<close>, \<open>Empty_replace\<close> and
  \<open>Wait_return\<close> of the queue. Only a shutdown closes or empties the queue, there is one at a
  time, and the context of the loop is never cancelled (\<open>GetDispatcher\<close> starts it on
  \<open>context.Background()\<close>), so the rest of the program takes none of these steps.
\<close>

datatype shutdown_pc =
    Closing          \<comment> \<open>before the first \<open>Close\<close>\<close>
  | Counting         \<comment> \<open>in \<open>Empty\<close>, before the length is read\<close>
  | Replacing        \<comment> \<open>in \<open>Empty\<close>, before the channel is replaced\<close>
  | Closing_last     \<comment> \<open>before the second \<open>Close\<close>\<close>
  | Waiting
  | Shutdown_done
  | Shutdown_panicked

definition shutdown_start :: "bool \<Rightarrow> shutdown_pc" where
  "shutdown_start gentle = (if gentle then Closing_last else Closing)"

definition of_shutdown :: "'a event \<Rightarrow> bool" where
  "of_shutdown e \<longleftrightarrow> e = Close_call \<or> e = Empty_count \<or> (\<exists>j. e = Empty_replace j) \<or> e = Wait_return \<or> e = Cancel"

inductive shutdown_step :: "('a, 'w) submitter \<Rightarrow> 'a \<Rightarrow> ('a, 'w) system \<times> shutdown_pc
    \<Rightarrow> ('a, 'w) system \<times> shutdown_pc \<Rightarrow> bool"
  for submit :: "('a, 'w) submitter" and zero :: 'a where
  others: "qstep submit zero s e t \<Longrightarrow> \<not> of_shutdown e \<Longrightarrow> shutdown_step submit zero (s, p) (t, p)"
| close_first: "qstep submit zero s Close_call t \<Longrightarrow> Close s = Inr q \<Longrightarrow>
    shutdown_step submit zero (s, Closing) (t, Counting)"
| close_first_panic: "qstep submit zero s Close_call t \<Longrightarrow> Close s = Inl x \<Longrightarrow>
    shutdown_step submit zero (s, Closing) (t, Shutdown_panicked)"
| count: "qstep submit zero s Empty_count t \<Longrightarrow> shutdown_step submit zero (s, Counting) (t, Replacing)"
| replace_chan: "qstep submit zero s (Empty_replace j) t \<Longrightarrow>
    shutdown_step submit zero (s, Replacing) (t, Closing_last)"
| close_last: "qstep submit zero s Close_call t \<Longrightarrow> Close s = Inr q \<Longrightarrow>
    shutdown_step submit zero (s, Closing_last) (t, Waiting)"
| close_last_panic: "qstep submit zero s Close_call t \<Longrightarrow> Close s = Inl x \<Longrightarrow>
    shutdown_step submit zero (s, Closing_last) (t, Shutdown_panicked)"
| wait: "qstep submit zero s Wait_return t \<Longrightarrow> shutdown_step submit zero (s, Waiting) (t, Shutdown_done)"

inductive shutdown_run :: "('a, 'w) submitter \<Rightarrow> 'a \<Rightarrow> ('a, 'w) system \<times> shutdown_pc
    \<Rightarrow> ('a, 'w) system \<times> shutdown_pc \<Rightarrow> bool"
  for submit zero c where
  run_start: "shutdown_run submit zero c c"
| run_step: "shutdown_run submit zero c d \<Longrightarrow> shutdown_step submit zero d e \<Longrightarrow> shutdown_run submit zero c e"

text \<open>
  While the shutdown runs: the loop stays alive until a crash; the current channel is open
  before each \<open>Close\<close> and closed while the shutdown waits; and \<open>Empty\<close> has a length before it
  replaces the channel.
\<close>

definition shutdown_inv :: "('a, 'w) system \<times> shutdown_pc \<Rightarrow> bool" where
  "shutdown_inv d \<longleftrightarrow> (case d of (s, p) \<Rightarrow>
     (crashed s = None \<longrightarrow> live s) \<and> started s \<and> \<not> cancelled s
     \<and> (p = Closing \<or> p = Closing_last \<longrightarrow> \<not> cclosed (items_chan s))
     \<and> (p = Replacing \<longrightarrow> emptying s \<noteq> [])
     \<and> (p = Waiting \<longrightarrow> cclosed (items_chan s)) \<and> p \<noteq> Shutdown_done \<and> p \<noteq> Shutdown_panicked)"

text \<open>The steps of the others leave the loop running and the current channel open or closed.\<close>

lemma recv_keeps_closed: "chan_recv c = (v, c') \<Longrightarrow> cclosed c' = cclosed c"
  by (auto simp: chan_recv_def split: list.splits)

lemma closed_list_update: "cclosed c = cclosed (xs ! i) \<Longrightarrow> cclosed (xs[i := c] ! j) = cclosed (xs ! j)"
  by (cases "i = j"; cases "i < length xs") (simp_all add: list_update_beyond)

lemma others_keep_closed:
  assumes "qstep submit zero s e t" "\<not> of_shutdown e"
  shows "cclosed (items_chan t) = cclosed (items_chan s)"
  using assms
proof (induction rule: qstep.induct)
  case (recv s i v c)
  then have "cclosed c = cclosed (heap s ! i)" by (intro recv_keeps_closed)
  from closed_list_update [OF this] show ?case by (simp add: items_chan_def)
next
  case (add_send s j i x s')
  then show ?case by (auto simp: items_chan_def chan_send_Some intro!: closed_list_update)
qed (auto simp: of_shutdown_def items_chan_def queue_ops)

lemma others_keep_live:
  assumes "qstep submit zero s e t" "\<not> of_shutdown e" "started s" "\<not> cancelled s" "live s"
  shows "started t \<and> \<not> cancelled t \<and> (crashed t = None \<longrightarrow> live t) \<and> emptying t = emptying s"
  using assms
  by (induction rule: qstep.induct) (auto simp: of_shutdown_def live_def chan_send_Some queue_ops)

lemma qstep_not_crashed: "qstep submit zero s e t \<Longrightarrow> crashed s = None"
  by (induction rule: qstep.induct) auto

lemma shutdown_events_keep:
  assumes "qstep submit zero s e t" "e = Close_call \<or> e = Empty_count \<or> e = Empty_replace j"
  shows "crashed t = None \<and> (live s \<longrightarrow> live t) \<and> started t = started s \<and> cancelled t = cancelled s"
  using assms
  by (induction rule: qstep.induct) (auto simp: live_def Close_Inr queue_ops)

lemma Empty_opens: "qstep submit zero s (Empty_replace j) t \<Longrightarrow> \<not> cclosed (items_chan t)"
  by (auto simp: items_chan_def queue_ops elim: qstep.cases)

lemma Close_event:
  assumes "qstep submit zero s Close_call t" "\<not> cclosed (items_chan s)" "items_ref s < length (heap s)"
  shows "cclosed (items_chan t) \<and> (\<exists>q. Close s = Inr q)"
  using assms(1) by cases (use assms(2,3) in \<open>auto simp: Close_def items_chan_def\<close>)

lemma shutdown_step_inv:
  assumes "shutdown_step submit zero d e" "shutdown_inv d" "queue_inv zero (fst d)"
  shows "shutdown_inv e \<and> queue_inv zero (fst e) \<and> reachable submit zero (fst d) (fst e)"
proof -
  have ref: "items_ref (fst d) < length (heap (fst d))"
    using assms(3) by (simp add: queue_inv_def inv_channels_def)
  have loop: "crashed (fst d) = None \<Longrightarrow> wg (fst d) = 1"
    using assms(2,3) by (auto simp: shutdown_inv_def queue_inv_def inv_loop_def live_def)
  from assms(1) obtain ev where st: "qstep submit zero (fst d) ev (fst e)" by (cases) auto
  have keep: "queue_inv zero (fst e)" "reachable submit zero (fst d) (fst e)"
    using queue_inv_step [OF st assms(3)] step_reachable [OF st] by auto
  from assms(1) have "shutdown_inv e"
  proof cases
    case (others s ev t p)
    with assms(2) qstep_not_crashed [OF others(3)] show ?thesis
      using others_keep_live [OF others(3,4)] others_keep_closed [OF others(3,4)]
      by (auto simp: shutdown_inv_def)
  next
    case (close_first s t q)
    with assms(2) show ?thesis
      using shutdown_events_keep [OF close_first(3)] qstep_not_crashed [OF close_first(3)]
      by (simp add: shutdown_inv_def)
  next
    case (close_first_panic s t x)
    with assms(2) ref Close_event [of submit zero s t] show ?thesis by (auto simp: shutdown_inv_def)
  next
    case (count s t)
    with assms(2) show ?thesis
      using shutdown_events_keep [OF count(3)] qstep_not_crashed [OF count(3)] qstep_exec [OF count(3)]
      by (auto simp: shutdown_inv_def exec_event_def)
  next
    case (replace_chan s j t)
    with assms(2) show ?thesis
      using shutdown_events_keep [OF replace_chan(3)] qstep_not_crashed [OF replace_chan(3)]
        Empty_opens [OF replace_chan(3)] by (simp add: shutdown_inv_def)
  next
    case (close_last s t q)
    with assms(2) ref show ?thesis
      using shutdown_events_keep [OF close_last(3)] qstep_not_crashed [OF close_last(3)]
        Close_event [OF close_last(3)] by (simp add: shutdown_inv_def)
  next
    case (close_last_panic s t x)
    with assms(2) ref Close_event [of submit zero s t] show ?thesis by (auto simp: shutdown_inv_def)
  next
    case (wait s t)
    with loop qstep_not_crashed [OF wait(3)] show ?thesis by (auto simp: Wait_returns_def)
  qed
  with keep show ?thesis by simp
qed

lemma shutdown_run_inv:
  "shutdown_run submit zero d e \<Longrightarrow> shutdown_inv d \<Longrightarrow> queue_inv zero (fst d) \<Longrightarrow>
     shutdown_inv e \<and> queue_inv zero (fst e) \<and> reachable submit zero (fst d) (fst e)"
  by (induction rule: shutdown_run.induct)
     (auto dest: shutdown_step_inv intro: reach_start reachable_trans)

text \<open>Up to the \<open>Wait\<close> nothing holds the call up.\<close>

definition statements_left :: "shutdown_pc \<Rightarrow> nat" where
  "statements_left p = (case p of Closing \<Rightarrow> 4 | Counting \<Rightarrow> 3 | Replacing \<Rightarrow> 2 | Closing_last \<Rightarrow> 1 | _ \<Rightarrow> 0)"

lemma shutdown_goes_on:
  assumes "shutdown_inv (s, p)" "crashed s = None" "p \<noteq> Waiting"
  shows "\<exists>t p'. shutdown_step submit zero (s, p) (t, p') \<and> crashed t = None \<and> statements_left p' < statements_left p"
proof -
  have close: "\<exists>q. Close s = Inr q \<and> crashed q = None \<and> qstep submit zero s Close_call q" if "\<not> cclosed (items_chan s)"
    using that assms(2) close_ok [OF assms(2)] by (auto simp: Close_def)
  show ?thesis
  proof (cases p)
    case Closing
    with assms(1) close obtain q where q: "Close s = Inr q" "crashed q = None" "qstep submit zero s Close_call q"
      by (auto simp: shutdown_inv_def)
    from close_first [OF q(3,1)] q(2) Closing show ?thesis
      by (intro exI [of _ q] exI [of _ Counting]) (simp add: statements_left_def)
  next
    case Counting
    from count [OF empty_count [OF assms(2)]] Counting assms(2) show ?thesis
      by (intro exI [of _ "s\<lparr>emptying := emptying s @ [length (cbuf (items_chan s))]\<rparr>"] exI [of _ Replacing])
        (simp add: statements_left_def)
  next
    case Replacing
    with assms(1) have "0 < length (emptying s)" by (simp add: shutdown_inv_def)
    from replace_chan [OF empty_replace [OF assms(2) this]] Replacing assms(2) show ?thesis
      by (intro exI [of _ "Empty_swap (emptying s ! 0) (s\<lparr>emptying := remove_nth 0 (emptying s)\<rparr>)"]
          exI [of _ Closing_last]) (simp add: statements_left_def Empty_swap_def)
  next
    case Closing_last
    with assms(1) close obtain q where q: "Close s = Inr q" "crashed q = None" "qstep submit zero s Close_call q"
      by (auto simp: shutdown_inv_def)
    from close_last [OF q(3,1)] q(2) Closing_last show ?thesis
      by (intro exI [of _ q] exI [of _ Waiting]) (simp add: statements_left_def)
  qed (use assms(1,3) in \<open>simp_all add: shutdown_inv_def\<close>)
qed

text \<open>
  C9. Shutting down a dispatcher whose loop runs, gently or not, while the rest of the
  program goes on in any interleaving: the call never returns and never panics; it waits for a
  loop on a context that is never done. And once it waits, the process has crashed or can be
  led to a crash: the loop receives \<open>nil\<close> messages from the closed channel, and the
  senders panic on them.
\<close>

theorem shutdown_never_returns:
  fixes w :: "('k, 'c, 'r) sender_world"
  assumes "NewQueue c t logger (Some d) = (Some q, err)" and "streams d \<noteq> []"
    and "reachable (Submit sender_OnEvent d) None (boot q (m, w)) s" and "live s" and "\<not> cancelled s"
    and "\<not> cclosed (items_chan s)"
    and "shutdown_run (Submit sender_OnEvent d) None (s, shutdown_start gentle) (s', p)"
  shows "p \<noteq> Shutdown_done \<and> p \<noteq> Shutdown_panicked
     \<and> (p = Waiting \<longrightarrow> crashed s' \<noteq> None
          \<or> (\<exists>u. reachable (Submit sender_OnEvent d) None s' u \<and> crashed u \<noteq> None))"
proof -
  let ?sub = "Submit sender_OnEvent d :: (msg, increments \<times> ('k, 'c, 'r) sender_world) submitter"
  have inv: "queue_inv None s" by (rule queue_inv_reachable [OF assms(1,3)])
  then have "started s" using assms(4) by (auto simp: queue_inv_def inv_loop_def live_def)
  with assms(4-6) have "shutdown_inv (s, shutdown_start gentle)"
    by (simp add: shutdown_inv_def shutdown_start_def)
  from shutdown_run_inv [OF assms(7) this] inv have sd: "shutdown_inv (s', p)"
    and inv': "queue_inv None s'" and reach: "reachable ?sub None s s'" by auto
  have "\<exists>u. reachable ?sub None s' u \<and> crashed u \<noteq> None" if "p = Waiting" "crashed s' = None"
  proof (rule closed_crashes [OF _ inv'])
    show "live s'" "cclosed (items_chan s')" using sd that by (simp_all add: shutdown_inv_def)
    show "finished_returned ?sub s'"
      by (rule finished_returned_reachable [OF reachable_trans [OF reach assms(3)]])
        (simp add: finished_returned_def boot_def)
    show "\<exists>p w'. ?sub b mw = (Inl p, w')" if "None \<in> set b" for b mw
      using Submit_nil_panics [OF assms(2) that] by blast
  qed
  with sd show ?thesis by (auto simp: shutdown_inv_def)
qed

theorem shutdown_never_returns_witness:
  "\<exists>s'. shutdown_run (Submit sender_OnEvent one_stream) None (delivery_state, shutdown_start True) (s', Waiting)
     \<and> (crashed s' \<noteq> None
       \<or> (\<exists>u. reachable (Submit sender_OnEvent one_stream) None s' u \<and> crashed u \<noteq> None))"
proof -
  let ?sub = "Submit sender_OnEvent one_stream :: (msg, increments \<times> (unit, unit, nat) sender_world) submitter"
  have s: "live delivery_state" "\<not> cancelled delivery_state" "\<not> cclosed (items_chan delivery_state)"
    by (simp_all add: live_def delivery_values items_chan_def make_chan_def)
  then obtain s' where cl: "Close delivery_state = Inr s'" by (auto simp: Close_def)
  have "qstep ?sub None delivery_state Close_call s'"
    using cl s(1) by (intro qstep.close_ok) (auto simp: live_def)
  from run_step [OF run_start close_last [OF this cl]]
  have run: "shutdown_run ?sub None (delivery_state, shutdown_start True) (s', Waiting)"
    by (simp add: shutdown_start_def)
  have "streams one_stream \<noteq> []" by (simp add: one_stream_def)
  from shutdown_never_returns [OF delivery_new this run_events_reachable [OF delivery_run_ok] s run] run
  show ?thesis by blast
qed

end
