(* ===== verification/Shutdown_Manager.thy ===== *)
theory Shutdown_Manager
  imports Shutdown Manager_Properties
begin

text \<open>
  The shutdown of the filter manager (\<open>filter/filter_manager.go\<close>, \<open>filter/filter.go\<close>) while the
  rest of the program goes on: one goroutine ranges over the filters and is, for each of them,
  inside \<open>StreamDispatcher.Shutdown\<close> (\<open>Shutdown\<close>), while producers, loops and workers of all
  dispatchers take their steps.
\<close>

section \<open>Steps\<close>

text \<open>
  The deferred \<open>wg.Done\<close> of a filter runs when the dispatcher's shutdown has returned or panicked,
  and panics itself below 0.
\<close>

definition filter_done :: "('re, 'd) BaseFilter \<Rightarrow> go_panic + unit \<Rightarrow> (go_panic + unit) \<times> ('re, 'd) BaseFilter" where
  "filter_done f r = (if f_wg f - 1 < 0 then Inl NegativeWaitGroup else r, f\<lparr>f_wg := f_wg f - 1\<rparr>)"

text \<open>
  The goroutine is at the top of the loop, or in the shutdown of a filter, given by its key, value
  and dispatcher, or it has returned or panicked. The state: the manager; the filters the loop has
  yet to visit, in the order of the iteration; and the queues of all dispatchers with their
  loops, workers and callers.
\<close>

datatype ('re) manager_pc =
    Next_filter
  | In_filter string "('re, nat) BaseFilter" nat shutdown_pc
  | Shut "go_panic + unit"

record ('re, 'h, 'w) shutting =
  m_state :: "('re, nat, 'h) BaseFilterManager"
  m_todo :: "(string \<times> ('re, nat) BaseFilter) list"
  m_pc :: "'re manager_pc"
  m_systems :: "(msg, 'w) system list"

text \<open>A worker that panics ends the whole process, and nothing steps any more.\<close>

definition process_alive :: "('re, 'h, 'w) shutting \<Rightarrow> bool" where
  "process_alive c \<longleftrightarrow> list_all (\<lambda>s. crashed s = None) (m_systems c)"

inductive manager_step :: "(nat \<Rightarrow> (msg, 'w) submitter) \<Rightarrow> bool \<Rightarrow> ('re, 'h, 'w) shutting
    \<Rightarrow> ('re, 'h, 'w) shutting \<Rightarrow> bool"
  for submit :: "nat \<Rightarrow> (msg, 'w) submitter" and gentle :: bool where
  others_run: "process_alive c \<Longrightarrow> i < length (m_systems c) \<Longrightarrow>
    qstep (submit i) None (m_systems c ! i) e t \<Longrightarrow> \<not> of_shutdown e \<Longrightarrow>
    manager_step submit gentle c (c\<lparr>m_systems := (m_systems c)[i := t]\<rparr>)"
| visit: "process_alive c \<Longrightarrow> m_pc c = Next_filter \<Longrightarrow> m_todo c = (k, f) # rest \<Longrightarrow> dispatcher f = Some i \<Longrightarrow>
    manager_step submit gentle c (c\<lparr>m_todo := rest, m_pc := In_filter k f i (shutdown_start gentle)\<rparr>)"
| visit_nil: "process_alive c \<Longrightarrow> m_pc c = Next_filter \<Longrightarrow> m_todo c = (k, f) # rest \<Longrightarrow> dispatcher f = None \<Longrightarrow>
    filter_done f (Inl NilDeref) = (r, f') \<Longrightarrow>
    manager_step submit gentle c
      (c\<lparr>m_todo := rest, m_pc := Shut r, m_state := (m_state c)\<lparr>filters := AList.update k f' (filters (m_state c))\<rparr>\<rparr>)"
| inside: "process_alive c \<Longrightarrow> m_pc c = In_filter k f i p \<Longrightarrow> i < length (m_systems c) \<Longrightarrow>
    shutdown_step (submit i) None (m_systems c ! i, p) (t, p') \<Longrightarrow>
    manager_step submit gentle c (c\<lparr>m_pc := In_filter k f i p', m_systems := (m_systems c)[i := t]\<rparr>)"
| leave: "process_alive c \<Longrightarrow> m_pc c = In_filter k f i Shutdown_done \<Longrightarrow> filter_done f (Inr ()) = (Inr (), f') \<Longrightarrow>
    manager_step submit gentle c
      (c\<lparr>m_pc := Next_filter, m_state := (m_state c)\<lparr>filters := AList.delete k (filters (m_state c))\<rparr>\<rparr>)"
| leave_panic: "process_alive c \<Longrightarrow>
    m_pc c = In_filter k f i Shutdown_done \<and> filter_done f (Inr ()) = (Inl x, f')
      \<or> m_pc c = In_filter k f i Shutdown_panicked \<and> filter_done f (Inl CloseOfClosedChannel) = (Inl x, f') \<Longrightarrow>
    manager_step submit gentle c
      (c\<lparr>m_pc := Shut (Inl x), m_state := (m_state c)\<lparr>filters := AList.update k f' (filters (m_state c))\<rparr>\<rparr>)"
| finish: "process_alive c \<Longrightarrow> m_pc c = Next_filter \<Longrightarrow> m_todo c = [] \<Longrightarrow>
    manager_step submit gentle c
      (c\<lparr>m_pc := Shut (if shutdown_closed (m_state c) then Inl CloseOfClosedChannel else Inr ()),
         m_state := (m_state c)\<lparr>shutdown_closed := True\<rparr>\<rparr>)"

inductive manager_run :: "(nat \<Rightarrow> (msg, 'w) submitter) \<Rightarrow> bool \<Rightarrow> ('re, 'h, 'w) shutting
    \<Rightarrow> ('re, 'h, 'w) shutting \<Rightarrow> bool"
  for submit gentle c where
  manager_begins: "manager_run submit gentle c c"
| manager_goes_on: "manager_run submit gentle c d \<Longrightarrow> manager_step submit gentle d e \<Longrightarrow> manager_run submit gentle c e"

lemma manager_run_trans:
  "manager_run submit gentle d e \<Longrightarrow> manager_run submit gentle c d \<Longrightarrow> manager_run submit gentle c e"
  by (induction rule: manager_run.induct) (auto intro: manager_run.intros)

text \<open>A call of \<open>Shutdown\<close>, with the order in which the map of filters is ranged over.\<close>

definition shutdown_call :: "((string \<times> ('re, nat) BaseFilter) list \<Rightarrow> (string \<times> ('re, nat) BaseFilter) list)
    \<Rightarrow> ('re, nat, 'h) BaseFilterManager \<Rightarrow> (msg, 'w) system list \<Rightarrow> ('re, 'h, 'w) shutting" where
  "shutdown_call order fm ss = \<lparr>m_state = fm, m_todo = order (filters fm), m_pc = Next_filter, m_systems = ss\<rparr>"

section \<open>It never gets past the first filter\<close>

text \<open>
  In every state of the run: the goroutine has not yet begun with the first filter or is
  inside its dispatcher's shutdown; the manager is as before; the other queues have not been
  closed or replaced.
\<close>

definition stuck_inv :: "('re, nat, 'h) BaseFilterManager \<Rightarrow> string \<Rightarrow> ('re, nat) BaseFilter
    \<Rightarrow> (string \<times> ('re, nat) BaseFilter) list \<Rightarrow> nat \<Rightarrow> bool \<Rightarrow> (msg, 'w) system list \<Rightarrow> ('re, 'h, 'w) shutting \<Rightarrow> bool" where
  "stuck_inv fm k f rest i gentle ss c \<longleftrightarrow> m_state c = fm \<and> length (m_systems c) = length ss
     \<and> (\<exists>p. (m_pc c = Next_filter \<and> m_todo c = (k, f) # rest \<and> p = shutdown_start gentle
             \<or> m_pc c = In_filter k f i p \<and> m_todo c = rest)
          \<and> shutdown_inv (m_systems c ! i, p) \<and> queue_inv None (m_systems c ! i))
     \<and> (\<forall>j < length ss. j \<noteq> i \<longrightarrow> cclosed (items_chan (m_systems c ! j)) = cclosed (items_chan (ss ! j)))"

lemma stuck_step:
  assumes "manager_step submit gentle c d" "stuck_inv fm k f rest i gentle ss c" "dispatcher f = Some i" "i < length ss"
  shows "stuck_inv fm k f rest i gentle ss d"
proof -
  from assms(2) obtain p where m: "m_state c = fm" "length (m_systems c) = length ss"
    and at: "m_pc c = Next_filter \<and> m_todo c = (k, f) # rest \<and> p = shutdown_start gentle
        \<or> m_pc c = In_filter k f i p \<and> m_todo c = rest"
    and sd: "shutdown_inv (m_systems c ! i, p)" and q: "queue_inv None (m_systems c ! i)"
    and rest: "\<forall>j < length ss. j \<noteq> i \<longrightarrow> cclosed (items_chan (m_systems c ! j)) = cclosed (items_chan (ss ! j))"
    unfolding stuck_inv_def by blast
  from assms(1) show ?thesis
  proof cases
    case (others_run j e t)
    show ?thesis
    proof (cases "j = i")
      case True
      from shutdown_step_inv [OF others [OF others_run(4) [unfolded True] others_run(5)] sd] q
      have "shutdown_inv (t, p) \<and> queue_inv None t" by simp
      with others_run(1) m at rest assms(4) True show ?thesis
        unfolding stuck_inv_def by (intro conjI exI [of _ p]) auto
    next
      case False
      with others_keep_closed [OF others_run(4,5)] others_run(1,3) m at sd q rest show ?thesis
        unfolding stuck_inv_def by (intro conjI exI [of _ p]) (auto simp: nth_list_update)
    qed
  next
    case (inside k' f' i' p0 t p')
    with at have same: "k' = k" "f' = f" "i' = i" "p0 = p" by auto
    from shutdown_step_inv [OF inside(5) [unfolded same] sd] q
    have "shutdown_inv (t, p') \<and> queue_inv None t" by simp
    with inside(1,3) same m at rest assms(4) show ?thesis
      unfolding stuck_inv_def by (intro conjI exI [of _ p']) auto
  next
    case visit
    with m at sd q rest assms(3) show ?thesis
      unfolding stuck_inv_def by (intro conjI exI [of _ p]) auto
  qed (use at sd assms(3) in \<open>auto simp: shutdown_inv_def\<close>)
qed

lemma stuck_run:
  assumes "manager_run submit gentle c d" "stuck_inv fm k f rest i gentle ss c" "dispatcher f = Some i" "i < length ss"
  shows "stuck_inv fm k f rest i gentle ss d"
  using assms by (induction rule: manager_run.induct) (auto intro: stuck_step)

lemma reaches_wait:
  assumes "stuck_inv fm k f rest i gentle ss c" "process_alive c" "dispatcher f = Some i" "i < length ss"
  shows "\<exists>d. manager_run submit gentle c d \<and> m_pc d = In_filter k f i Waiting"
proof -
  have inside: "\<exists>d. manager_run submit gentle c d \<and> m_pc d = In_filter k f i Waiting"
    if "stuck_inv fm k f rest i gentle ss c" "process_alive c" "m_pc c = In_filter k f i p" for c p
    using that
  proof (induction "statements_left p" arbitrary: c p rule: less_induct)
    case less
    from less.prems(1,3) have sd: "shutdown_inv (m_systems c ! i, p)" and i: "i < length (m_systems c)"
      using assms(4) by (auto simp: stuck_inv_def)
    with less.prems(2) have up: "crashed (m_systems c ! i) = None" by (simp add: process_alive_def list_all_length)
    show ?case
    proof (cases "p = Waiting")
      case True
      with less.prems(3) manager_begins show ?thesis by blast
    next
      case False
      from shutdown_goes_on [OF sd up False] obtain t p' where
        t: "shutdown_step (submit i) None (m_systems c ! i, p) (t, p')" "crashed t = None"
          "statements_left p' < statements_left p" by blast
      let ?c = "c\<lparr>m_pc := In_filter k f i p', m_systems := (m_systems c)[i := t]\<rparr>"
      have st: "manager_step submit gentle c ?c" by (rule manager_step.inside [where submit = submit, OF less.prems(2,3) i t(1)])
      have "process_alive ?c" using less.prems(2) t(2) i
        by (simp add: process_alive_def list_all_length nth_list_update)
      from less.hyps [OF t(3) stuck_step [OF st less.prems(1) assms(3,4)] this] obtain d where
        "manager_run submit gentle ?c d" "m_pc d = In_filter k f i Waiting" by auto
      then show ?thesis using manager_run_trans [OF _ manager_goes_on [OF manager_begins st]] by blast
    qed
  qed
  show ?thesis
  proof (cases "m_pc c = Next_filter")
    case True
    with assms(1) have todo: "m_todo c = (k, f) # rest" by (auto simp: stuck_inv_def)
    note st = visit [OF assms(2) True todo assms(3), of submit gentle]
    have "process_alive (c\<lparr>m_todo := rest, m_pc := In_filter k f i (shutdown_start gentle)\<rparr>)"
      using assms(2) by (simp add: process_alive_def)
    from inside [OF stuck_step [OF st assms(1,3,4)] this] show ?thesis
      using manager_run_trans [OF _ manager_goes_on [OF manager_begins st]] by auto
  next
    case False
    with assms(1) obtain p where "m_pc c = In_filter k f i p" by (auto simp: stuck_inv_def)
    from inside [OF assms(1,2) this] show ?thesis .
  qed
qed

text \<open>
  C28. The manager's shutdown, gentle or not, never returns once the first filter of the iteration
  has a running queue. While callers, loops and workers of all dispatchers go on in any interleaving,
  the goroutine gets as far as the \<open>Wait\<close> of the first filter's dispatcher, from every state in which the
  process is alive, and never further: it does not return or panic, the manager keeps all its filters (and
  its lock), and the queues of the other filters are never closed.
\<close>

theorem manager_shutdown_hangs:
  assumes "order (filters fm) = (k, f) # rest" and "dispatcher f = Some i" and "i < length ss"
    and "NewQueue c t logger sub = (Some q, err)" and "reachable (submit i) None (boot q w) (ss ! i)"
    and "live (ss ! i)" and "\<not> cancelled (ss ! i)" and "\<not> cclosed (items_chan (ss ! i))"
    and "manager_run submit gentle (shutdown_call order fm ss) d"
  shows "(\<forall>r. m_pc d \<noteq> Shut r) \<and> m_state d = fm
     \<and> (m_pc d = Next_filter \<and> m_todo d = (k, f) # rest
        \<or> (\<exists>p. m_pc d = In_filter k f i p \<and> p \<noteq> Shutdown_done \<and> p \<noteq> Shutdown_panicked \<and> m_todo d = rest))
     \<and> (\<forall>j < length ss. j \<noteq> i \<longrightarrow> cclosed (items_chan (m_systems d ! j)) = cclosed (items_chan (ss ! j)))
     \<and> (process_alive d \<longrightarrow> (\<exists>e. manager_run submit gentle d e \<and> m_pc e = In_filter k f i Waiting))"
proof -
  have q: "queue_inv None (ss ! i)" by (rule queue_inv_reachable [OF assms(4,5)])
  then have "started (ss ! i)" using assms(6) by (auto simp: queue_inv_def inv_loop_def live_def)
  with assms(6-8) have "shutdown_inv (ss ! i, shutdown_start gentle)"
    by (simp add: shutdown_inv_def shutdown_start_def)
  with q assms(1) have "stuck_inv fm k f rest i gentle ss (shutdown_call order fm ss)"
    by (simp add: stuck_inv_def shutdown_call_def)
  from stuck_run [OF assms(9) this assms(2,3)] have inv: "stuck_inv fm k f rest i gentle ss d" .
  with reaches_wait [OF inv _ assms(2,3)] show ?thesis
    by (auto simp: stuck_inv_def shutdown_inv_def)
qed

definition running_states :: "(msg, increments \<times> (unit, unit, nat) sender_world) system list" where
  "running_states = [delivery_state]"

theorem manager_shutdown_hangs_witness:
  "\<exists>d. manager_run (\<lambda>i. Submit sender_OnEvent one_stream) True
       (shutdown_call id (both_admit\<lparr>filters := [(''s'', sample_built)]\<rparr>) running_states) d
     \<and> m_pc d = In_filter ''s'' sample_built 0 Waiting \<and> filters (m_state d) = [(''s'', sample_built)]"
proof -
  let ?fm = "both_admit\<lparr>filters := [(''s'', sample_built)]\<rparr>" and ?sub = "\<lambda>i :: nat. Submit sender_OnEvent one_stream"
  have fm: "id (filters ?fm) = (''s'', sample_built) # []" "dispatcher sample_built = Some 0" "0 < length running_states"
    by (simp_all add: sample_built_def running_states_def)
  have s: "running_states ! 0 = delivery_state" "live delivery_state" "\<not> cancelled delivery_state"
    "\<not> cclosed (items_chan delivery_state)"
    by (simp_all add: running_states_def live_def delivery_values items_chan_def make_chan_def)
  note hangs = manager_shutdown_hangs [where submit = ?sub and gentle = True and order = id and fm = ?fm and ss = running_states,
      OF fm delivery_new, unfolded s(1),
      OF run_events_reachable [OF delivery_run_ok] s(2-4)]
  have "process_alive (shutdown_call id ?fm running_states)"
    by (simp add: process_alive_def shutdown_call_def running_states_def delivery_values)
  with hangs [OF manager_begins] obtain d where
    d: "manager_run ?sub True (shutdown_call id ?fm running_states) d" "m_pc d = In_filter ''s'' sample_built 0 Waiting"
    by blast
  from hangs [OF d(1)] have "m_state d = ?fm" by blast
  with d show ?thesis by (intro exI [of _ d]) simp
qed

end
