(* ===== verification/Shared_Client.thy ===== *)
theory Shared_Client
  imports Sender
begin

text \<open>
  One Kinesis client used by several goroutines. The workers of a queue call \<open>Submit\<close>
  of the same dispatcher, which calls \<open>OnEvent\<close> of the same sender, which calls
  \<open>PutRecords\<close> of the same client, at the same time and without a lock: \<open>refreshClient\<close>
  reads and replaces \<open>credsExpireAt\<close> and \<open>svc\<close> while other goroutines read them.

  \<open>Kinesis\<close> and \<open>Sender\<close> model these calls as functions. Here they are taken apart into the
  steps between which another goroutine can run: each call to the SDK or the clock is a step,
  and so is each read and each write of a shared field. (A read or write of a field is
  taken as atomic.) A schedule is the list of the workers that take the next step,
  and the log records the calls to the service with the worker that made them.
\<close>

section \<open>A worker\<close>

text \<open>
  The program points of a worker in \<open>PutRecords\<close>: at the top of the loop; in
  \<open>refreshClient\<close> before its test, with the expiry read and the clock to ask, inside
  \<open>getClient\<close> before each of its three calls, and before each of the two writes; before the
  read of \<open>c.svc\<close>; before the call of the service; and after the return of the last attempt.
\<close>

datatype ('k, 'c) put_pc =
    Batching
  | Checking
  | Clock time
  | Load_sts
  | Retrieve 'c
  | Load_role sts_response
  | Store_expiry 'k time
  | Store_svc 'k
  | Reading
  | Requesting 'k
  | Returned "go_panic + int \<times> go_err option"

text \<open>
  The local variables of a worker: the items and the stream of the call, the attempts that
  are left to the retry runner, and the variables of the loop of \<open>PutRecords\<close>.
\<close>

record ('k, 'c) worker =
  w_items :: "Item list"
  w_stream :: string
  w_left :: nat
  w_start :: int64
  w_failed :: int32
  w_batch :: "Item list"
  w_notDone :: bool
  w_pc :: "('k, 'c) put_pc"

definition new_worker :: "Item list \<Rightarrow> string \<Rightarrow> nat \<Rightarrow> ('k, 'c) worker" where
  "new_worker items url left = \<lparr>w_items = items, w_stream = url, w_left = left, w_start = 0,
     w_failed = 0, w_batch = [], w_notDone = True, w_pc = Batching\<rparr>"

type_synonym ('k, 'c) log = "(nat \<times> ('k, 'c) aws_call) list"

text \<open>
  The end of a call of \<open>PutRecords\<close>: the runner tries again after an error, from the first
  item on, while attempts are left.
\<close>

definition put_returned :: "('k, 'c) worker \<Rightarrow> go_panic + int \<times> go_err option \<Rightarrow> ('k, 'c) worker" where
  "put_returned w r =
     (case r of
        Inr (n, Some e) \<Rightarrow> (case w_left w of
            Suc left \<Rightarrow> new_worker (w_items w) (w_stream w) left
          | 0 \<Rightarrow> w\<lparr>w_pc := Returned r\<rparr>)
      | _ \<Rightarrow> w\<lparr>w_pc := Returned r\<rparr>)"

text \<open>What follows the call of the service in the loop.\<close>

definition put_answered :: "('k, 'c) worker \<Rightarrow> put_output option \<times> go_err option \<Rightarrow> ('k, 'c) worker" where
  "put_answered w answer =
     (case (case fst answer of None \<Rightarrow> Some (w_failed w)
              | Some out \<Rightarrow> map_option (\<lambda>n. w_failed w + n) (FailedRecordCount out)) of
        None \<Rightarrow> put_returned w (Inl NilDeref)
      | Some failed' \<Rightarrow>
          (case snd answer of
             Some e \<Rightarrow> put_returned w (Inr (sint failed', Some e))
           | None \<Rightarrow> if w_notDone w then w\<lparr>w_failed := failed', w_pc := Batching\<rparr>
                     else put_returned w (Inr (sint failed', None))))"

definition worker_step :: "('k, 'c) aws \<Rightarrow> nat
    \<Rightarrow> ('k, 'c) worker \<times> 'k KinesisClient \<times> ('k, 'c) log
    \<Rightarrow> ('k, 'c) worker \<times> 'k KinesisClient \<times> ('k, 'c) log" where
  "worker_step aws i s =
     (case s of (w, c, l) \<Rightarrow>
      let h = map snd l in
      case w_pc w of
        Batching \<Rightarrow>
          (case GetBatch (w_start w) MaxPutRecordsBatchSize (w_items w) of
             Inl p \<Rightarrow> (put_returned w (Inl p), c, l)
           | Inr (batch, notDone) \<Rightarrow>
               (w\<lparr>w_batch := batch, w_notDone := notDone,
                  w_start := w_start w + MaxPutRecordsBatchSize, w_pc := Checking\<rparr>, c, l))
      | Checking \<Rightarrow>
          (w\<lparr>w_pc := (if role_c c = '''' then Reading else Clock (credsExpireAt c))\<rparr>, c, l)
      | Clock expire \<Rightarrow>
          (w\<lparr>w_pc := (if Unix expire \<le> Unix (aws_now aws h + minutes 3) then Load_sts else Reading)\<rparr>,
           c, l @ [(i, NowCall)])
      | Load_sts \<Rightarrow>
          (case aws_load aws h (sts_load_opts c) of (cfg, err) \<Rightarrow>
             (w\<lparr>w_pc := (if err = None then Retrieve cfg else Reading)\<rparr>,
              c, l @ [(i, LoadCall (sts_load_opts c))]))
      | Retrieve cfg \<Rightarrow>
          (case aws_retrieve aws h cfg (role_c c) of (resp, err) \<Rightarrow>
             (w\<lparr>w_pc := (if err = None then Load_role resp else Reading)\<rparr>,
              c, l @ [(i, RetrieveCall cfg (role_c c))]))
      | Load_role resp \<Rightarrow>
          (case aws_load aws h (role_load_opts c resp) of (cfg, err) \<Rightarrow>
             (w\<lparr>w_pc := (if err = None then Store_expiry (aws_from_config aws cfg) (sts_Expires resp)
                         else Reading)\<rparr>,
              c, l @ [(i, LoadCall (role_load_opts c resp))]))
      | Store_expiry k expire \<Rightarrow> (w\<lparr>w_pc := Store_svc k\<rparr>, c\<lparr>credsExpireAt := expire\<rparr>, l)
      | Store_svc k \<Rightarrow> (w\<lparr>w_pc := Reading\<rparr>, c\<lparr>svc := Some k\<rparr>, l)
      | Reading \<Rightarrow>
          (case svc c of None \<Rightarrow> (put_returned w (Inl NilDeref), c, l)
           | Some k \<Rightarrow> (w\<lparr>w_pc := Requesting k\<rparr>, c, l))
      | Requesting k \<Rightarrow>
          (let input = put_request (w_stream w) (w_batch w) in
           (put_answered w (aws_put_records aws h k input), c, l @ [(i, PutRecordsCall k input)]))
      | Returned r \<Rightarrow> (w, c, l))"

section \<open>All workers\<close>

record ('k, 'c) shared =
  sh_workers :: "('k, 'c) worker list"
  sh_client :: "'k KinesisClient"
  sh_log :: "('k, 'c) log"

definition shared_step :: "('k, 'c) aws \<Rightarrow> nat \<Rightarrow> ('k, 'c) shared \<Rightarrow> ('k, 'c) shared" where
  "shared_step aws i s =
     (if i < length (sh_workers s)
      then (case worker_step aws i (sh_workers s ! i, sh_client s, sh_log s) of
              (w, c, l) \<Rightarrow> \<lparr>sh_workers = (sh_workers s)[i := w], sh_client = c, sh_log = l\<rparr>)
      else s)"

definition shared_run :: "('k, 'c) aws \<Rightarrow> nat list \<Rightarrow> ('k, 'c) shared \<Rightarrow> ('k, 'c) shared" where
  "shared_run aws is s = fold (shared_step aws) is s"

text \<open>
  The requests of one worker in a stretch of the log that follows the history \<open>h\<close>, each
  with the answer it got.
\<close>

fun own_puts :: "('k, 'c) aws \<Rightarrow> nat \<Rightarrow> ('k, 'c) history \<Rightarrow> ('k, 'c) log
    \<Rightarrow> (put_input \<times> put_output option \<times> go_err option) list" where
  "own_puts aws i h [] = []"
| "own_puts aws i h ((j, x) # l) =
     (case x of PutRecordsCall k input \<Rightarrow> if j = i then [(input, aws_put_records aws h k input)] else []
      | _ \<Rightarrow> [])
     @ own_puts aws i (h @ [x]) l"

lemma own_puts_append [simp]:
  "own_puts aws i h (l @ l') = own_puts aws i h l @ own_puts aws i (h @ map snd l) l'"
  by (induction aws i h l rule: own_puts.induct) auto

lemma own_puts_others: "\<forall>p \<in> set l. fst p \<noteq> i \<Longrightarrow> own_puts aws i h l = []"
  by (induction aws i h l rule: own_puts.induct) (auto split: aws_call.splits)

text \<open>
  Without a panic, a worker's requests are whole attempts: \<open>past\<close> attempts that failed and
  the one it is at, whose requests so far are the first \<open>m\<close> batches, all answered without an
  error.
\<close>

definition clean :: "(put_input \<times> put_output option \<times> go_err option) list \<Rightarrow> bool" where
  "clean xs \<longleftrightarrow> (\<forall>x \<in> set xs. snd (snd x) = None)"

definition answer_count :: "(put_input \<times> put_output option \<times> go_err option) list \<Rightarrow> int32" where
  "answer_count xs = sum_list (map (count_of \<circ> snd) xs)"

section \<open>Batches by their index\<close>

lemma chunks_index:
  assumes "0 < n"
  shows "m < length (chunks n xs) \<longleftrightarrow> n * m < length xs"
    and "m < length (chunks n xs) \<Longrightarrow> chunks n xs ! m = take n (drop (n * m) xs)"
proof -
  have "(m < length (chunks n xs) \<longleftrightarrow> n * m < length xs)
     \<and> (m < length (chunks n xs) \<longrightarrow> chunks n xs ! m = take n (drop (n * m) xs))"
  proof (induction m arbitrary: xs)
    case 0
    show ?case using assms by (cases "length xs \<le> n"; cases "xs = []") (auto simp: chunks_short chunks_long)
  next
    case (Suc m)
    show ?case
    proof (cases "length xs \<le> n")
      case True
      then have "length (chunks n xs) \<le> 1" by (cases "xs = []") (simp_all add: chunks_short)
      with True show ?thesis by auto
    next
      case False
      with assms have c: "chunks n xs = take n xs # chunks n (drop n xs)" by (intro chunks_long) auto
      have "n * m < length xs - n \<longleftrightarrow> n + n * m < length xs" by linarith
      with Suc.IH [of "drop n xs"] show ?thesis by (simp add: c add.commute)
    qed
  qed
  then show "m < length (chunks n xs) \<longleftrightarrow> n * m < length xs"
    and "m < length (chunks n xs) \<Longrightarrow> chunks n xs ! m = take n (drop (n * m) xs)" by blast+
qed

lemma put_batches_index:
  "m < length (put_batches items) \<longleftrightarrow> (if items = [] then m = 0 else 500 * m < length items)"
  "m < length (put_batches items) \<Longrightarrow> put_batches items ! m = take 500 (drop (500 * m) items)"
  using chunks_index [of 500 m items] by (auto simp: put_batches_def)

text \<open>At the start of the batch with index \<open>m\<close>, \<open>GetBatch\<close> yields it, and whether there are more.\<close>

lemma GetBatch_put_batches:
  assumes "fits items" "m < length (put_batches items)" "sint start = 500 * int m"
  shows "GetBatch start MaxPutRecordsBatchSize items
           = Inr (put_batches items ! m, Suc m < length (put_batches items))"
    and "Suc m < length (put_batches items) \<Longrightarrow>
           sint (start + MaxPutRecordsBatchSize) = 500 * int (Suc m)"
proof -
  have M: "sint MaxPutRecordsBatchSize = 500" by (simp add: MaxPutRecordsBatchSize_def)
  have s: "nat (sint start) = 500 * m" "0 \<le> sint start" using assms(3) by simp_all
  have le: "int (500 * m) \<le> int (length items)"
    using assms(2) put_batches_index(1) [of m items] by (auto split: if_splits)
  have more: "Suc m < length (put_batches items) \<longleftrightarrow> sint MaxPutRecordsBatchSize < int (length items) - sint start"
    using put_batches_index(1) [of "Suc m" items] assms(3) M by auto
  show "GetBatch start MaxPutRecordsBatchSize items
           = Inr (put_batches items ! m, Suc m < length (put_batches items))"
  proof (cases "Suc m < length (put_batches items)")
    case True
    with more GetBatch_more(1) [OF assms(1) s(2), of MaxPutRecordsBatchSize] M s
      put_batches_index(2) [OF assms(2)] show ?thesis by simp
  next
    case False
    then have short: "int (length items) - sint start \<le> sint MaxPutRecordsBatchSize" using more by simp
    then have "length (drop (500 * m) items) \<le> 500" using M assms(3) le by simp
    with False GetBatch_last [OF assms(1) s(2) _ short] le assms(3) s
      put_batches_index(2) [OF assms(2)] show ?thesis by simp
  qed
  show "sint (start + MaxPutRecordsBatchSize) = 500 * int (Suc m)" if "Suc m < length (put_batches items)"
    using GetBatch_more(2) [OF assms(1) s(2)] that more M assms(3) by simp
qed
section \<open>The invariant of a worker\<close>

text \<open>
  While a worker has not returned, its own requests are those of \<open>js\<close>, the attempts that
  failed, followed by the first \<open>m\<close> batches of the attempt it is at, which were answered
  without an error; its local variables belong to the batch \<open>m\<close>.
\<close>

definition attempting :: "('k, 'c) aws \<Rightarrow> nat \<Rightarrow> ('k, 'c) history \<Rightarrow> nat \<Rightarrow> ('k, 'c) log
    \<Rightarrow> ('k, 'c) worker \<Rightarrow> bool" where
  "attempting aws i h limit l w \<longleftrightarrow>
     (\<exists>past cur js m. own_puts aws i h l = past @ cur
        \<and> map fst past = attempt_requests (w_stream w) (w_items w) js
        \<and> length js + w_left w = limit
        \<and> map fst cur = map (put_request (w_stream w)) (take m (put_batches (w_items w)))
        \<and> clean cur \<and> w_failed w = answer_count cur \<and> m < length (put_batches (w_items w))
        \<and> (if w_pc w = Batching then sint (w_start w) = 500 * int m
           else w_batch w = put_batches (w_items w) ! m
             \<and> w_notDone w = (Suc m < length (put_batches (w_items w)))
             \<and> (w_notDone w \<longrightarrow> sint (w_start w) = 500 * int (Suc m))))"

text \<open>
  What a worker that returned has done: without an error, the last of its attempts put all
  batches and every answer was free of error; with an error, all attempts are used up; it
  panicked only on an answer without a count.
\<close>

definition outcome :: "('k, 'c) aws \<Rightarrow> nat \<Rightarrow> ('k, 'c) history \<Rightarrow> nat \<Rightarrow> ('k, 'c) log
    \<Rightarrow> ('k, 'c) worker \<Rightarrow> go_panic + int \<times> go_err option \<Rightarrow> bool" where
  "outcome aws i h limit l w r \<longleftrightarrow>
     (case r of
        Inl p \<Rightarrow> p = NilDeref \<and> (\<exists>(input, answer) \<in> set (own_puts aws i h l).
          \<exists>out. fst answer = Some out \<and> FailedRecordCount out = None)
      | Inr (v, e) \<Rightarrow> \<exists>past cur js. own_puts aws i h l = past @ cur
          \<and> map fst past = attempt_requests (w_stream w) (w_items w) js \<and> length js \<le> limit
          \<and> (e = None \<longrightarrow> map fst cur = map (put_request (w_stream w)) (put_batches (w_items w))
               \<and> clean cur \<and> v = sint (answer_count cur))
          \<and> (e \<noteq> None \<longrightarrow> length js = limit \<and> (\<exists>j. 0 < j \<and> j \<le> length (put_batches (w_items w))
               \<and> map fst cur = map (put_request (w_stream w)) (take j (put_batches (w_items w))))
               \<and> snd (snd (last cur)) = e))"

definition worker_inv :: "('k, 'c) aws \<Rightarrow> nat \<Rightarrow> ('k, 'c) history \<Rightarrow> nat \<Rightarrow> ('k, 'c) log
    \<Rightarrow> ('k, 'c) worker \<Rightarrow> bool" where
  "worker_inv aws i h limit l w \<longleftrightarrow>
     (case w_pc w of Returned r \<Rightarrow> outcome aws i h limit l w r | _ \<Rightarrow> attempting aws i h limit l w)"

lemma worker_inv_running:
  "\<forall>r. w_pc w \<noteq> Returned r \<Longrightarrow> worker_inv aws i h limit l w = attempting aws i h limit l w"
  by (cases "w_pc w") (simp_all add: worker_inv_def)

lemma attempt_requests_append:
  "attempt_requests url items (js @ [j])
     = attempt_requests url items js @ map (put_request url) (take j (put_batches items))"
  by (simp add: attempt_requests_def)

lemma clean_append [simp]: "clean (xs @ ys) \<longleftrightarrow> clean xs \<and> clean ys"
  by (auto simp: clean_def)

lemma answer_count_append [simp]: "answer_count (xs @ ys) = answer_count xs + answer_count ys"
  by (simp add: answer_count_def)

lemma new_worker_inv: "own_puts aws i h l = past \<Longrightarrow> map fst past = attempt_requests url items js \<Longrightarrow>
    length js + left = limit \<Longrightarrow> worker_inv aws i h limit l (new_worker items url left)"
  unfolding worker_inv_def new_worker_def attempting_def
  by (simp, intro exI [of _ past] exI [of _ "[]"] conjI exI [of _ js])
     (simp_all add: clean_def answer_count_def)

lemma worker_inv_cong:
  assumes "own_puts aws i h l' = own_puts aws i h l"
  shows "worker_inv aws i h limit l' w \<longleftrightarrow> worker_inv aws i h limit l w"
proof -
  have "attempting aws i h limit l' w \<longleftrightarrow> attempting aws i h limit l w"
    and "outcome aws i h limit l' w r \<longleftrightarrow> outcome aws i h limit l w r" for r
    unfolding attempting_def outcome_def assms by blast+
  then show ?thesis by (simp add: worker_inv_def split: put_pc.splits)
qed

text \<open>The steps of another worker add no request of this one.\<close>

lemma worker_inv_others:
  assumes "worker_inv aws i h limit l w" "\<forall>p \<in> set l'. fst p \<noteq> i"
  shows "worker_inv aws i h limit (l @ l') w"
  using assms own_puts_others [OF assms(2)] by (subst worker_inv_cong) auto

text \<open>Steps inside \<open>refreshClient\<close>, and the read of \<open>svc\<close>: the worker stays at its batch.\<close>

lemma attempting_inside:
  assumes "attempting aws i h limit l w" "w_pc w \<noteq> Batching" "own_puts aws i h l' = own_puts aws i h l"
    and "p \<noteq> Batching"
  shows "attempting aws i h limit l' (w\<lparr>w_pc := p\<rparr>)"
  using assms by (simp add: attempting_def)

lemma put_returned_inv:
  assumes "own_puts aws i h l = past @ cur" "map fst past = attempt_requests (w_stream w) (w_items w) js"
    and "length js + w_left w = limit"
    and "\<And>v. r = Inr (v, None) \<Longrightarrow> map fst cur = map (put_request (w_stream w)) (put_batches (w_items w))
           \<and> clean cur \<and> v = sint (answer_count cur)"
    and "\<And>v e. r = Inr (v, Some e) \<Longrightarrow> (\<exists>j. 0 < j \<and> j \<le> length (put_batches (w_items w))
               \<and> map fst cur = map (put_request (w_stream w)) (take j (put_batches (w_items w))))
               \<and> snd (snd (last cur)) = Some e"
    and "\<And>p. r = Inl p \<Longrightarrow> p = NilDeref \<and> (\<exists>(input, answer) \<in> set (past @ cur).
          \<exists>out. fst answer = Some out \<and> FailedRecordCount out = None)"
  shows "worker_inv aws i h limit l (put_returned w r)"
proof -
  have stays: "worker_inv aws i h limit l (w\<lparr>w_pc := Returned r\<rparr>)"
    if "\<And>v e. r = Inr (v, Some e) \<Longrightarrow> w_left w = 0"
  proof (cases r)
    case (Inl p)
    with assms(1,6) show ?thesis by (simp add: worker_inv_def outcome_def)
  next
    case (Inr ve)
    obtain v e where ve: "ve = (v, e)" by fastforce
    have le: "length js \<le> limit" using assms(3) by simp
    have ok: "e = None \<Longrightarrow> map fst cur = map (put_request (w_stream w)) (put_batches (w_items w))
           \<and> clean cur \<and> v = sint (answer_count cur)"
      using assms(4) Inr ve by simp
    have err: "e \<noteq> None \<Longrightarrow> length js = limit \<and> (\<exists>j. 0 < j \<and> j \<le> length (put_batches (w_items w))
               \<and> map fst cur = map (put_request (w_stream w)) (take j (put_batches (w_items w))))
               \<and> snd (snd (last cur)) = e"
      using assms(3,5) Inr ve that by (cases e) auto
    have "outcome aws i h limit l (w\<lparr>w_pc := Returned r\<rparr>) r"
      unfolding outcome_def Inr ve
      using assms(1,2) le ok err
      by (simp, intro exI [of _ past] exI [of _ cur] conjI exI [of _ js]) simp_all
    then show ?thesis by (simp add: worker_inv_def)
  qed
  show ?thesis
  proof (cases "\<exists>v e left. r = Inr (v, Some e) \<and> w_left w = Suc left")
    case True
    then obtain v e left where r: "r = Inr (v, Some e)" "w_left w = Suc left" by blast
    from assms(5) [OF r(1)] obtain j where
      "map fst cur = map (put_request (w_stream w)) (take j (put_batches (w_items w)))" by blast
    with assms(1-3) r show ?thesis
      by (auto simp: put_returned_def attempt_requests_append
          intro!: new_worker_inv [OF refl, of _ _ _ _ _ _ "js @ [j]"])
  next
    case False
    then have "put_returned w r = w\<lparr>w_pc := Returned r\<rparr>" and "\<And>v e. r = Inr (v, Some e) \<Longrightarrow> w_left w = 0"
      by (auto simp: put_returned_def split: sum.splits option.splits nat.splits intro: ccontr dest: not0_implies_Suc)
    with stays show ?thesis by simp
  qed
qed
lemma put_returned_fields [simp]:
  "w_items (put_returned w r) = w_items w" "w_stream (put_returned w r) = w_stream w"
  by (auto simp: put_returned_def new_worker_def split: sum.splits option.splits nat.splits)

text \<open>The answer to a request: the request is the batch \<open>m\<close>, the next one of the attempt.\<close>

lemma put_answered_inv:
  assumes "attempting aws i h limit l w" "w_pc w = Requesting k"
    and "own_puts aws i h l' = own_puts aws i h l @ [(put_request (w_stream w) (w_batch w), answer)]"
  shows "worker_inv aws i h limit l' (put_answered w answer)"
proof -
  let ?bs = "put_batches (w_items w)" and ?new = "(put_request (w_stream w) (w_batch w), answer)"
  from assms(1,2) obtain past cur js m where
    own: "own_puts aws i h l = past @ cur" and past: "map fst past = attempt_requests (w_stream w) (w_items w) js"
    and js: "length js + w_left w = limit" and cur: "map fst cur = map (put_request (w_stream w)) (take m ?bs)"
    and cl: "clean cur" and f: "w_failed w = answer_count cur" and m: "m < length ?bs"
    and b: "w_batch w = ?bs ! m" "w_notDone w = (Suc m < length ?bs)"
    and st: "w_notDone w \<longrightarrow> sint (w_start w) = 500 * int (Suc m)"
    unfolding attempting_def by auto
  have own': "own_puts aws i h l' = past @ (cur @ [?new])" using own assms(3) by simp
  have cur': "map fst (cur @ [?new]) = map (put_request (w_stream w)) (take (Suc m) ?bs)"
    using cur b(1) m by (simp add: take_Suc_conv_app_nth)
  have count: "answer_count [?new] = count_of answer" by (simp add: answer_count_def)
  show ?thesis
  proof (cases "\<exists>out. fst answer = Some out \<and> FailedRecordCount out = None")
    case True
    then have "put_answered w answer = put_returned w (Inl NilDeref)" by (auto simp: put_answered_def)
    with True show ?thesis
      by (simp, intro put_returned_inv [OF own' past js]) auto
  next
    case False
    then have f': "put_answered w answer = (case snd answer of
         Some e \<Rightarrow> put_returned w (Inr (sint (w_failed w + count_of answer), Some e))
       | None \<Rightarrow> if w_notDone w then w\<lparr>w_failed := w_failed w + count_of answer, w_pc := Batching\<rparr>
                else put_returned w (Inr (sint (w_failed w + count_of answer), None)))"
      by (auto simp: put_answered_def count_of_def split: option.splits)
    show ?thesis
    proof (cases "snd answer")
      case (Some e)
      have "\<exists>j. 0 < j \<and> j \<le> length ?bs \<and> map fst (cur @ [?new]) = map (put_request (w_stream w)) (take j ?bs)"
        using cur' m by (intro exI [of _ "Suc m"]) simp
      with Some f' show ?thesis
        by (simp, intro put_returned_inv [OF own' past js]) auto
    next
      case None
      then have cl': "clean (cur @ [?new])" using cl by (simp add: clean_def)
      show ?thesis
      proof (cases "w_notDone w")
        case True
        have "attempting aws i h limit l' (w\<lparr>w_failed := w_failed w + count_of answer, w_pc := Batching\<rparr>)"
          unfolding attempting_def using own' past js cur' cl' f count True b(2) st
          by (intro exI [of _ past] exI [of _ "cur @ [?new]"] exI [of _ js] exI [of _ "Suc m"]) simp
        with True None f' show ?thesis by (simp add: worker_inv_def)
      next
        case False
        then have "take (Suc m) ?bs = ?bs" using m b(2) by simp
        with False None f' f count cur' cl' show ?thesis
          by (simp, intro put_returned_inv [OF own' past js]) auto
      qed
    qed
  qed
qed

text \<open>A step of the worker itself.\<close>

lemma worker_step_log:
  assumes "worker_step aws i (w, c, l) = (w', c', l')" and "svc c \<noteq> None"
  shows "svc c' \<noteq> None" and "\<exists>ext. l' = l @ ext \<and> (\<forall>p \<in> set ext. fst p = i)"
    and "w_items w' = w_items w \<and> w_stream w' = w_stream w"
  using assms
  by (auto simp: worker_step_def put_answered_def Let_def split: put_pc.splits sum.splits prod.splits option.splits if_splits)

lemma worker_step_inv:
  assumes "worker_step aws i (w, c, l0 @ l) = (w', c', l0 @ l')"
    and "worker_inv aws i (map snd l0) limit l w" and "fits (w_items w)" and "svc c \<noteq> None"
  shows "worker_inv aws i (map snd l0) limit l' w'"
proof (cases "w_pc w")
  case Batching
  let ?bs = "put_batches (w_items w)"
  from assms(2) Batching have att: "attempting aws i (map snd l0) limit l w" by (simp add: worker_inv_def)
  then obtain past cur js m where d: "own_puts aws i (map snd l0) l = past @ cur"
    "map fst past = attempt_requests (w_stream w) (w_items w) js" "length js + w_left w = limit"
    "map fst cur = map (put_request (w_stream w)) (take m ?bs)" "clean cur" "w_failed w = answer_count cur"
    "m < length ?bs" "sint (w_start w) = 500 * int m"
    unfolding attempting_def using Batching by auto
  note gb = GetBatch_put_batches [OF assms(3) d(7,8)]
  from assms(1) Batching gb(1) have w': "w' = w\<lparr>w_batch := ?bs ! m, w_notDone := Suc m < length ?bs,
      w_start := w_start w + MaxPutRecordsBatchSize, w_pc := Checking\<rparr>" and l': "l' = l"
    by (auto simp: worker_step_def)
  have "attempting aws i (map snd l0) limit l' w'"
    unfolding attempting_def w' l' using d gb(2)
    by (intro exI [of _ past] exI [of _ cur] exI [of _ js] exI [of _ m]) simp
  then show ?thesis by (simp add: worker_inv_def w')
next
  case (Requesting k)
  with assms(2) have att: "attempting aws i (map snd l0) limit l w" by (simp add: worker_inv_def)
  let ?input = "put_request (w_stream w) (w_batch w)"
  from assms(1) Requesting have
    "w' = put_answered w (aws_put_records aws (map snd (l0 @ l)) k ?input)"
    "l' = l @ [(i, PutRecordsCall k ?input)]"
    by (auto simp: worker_step_def Let_def)
  then show ?thesis using put_answered_inv [OF att Requesting] by simp
next
  case (Returned r)
  with assms show ?thesis by (simp add: worker_step_def)
qed (use assms in \<open>auto simp: worker_step_def worker_inv_def Let_def attempting_inside split: prod.splits if_splits option.splits\<close>)
section \<open>Any interleaving\<close>

type_synonym job = "Item list \<times> string \<times> nat"

definition start_workers :: "job list \<Rightarrow> 'k KinesisClient \<Rightarrow> ('k, 'c) log \<Rightarrow> ('k, 'c) shared" where
  "start_workers jobs c l =
     \<lparr>sh_workers = map (\<lambda>(items, url, left). new_worker items url left) jobs, sh_client = c, sh_log = l\<rparr>"

text \<open>
  The invariant of the system: the client has a handle, the log grows, and every worker is
  at its own job and keeps its own invariant.
\<close>

definition shared_inv :: "('k, 'c) aws \<Rightarrow> job list \<Rightarrow> ('k, 'c) log \<Rightarrow> ('k, 'c) shared \<Rightarrow> bool" where
  "shared_inv aws jobs l0 s \<longleftrightarrow> svc (sh_client s) \<noteq> None \<and> length (sh_workers s) = length jobs
     \<and> (\<exists>l. sh_log s = l0 @ l \<and> (\<forall>i < length jobs. case jobs ! i of (items, url, limit) \<Rightarrow>
          w_items (sh_workers s ! i) = items \<and> w_stream (sh_workers s ! i) = url
          \<and> worker_inv aws i (map snd l0) limit l (sh_workers s ! i)))"

definition fit_jobs :: "job list \<Rightarrow> bool" where
  "fit_jobs jobs \<longleftrightarrow> list_all (\<lambda>(items, url, limit). fits items) jobs"

lemma shared_inv_start: "svc c \<noteq> None \<Longrightarrow> shared_inv aws jobs l0 (start_workers jobs c l0)"
  by (auto simp: shared_inv_def start_workers_def split: prod.splits
      intro!: new_worker_inv [of _ _ _ _ "[]" _ _ "[]"])
     (simp_all add: new_worker_def attempt_requests_def)

lemma shared_step_inv:
  assumes "fit_jobs jobs" "shared_inv aws jobs l0 s"
  shows "shared_inv aws jobs l0 (shared_step aws i s)"
proof (cases "i < length (sh_workers s)")
  case False
  with assms(2) show ?thesis by (simp add: shared_step_def)
next
  case True
  from assms(2) obtain l where sv: "svc (sh_client s) \<noteq> None" and len: "length (sh_workers s) = length jobs"
    and l: "sh_log s = l0 @ l"
    and ws: "\<And>j. j < length jobs \<Longrightarrow> w_items (sh_workers s ! j) = fst (jobs ! j)
          \<and> w_stream (sh_workers s ! j) = fst (snd (jobs ! j))
          \<and> worker_inv aws j (map snd l0) (snd (snd (jobs ! j))) l (sh_workers s ! j)"
    unfolding shared_inv_def by (auto simp: case_prod_unfold)
  obtain w' c' l' where st: "worker_step aws i (sh_workers s ! i, sh_client s, l0 @ l) = (w', c', l')"
    by (metis prod_cases3)
  from worker_step_log [OF st sv] obtain ext where sv': "svc c' \<noteq> None" and l': "l' = l0 @ (l @ ext)"
    and ext: "\<forall>p \<in> set ext. fst p = i" and same: "w_items w' = w_items (sh_workers s ! i)"
      "w_stream w' = w_stream (sh_workers s ! i)" by auto
  have "fits (w_items (sh_workers s ! i))"
    using assms(1) ws [of i] True len by (auto simp: fit_jobs_def list_all_length case_prod_unfold)
  with worker_step_inv [OF st [unfolded l']] ws [of i] True len sv
  have own: "worker_inv aws i (map snd l0) (snd (snd (jobs ! i))) (l @ ext) w'" by simp
  have "w_items ((sh_workers s)[i := w'] ! j) = fst (jobs ! j)
      \<and> w_stream ((sh_workers s)[i := w'] ! j) = fst (snd (jobs ! j))
      \<and> worker_inv aws j (map snd l0) (snd (snd (jobs ! j))) (l @ ext) ((sh_workers s)[i := w'] ! j)"
    if j: "j < length jobs" for j
  proof (cases "j = i")
    case True
    with own same ws [OF j] j len show ?thesis by simp
  next
    case False
    with ext have "\<forall>p \<in> set ext. fst p \<noteq> j" by auto
    with ws [OF j] False show ?thesis by (simp add: worker_inv_others)
  qed
  with st True len l sv' l' show ?thesis
    by (auto simp: shared_step_def shared_inv_def case_prod_unfold)
qed

lemma shared_run_inv:
  assumes "fit_jobs jobs" "svc c \<noteq> None"
  shows "shared_inv aws jobs l0 (shared_run aws is (start_workers jobs c l0))"
proof -
  have "shared_inv aws jobs l0 (fold (shared_step aws) is s)" if "shared_inv aws jobs l0 s" for s
    using that by (induction "is" arbitrary: s) (auto intro: shared_step_inv [OF assms(1)])
  then show ?thesis using shared_inv_start [OF assms(2), of aws jobs l0] by (simp add: shared_run_def)
qed

section \<open>Every worker returns\<close>

text \<open>The number of steps of its own that a worker still takes at most.\<close>

fun pc_rank :: "('k, 'c) put_pc \<Rightarrow> nat" where
  "pc_rank Batching = 0"
| "pc_rank Checking = 10"
| "pc_rank (Clock t) = 9"
| "pc_rank Load_sts = 8"
| "pc_rank (Retrieve cfg) = 7"
| "pc_rank (Load_role resp) = 6"
| "pc_rank (Store_expiry k t) = 5"
| "pc_rank (Store_svc k) = 4"
| "pc_rank Reading = 3"
| "pc_rank (Requesting k) = 2"
| "pc_rank (Returned r) = 0"

definition batches_left :: "('k, 'c) worker \<Rightarrow> nat" where
  "batches_left w = (if w_pc w = Batching \<or> w_notDone w
     then length (put_batches (w_items w)) - nat (sint (w_start w)) div 500 else 0)"

definition worker_rank :: "('k, 'c) worker \<Rightarrow> nat" where
  "worker_rank w = (case w_pc w of Returned r \<Rightarrow> 0
     | pc \<Rightarrow> 11 * length (put_batches (w_items w)) * w_left w + 11 * batches_left w + pc_rank pc)"

lemma worker_rank_new:
  "worker_rank (new_worker items url left) = 11 * length (put_batches items) * Suc left"
  by (simp add: worker_rank_def new_worker_def batches_left_def)

lemma worker_rank_returned: "worker_rank (w\<lparr>w_pc := Returned r\<rparr>) = 0"
  by (simp add: worker_rank_def)

lemma put_returned_rank:
  assumes "0 < n"
  shows "worker_rank (put_returned w r) < 11 * length (put_batches (w_items w)) * w_left w + n"
  using assms
  by (auto simp: put_returned_def worker_rank_returned worker_rank_new split: sum.splits option.splits nat.splits)

lemma attempting_left:
  assumes "attempting aws i h limit l w"
  obtains m where "m < length (put_batches (w_items w))"
    "batches_left w = length (put_batches (w_items w)) - (if w_pc w = Batching then m else Suc m)"
    "w_pc w = Batching \<Longrightarrow> sint (w_start w) = 500 * int m"
    "w_pc w \<noteq> Batching \<Longrightarrow> w_notDone w \<Longrightarrow> sint (w_start w) = 500 * int (Suc m)"
proof -
  from assms obtain m where m: "m < length (put_batches (w_items w))"
    "if w_pc w = Batching then sint (w_start w) = 500 * int m
     else w_batch w = put_batches (w_items w) ! m
       \<and> w_notDone w = (Suc m < length (put_batches (w_items w)))
       \<and> (w_notDone w \<longrightarrow> sint (w_start w) = 500 * int (Suc m))"
    unfolding attempting_def by blast
  have "nat (500 * int k) div 500 = k" for k by (simp add: nat_mult_distrib)
  with m have "batches_left w = length (put_batches (w_items w)) - (if w_pc w = Batching then m else Suc m)"
    by (auto simp: batches_left_def split: if_splits)
  from that [OF m(1) this] m(2) show ?thesis by (simp split: if_splits)
qed
lemma attempting_rank:
  assumes "attempting aws i h limit l w" "\<forall>r. w_pc w \<noteq> Returned r"
  shows "worker_rank w = 11 * length (put_batches (w_items w)) * w_left w + 11 * batches_left w + pc_rank (w_pc w)"
    and "0 < worker_rank w"
proof -
  show eq: "worker_rank w = 11 * length (put_batches (w_items w)) * w_left w + 11 * batches_left w + pc_rank (w_pc w)"
    using assms(2) by (cases "w_pc w") (simp_all add: worker_rank_def)
  obtain m where "m < length (put_batches (w_items w))"
    "batches_left w = length (put_batches (w_items w)) - (if w_pc w = Batching then m else Suc m)"
    by (rule attempting_left [OF assms(1)])
  then show "0 < worker_rank w" using assms(2) eq by (cases "w_pc w") auto
qed

lemma batches_left_pc:
  "w_pc w \<noteq> Batching \<Longrightarrow> p \<noteq> Batching \<Longrightarrow> batches_left (w\<lparr>w_pc := p\<rparr>) = batches_left w"
  by (simp add: batches_left_def)

lemma rank_inside:
  assumes "attempting aws i h limit l w" "w_pc w \<noteq> Batching" "p \<noteq> Batching" "\<forall>r. w_pc w \<noteq> Returned r"
    and "\<forall>r. p \<noteq> Returned r" "pc_rank p < pc_rank (w_pc w)"
  shows "worker_rank (w\<lparr>w_pc := p\<rparr>) < worker_rank w"
proof -
  have "worker_rank (w\<lparr>w_pc := p\<rparr>)
      = 11 * length (put_batches (w_items w)) * w_left w + 11 * batches_left w + pc_rank p"
    using assms(5) batches_left_pc [OF assms(2,3)] by (cases p) (simp_all add: worker_rank_def)
  with attempting_rank(1) [OF assms(1,4)] assms(6) show ?thesis by simp
qed

lemma put_answered_rank:
  assumes "attempting aws i h limit l w" "w_pc w = Requesting k"
  shows "worker_rank (put_answered w answer) < worker_rank w"
proof -
  let ?left = "11 * length (put_batches (w_items w)) * w_left w" and ?n = "11 * batches_left w + 2"
  have "worker_rank w = ?left + ?n"
    using attempting_rank(1) [OF assms(1)] assms(2) by simp
  moreover have "worker_rank (put_returned w r) < ?left + ?n" for r by (rule put_returned_rank) simp
  moreover have "worker_rank (w\<lparr>w_failed := f, w_pc := Batching\<rparr>) < ?left + ?n" if "w_notDone w" for f
    using that assms(2) by (simp add: worker_rank_def batches_left_def)
  ultimately show ?thesis
    by (auto simp: put_answered_def split: option.splits)
qed

lemma worker_step_rank:
  assumes "worker_step aws i (w, c, l0 @ l) = (w', c', l')"
    and "worker_inv aws i (map snd l0) limit l w" and "fits (w_items w)" and "svc c \<noteq> None"
    and "\<forall>r. w_pc w \<noteq> Returned r"
  shows "worker_rank w' < worker_rank w"
proof -
  from assms(2,5) have att: "attempting aws i (map snd l0) limit l w" by (simp add: worker_inv_running)
  note inside = rank_inside [OF att]
  show ?thesis
  proof (cases "w_pc w")
    case Batching
    obtain m where m: "m < length (put_batches (w_items w))"
      "batches_left w = length (put_batches (w_items w)) - m" "sint (w_start w) = 500 * int m"
      using attempting_left [OF att] Batching by auto
    note gb = GetBatch_put_batches [OF assms(3) m(1,3)]
    from assms(1) Batching gb(1) have w': "w' = w\<lparr>w_batch := put_batches (w_items w) ! m,
        w_notDone := Suc m < length (put_batches (w_items w)),
        w_start := w_start w + MaxPutRecordsBatchSize, w_pc := Checking\<rparr>"
      by (auto simp: worker_step_def)
    have "nat (500 * int k) div 500 = k" for k by (simp add: nat_mult_distrib)
    from this [of "Suc m"] have "batches_left w' \<le> batches_left w - 1"
      using gb(2) m(2) by (simp add: w' batches_left_def)
    moreover have "worker_rank w' = 11 * length (put_batches (w_items w)) * w_left w + 11 * batches_left w' + 10"
      by (simp add: worker_rank_def w')
    ultimately show ?thesis
      using attempting_rank(1) [OF att assms(5)] Batching m(1,2) by simp
  next
    case (Requesting k)
    with assms(1) have "w' = put_answered w (aws_put_records aws (map snd (l0 @ l)) k (put_request (w_stream w) (w_batch w)))"
      by (auto simp: worker_step_def Let_def)
    then show ?thesis using put_answered_rank [OF att Requesting] by (simp only:)
  qed (use assms(1,4,5) inside in \<open>auto simp: worker_step_def Let_def split: prod.splits if_splits option.splits\<close>)
qed

lemma worker_rank_0: "worker_inv aws i h limit l w \<Longrightarrow> worker_rank w = 0 \<Longrightarrow> \<exists>r. w_pc w = Returned r"
  using attempting_rank(2) [of aws i h limit l w] worker_inv_running [of w aws i h limit l] by auto

lemma shared_step_other: "i \<noteq> j \<Longrightarrow> sh_workers (shared_step aws j s) ! i = sh_workers s ! i"
  by (simp add: shared_step_def split: prod.splits)

lemma shared_step_rank:
  assumes "fit_jobs jobs" "shared_inv aws jobs l0 s" "i < length jobs"
  shows "worker_rank (sh_workers (shared_step aws i s) ! i) \<le> worker_rank (sh_workers s ! i) - 1"
proof -
  from assms obtain l where sv: "svc (sh_client s) \<noteq> None" and len: "length (sh_workers s) = length jobs"
    and l: "sh_log s = l0 @ l" and items: "w_items (sh_workers s ! i) = fst (jobs ! i)"
    and inv: "worker_inv aws i (map snd l0) (snd (snd (jobs ! i))) l (sh_workers s ! i)"
    unfolding shared_inv_def by (auto simp: case_prod_unfold)
  obtain w' c' l' where st: "worker_step aws i (sh_workers s ! i, sh_client s, l0 @ l) = (w', c', l')"
    by (metis prod_cases3)
  have w': "sh_workers (shared_step aws i s) ! i = w'" using st len assms(3) l by (simp add: shared_step_def)
  have "fits (w_items (sh_workers s ! i))"
    using assms(1,3) items by (auto simp: fit_jobs_def list_all_length case_prod_unfold)
  note dec = worker_step_rank [OF st inv this sv]
  show ?thesis
  proof (cases "\<exists>r. w_pc (sh_workers s ! i) = Returned r")
    case True
    with st w' show ?thesis by (auto simp: worker_step_def worker_rank_def)
  next
    case False
    with dec w' show ?thesis by fastforce
  qed
qed

lemma shared_run_rank:
  assumes "fit_jobs jobs" "shared_inv aws jobs l0 s" "i < length jobs"
  shows "worker_rank (sh_workers (fold (shared_step aws) is s) ! i) \<le> worker_rank (sh_workers s ! i) - count_list is i"
  using assms(2)
proof (induction "is" arbitrary: s)
  case (Cons j js)
  note IH = Cons.IH [OF shared_step_inv [OF assms(1) Cons.prems, of j]]
  show ?case
  proof (cases "j = i")
    case True
    with IH shared_step_rank [OF assms(1) Cons.prems assms(3)] show ?thesis by simp
  next
    case False
    with IH shared_step_other [of i j aws s] show ?thesis by auto
  qed
qed simp

end
