(* ===== verification/Shared_Properties.thy ===== *)
theory Shared_Properties
  imports Shared_Client
begin

text \<open>
  What holds when several goroutines use one Kinesis client: each of them delivers as if it
  were alone, and returns after a bounded number of its own steps, whatever the others do; and
  alone it computes what the functions of \<open>Kinesis\<close> and \<open>Sender\<close> compute.
\<close>

section \<open>A worker that is left alone\<close>

text \<open>
  Without another worker in between, the steps compute what the functions of \<open>Kinesis\<close> and
  \<open>Sender\<close> compute: the same result, client and history.
\<close>

definition alone :: "('k, 'c) aws \<Rightarrow> nat \<Rightarrow> ('k, 'c) worker \<times> 'k KinesisClient \<times> ('k, 'c) log
    \<Rightarrow> ('k, 'c) worker \<times> 'k KinesisClient \<times> ('k, 'c) log \<Rightarrow> bool" where
  "alone aws i s t \<longleftrightarrow> (\<exists>n. (worker_step aws i ^^ n) s = t)"

lemma alone_refl: "alone aws i s s"
  unfolding alone_def by (rule exI [of _ 0]) simp

lemma alone_step: "worker_step aws i s = s' \<Longrightarrow> alone aws i s' t \<Longrightarrow> alone aws i s t"
  unfolding alone_def by (elim exE, rule_tac x = "Suc n" in exI) (simp add: funpow_swap1)

lemma alone_trans: "alone aws i s t \<Longrightarrow> alone aws i t u \<Longrightarrow> alone aws i s u"
proof -
  assume "alone aws i s t" "alone aws i t u"
  then obtain m n where "(worker_step aws i ^^ m) s = t" "(worker_step aws i ^^ n) t = u"
    unfolding alone_def by blast
  then have "(worker_step aws i ^^ (n + m)) s = u" by (simp add: funpow_add)
  then show ?thesis unfolding alone_def by blast
qed

lemma alone_1: "worker_step aws i s = t \<Longrightarrow> alone aws i s t"
  by (rule alone_step [OF _ alone_refl])

lemma alone_refresh:
  assumes "refreshClient aws c (map snd l) = (c', h')"
  shows "\<exists>l'. alone aws i (w\<lparr>w_pc := Checking\<rparr>, c, l) (w\<lparr>w_pc := Reading\<rparr>, c', l') \<and> map snd l' = h'"
proof (cases "role_c c = ''''")
  case True
  with assms have "c' = c" "h' = map snd l" by (simp_all add: refreshClient_def)
  with True show ?thesis by (intro exI [of _ l] conjI alone_1) (simp_all add: worker_step_def)
next
  case role: False
  let ?l1 = "l @ [(i, NowCall)]"
  let ?expired = "Unix (credsExpireAt c) \<le> Unix (aws_now aws (map snd l) + minutes 3)"
  obtain cfg e1 where load: "aws_load aws (map snd ?l1) (sts_load_opts c) = (cfg, e1)" by fastforce
  let ?l2 = "?l1 @ [(i, LoadCall (sts_load_opts c))]"
  obtain resp e2 where ret: "aws_retrieve aws (map snd ?l2) cfg (role_c c) = (resp, e2)" by fastforce
  let ?l3 = "?l2 @ [(i, RetrieveCall cfg (role_c c))]"
  obtain cfg2 e3 where load2: "aws_load aws (map snd ?l3) (role_load_opts c resp) = (cfg2, e3)" by fastforce
  let ?l4 = "?l3 @ [(i, LoadCall (role_load_opts c resp))]"
  have check: "worker_step aws i (w\<lparr>w_pc := Checking\<rparr>, c, l) = (w\<lparr>w_pc := Clock (credsExpireAt c)\<rparr>, c, l)"
    using role by (simp add: worker_step_def)
  have clock: "worker_step aws i (w\<lparr>w_pc := Clock (credsExpireAt c)\<rparr>, c, l)
      = (w\<lparr>w_pc := (if ?expired then Load_sts else Reading)\<rparr>, c, ?l1)"
    by (simp add: worker_step_def)
  have s1: "worker_step aws i (w\<lparr>w_pc := Load_sts\<rparr>, c, ?l1)
      = (w\<lparr>w_pc := (if e1 = None then Retrieve cfg else Reading)\<rparr>, c, ?l2)"
    using load by (simp add: worker_step_def)
  have s2: "worker_step aws i (w\<lparr>w_pc := Retrieve cfg\<rparr>, c, ?l2)
      = (w\<lparr>w_pc := (if e2 = None then Load_role resp else Reading)\<rparr>, c, ?l3)"
    using ret by (simp add: worker_step_def)
  have s3: "worker_step aws i (w\<lparr>w_pc := Load_role resp\<rparr>, c, ?l3)
      = (w\<lparr>w_pc := (if e3 = None then Store_expiry (aws_from_config aws cfg2) (sts_Expires resp) else Reading)\<rparr>,
         c, ?l4)"
    using load2 by (simp add: worker_step_def)
  have s4: "alone aws i (w\<lparr>w_pc := Store_expiry k t\<rparr>, c, ?l4)
      (w\<lparr>w_pc := Reading\<rparr>, c\<lparr>credsExpireAt := t, svc := Some k\<rparr>, ?l4)" for k t
    by (rule alone_step [of _ _ _ "(w\<lparr>w_pc := Store_svc k\<rparr>, c\<lparr>credsExpireAt := t\<rparr>, ?l4)"], simp add: worker_step_def)
       (rule alone_1, simp add: worker_step_def)
  note facts = assms [unfolded refreshClient_def getClient_def Let_def] role load [simplified] ret [simplified] load2 [simplified]
  note start = alone_trans [OF alone_step [OF check alone_1 [OF clock]]]
  consider "\<not> ?expired" | e where "?expired" "e1 = Some e" | e where "?expired" "e1 = None" "e2 = Some e"
    | e where "?expired" "e1 = None" "e2 = None" "e3 = Some e" | "?expired" "e1 = None" "e2 = None" "e3 = None"
    by (metis not_None_eq)
  then show ?thesis
  proof cases
    case 1
    with facts show ?thesis by (intro exI [of _ ?l1] conjI start) (auto simp: alone_refl)
  next
    case 2
    with facts s1 show ?thesis by (intro exI [of _ ?l2] conjI start) (auto simp: alone_1)
  next
    case 3
    then have "alone aws i (w\<lparr>w_pc := Load_sts\<rparr>, c, ?l1) (w\<lparr>w_pc := Reading\<rparr>, c, ?l3)"
      using s1 s2 by (intro alone_step [OF s1]) (simp add: alone_1)
    with 3 facts show ?thesis by (intro exI [of _ ?l3] conjI start) auto
  next
    case 4
    then have "alone aws i (w\<lparr>w_pc := Load_role resp\<rparr>, c, ?l3) (w\<lparr>w_pc := Reading\<rparr>, c, ?l4)"
      using s3 by (simp add: alone_1)
    with 4 s2 have "alone aws i (w\<lparr>w_pc := Retrieve cfg\<rparr>, c, ?l2) (w\<lparr>w_pc := Reading\<rparr>, c, ?l4)"
      by (intro alone_step [OF s2]) simp
    with 4 have "alone aws i (w\<lparr>w_pc := Load_sts\<rparr>, c, ?l1) (w\<lparr>w_pc := Reading\<rparr>, c, ?l4)"
      by (intro alone_step [OF s1]) simp
    with 4 facts show ?thesis by (intro exI [of _ ?l4] conjI start) auto
  next
    case 5
    let ?c = "c\<lparr>credsExpireAt := sts_Expires resp, svc := Some (aws_from_config aws cfg2)\<rparr>"
    from 5 s4 have "alone aws i (w\<lparr>w_pc := Load_role resp\<rparr>, c, ?l3) (w\<lparr>w_pc := Reading\<rparr>, ?c, ?l4)"
      by (intro alone_step [OF s3]) simp
    with 5 s2 have "alone aws i (w\<lparr>w_pc := Retrieve cfg\<rparr>, c, ?l2) (w\<lparr>w_pc := Reading\<rparr>, ?c, ?l4)"
      by (intro alone_step [OF s2]) simp
    with 5 have "alone aws i (w\<lparr>w_pc := Load_sts\<rparr>, c, ?l1) (w\<lparr>w_pc := Reading\<rparr>, ?c, ?l4)"
      by (intro alone_step [OF s1]) simp
    with 5 facts show ?thesis by (intro exI [of _ ?l4] conjI start) auto
  qed
qed
text \<open>One turn of the loop, the loop, and the attempts.\<close>

lemma put_returned_pc [simp]: "put_returned (w\<lparr>w_pc := p\<rparr>) r = put_returned w r"
  by (simp add: put_returned_def split: sum.splits option.splits nat.splits)

lemma put_answered_pc [simp]: "put_answered (w\<lparr>w_pc := p\<rparr>) answer = put_answered w answer"
  by (simp add: put_answered_def split: option.splits)

lemma alone_put:
  assumes "put_batch aws (w_batch w) (w_stream w) (w_failed w) c (map snd l) = (r, c', h')"
  shows "\<exists>l'. map snd l' = h' \<and> alone aws i (w\<lparr>w_pc := Checking\<rparr>, c, l)
     (case r of
        Inl p \<Rightarrow> put_returned w (Inl p)
      | Inr (failed', Some e) \<Rightarrow> put_returned w (Inr (sint failed', Some e))
      | Inr (failed', None) \<Rightarrow> if w_notDone w then w\<lparr>w_failed := failed', w_pc := Batching\<rparr>
                        else put_returned w (Inr (sint failed', None)), c', l')"
proof -
  obtain c1 h1 where rc: "refreshClient aws c (map snd l) = (c1, h1)" by fastforce
  from alone_refresh [OF rc] obtain l1 where al: "alone aws i (w\<lparr>w_pc := Checking\<rparr>, c, l) (w\<lparr>w_pc := Reading\<rparr>, c1, l1)"
    and h1: "map snd l1 = h1" by blast
  show ?thesis
  proof (cases "svc c1")
    case None
    then have "worker_step aws i (w\<lparr>w_pc := Reading\<rparr>, c1, l1) = (put_returned w (Inl NilDeref), c1, l1)"
      by (simp add: worker_step_def)
    from alone_trans [OF al alone_1 [OF this]] show ?thesis
      using assms rc None h1 by (intro exI [of _ l1]) (auto simp: put_batch_def)
  next
    case (Some k)
    let ?input = "put_request (w_stream w) (w_batch w)"
    have "worker_step aws i (w\<lparr>w_pc := Reading\<rparr>, c1, l1) = (w\<lparr>w_pc := Requesting k\<rparr>, c1, l1)"
      using Some by (simp add: worker_step_def)
    from alone_trans [OF al alone_1 [OF this]]
    have "alone aws i (w\<lparr>w_pc := Checking\<rparr>, c, l) (w\<lparr>w_pc := Requesting k\<rparr>, c1, l1)" .
    moreover have "worker_step aws i (w\<lparr>w_pc := Requesting k\<rparr>, c1, l1)
        = (put_answered w (aws_put_records aws h1 k ?input), c1, l1 @ [(i, PutRecordsCall k ?input)])"
      using h1 by (simp add: worker_step_def Let_def)
    ultimately have al': "alone aws i (w\<lparr>w_pc := Checking\<rparr>, c, l)
        (put_answered w (aws_put_records aws h1 k ?input), c1, l1 @ [(i, PutRecordsCall k ?input)])"
      by (rule alone_trans [OF _ alone_1])
    have eqs: "c' = c1" "h' = h1 @ [PutRecordsCall k ?input]"
      using assms rc Some by (auto simp: put_batch_def put_request_def Let_def split: prod.splits option.splits)
    have "put_answered w (aws_put_records aws h1 k ?input) =
      (case r of
        Inl p \<Rightarrow> put_returned w (Inl p)
      | Inr (failed', Some e) \<Rightarrow> put_returned w (Inr (sint failed', Some e))
      | Inr (failed', None) \<Rightarrow> if w_notDone w then w\<lparr>w_failed := failed', w_pc := Batching\<rparr>
                        else put_returned w (Inr (sint failed', None)))"
      using assms rc Some
      by (auto simp: put_batch_def put_request_def put_answered_def Let_def split: prod.splits option.splits)
    with al' eqs h1 show ?thesis
      by (intro exI [of _ "l1 @ [(i, PutRecordsCall k ?input)]"]) simp
  qed
qed

lemma alone_loop:
  assumes "PutRecords_loop aws items stream start failed c h = (r, c', h')"
    and "w_items w = items" "w_stream w = stream" "w_start w = start" "w_failed w = failed"
    and "w_pc w = Batching" "map snd l = h"
  shows "\<exists>l' w'. alone aws i (w, c, l) (put_returned w' r, c', l') \<and> map snd l' = h'
     \<and> w_items w' = items \<and> w_stream w' = stream \<and> w_left w' = w_left w"
  using assms
proof (induction aws items stream start failed c h arbitrary: r c' h' w l rule: PutRecords_loop.induct)
  case (1 aws items stream start failed c h)
  note eq = "1.prems"(1) [unfolded PutRecords_loop.simps [of aws items stream start failed c h]]
  show ?case
  proof (cases "GetBatch start MaxPutRecordsBatchSize items")
    case (Inl p)
    with eq have e: "r = Inl p" "c' = c" "h' = h" by simp_all
    have "worker_step aws i (w, c, l) = (put_returned w (Inl p), c, l)"
      using Inl "1.prems" by (simp add: worker_step_def)
    from alone_1 [OF this] e "1.prems" show ?thesis by (intro exI [of _ l] exI [of _ w]) simp
  next
    case (Inr bm)
    obtain b notDone where bm: "bm = (b, notDone)" by fastforce
    let ?w = "w\<lparr>w_batch := b, w_notDone := notDone, w_start := start + MaxPutRecordsBatchSize\<rparr>"
    have st: "worker_step aws i (w, c, l) = (?w\<lparr>w_pc := Checking\<rparr>, c, l)"
      using Inr bm "1.prems" by (simp add: worker_step_def)
    obtain r1 c1 h1 where pb: "put_batch aws b stream failed c h = (r1, c1, h1)" by (metis prod_cases3)
    have "put_batch aws (w_batch ?w) (w_stream ?w) (w_failed ?w) c (map snd l) = (r1, c1, h1)"
      using pb "1.prems" by simp
    from alone_put [OF this] obtain l1 where l1: "map snd l1 = h1" and al: "alone aws i (?w\<lparr>w_pc := Checking\<rparr>, c, l)
       (case r1 of
          Inl p \<Rightarrow> put_returned ?w (Inl p)
        | Inr (failed', Some e) \<Rightarrow> put_returned ?w (Inr (sint failed', Some e))
        | Inr (failed', None) \<Rightarrow> if w_notDone ?w then ?w\<lparr>w_failed := failed', w_pc := Batching\<rparr>
                          else put_returned ?w (Inr (sint failed', None)), c1, l1)"
      by blast
    note al = alone_step [OF st al]
    show ?thesis
    proof (cases "\<exists>n. r1 = Inr (n, None) \<and> notDone")
      case True
      then obtain n where n: "r1 = Inr (n, None)" "notDone" by blast
      let ?w1 = "?w\<lparr>w_failed := n, w_pc := Batching\<rparr>"
      from eq Inr bm pb n
      have "PutRecords_loop aws items stream (start + MaxPutRecordsBatchSize) n c1 h1 = (r, c', h')" by simp
      from "1.IH" [OF Inr bm [symmetric] pb [symmetric] n(1) refl refl refl n(2) this, of ?w1 l1] "1.prems" l1
      obtain l' w' where tail: "alone aws i (?w1, c1, l1) (put_returned w' r, c', l')" "map snd l' = h'"
        "w_items w' = items" "w_stream w' = stream" "w_left w' = w_left w" by auto
      have "alone aws i (w, c, l) (?w1, c1, l1)" using al n by simp
      from alone_trans [OF this tail(1)] tail(2-5) show ?thesis by (intro exI conjI)
    next
      case False
      with eq Inr bm pb have "c' = c1" "h' = h1"
        and "put_returned ?w r = (case r1 of
          Inl p \<Rightarrow> put_returned ?w (Inl p)
        | Inr (failed', Some e) \<Rightarrow> put_returned ?w (Inr (sint failed', Some e))
        | Inr (failed', None) \<Rightarrow> if w_notDone ?w then ?w\<lparr>w_failed := failed', w_pc := Batching\<rparr>
                          else put_returned ?w (Inr (sint failed', None)))"
        by (auto split: sum.splits option.splits prod.splits if_splits)
      with al l1 "1.prems" show ?thesis by (intro exI [of _ l1] exI [of _ ?w]) simp
    qed
  qed
qed

lemma alone_attempts:
  assumes "retry_loop n (put_task aws items url) (c, map snd l) = (r, (c', h'))"
  shows "\<exists>l' w'. alone aws i (new_worker items url n, c, l) (w', c', l') \<and> map snd l' = h' \<and> w_pc w' = Returned r"
  using assms
proof (induction n arbitrary: c l)
  case 0
  then have "PutRecords_loop aws items url 0 0 c (map snd l) = (r, c', h')"
    by (auto simp: put_task_def PutRecords_def split: prod.splits)
  from alone_loop [OF this, of "new_worker items url 0" l i] obtain l' w' where
    "alone aws i (new_worker items url 0, c, l) (put_returned w' r, c', l')" "map snd l' = h'" "w_left w' = 0"
    by (auto simp: new_worker_def)
  moreover from this have "w_pc (put_returned w' r) = Returned r"
    by (simp add: put_returned_def split: sum.splits option.splits)
  ultimately show ?case by blast
next
  case (Suc n)
  obtain r1 c1 h1 where p: "PutRecords_loop aws items url 0 0 c (map snd l) = (r1, c1, h1)" by (metis prod_cases3)
  from alone_loop [OF p, of "new_worker items url (Suc n)" l i] obtain l1 w1 where al:
    "alone aws i (new_worker items url (Suc n), c, l) (put_returned w1 r1, c1, l1)" "map snd l1 = h1"
    "w_items w1 = items" "w_stream w1 = url" "w_left w1 = Suc n"
    by (auto simp: new_worker_def)
  have t: "put_task aws items url (c, map snd l) = (r1, (c1, h1))"
    using p by (simp add: put_task_def PutRecords_def)
  show ?case
  proof (cases "\<exists>v e. r1 = Inr (v, Some e)")
    case True
    then have again: "put_returned w1 r1 = new_worker items url n" using al by (auto simp: put_returned_def)
    from True Suc.prems t al(2) have
      "retry_loop n (put_task aws items url) (c1, map snd l1) = (r, (c', h'))" by auto
    from Suc.IH [OF this] obtain l' w' where tail: "alone aws i (new_worker items url n, c1, l1) (w', c', l')"
      "map snd l' = h'" "w_pc w' = Returned r" by blast
    from alone_trans [OF al(1) [unfolded again] tail(1)] tail(2,3) show ?thesis by blast
  next
    case False
    then have "r = r1" "c' = c1" "h' = h1"
      using Suc.prems t by (auto split: sum.splits prod.splits option.splits)
    moreover from False have "w_pc (put_returned w1 r1) = Returned r1"
      by (auto simp: put_returned_def split: sum.splits option.splits)
    ultimately show ?thesis using al by blast
  qed
qed

lemma shared_run_replicate:
  assumes "i < length (sh_workers s)" "(worker_step aws i ^^ n) (sh_workers s ! i, sh_client s, sh_log s) = (w, c, l)"
  shows "shared_run aws (replicate n i) s = \<lparr>sh_workers = (sh_workers s)[i := w], sh_client = c, sh_log = l\<rparr>"
  using assms
proof (induction n arbitrary: s)
  case 0
  then show ?case by (cases s) (auto simp: shared_run_def)
next
  case (Suc n)
  obtain w1 c1 l1 where st: "worker_step aws i (sh_workers s ! i, sh_client s, sh_log s) = (w1, c1, l1)"
    by (metis prod_cases3)
  let ?s = "\<lparr>sh_workers = (sh_workers s)[i := w1], sh_client = c1, sh_log = l1\<rparr>"
  have step: "shared_step aws i s = ?s" using st Suc.prems(1) by (simp add: shared_step_def)
  have "(worker_step aws i ^^ n) (sh_workers ?s ! i, sh_client ?s, sh_log ?s) = (w, c, l)"
    using Suc.prems st by (simp add: funpow_swap1)
  from Suc.IH [OF _ this] Suc.prems(1) step show ?case by (simp add: shared_run_def)
qed

section \<open>Properties of the shared client\<close>

text \<open>
  C4. Any number of goroutines send through one client at the same time, in any interleaving of
  their steps, each refreshing the client's credentials under the others' feet. Still the
  client never loses its handle, and a goroutine that has returned has sent its own items as
  if it were alone: whole attempts at its batches in order and none of another's; without an
  error its last attempt put every batch and the service answered each without an error;
  with an error, all attempts are used up. It panics only on an answer without a count.
\<close>

theorem shared_client_delivers:
  assumes "svc c \<noteq> None" and "fit_jobs jobs"
    and "s = shared_run aws is (start_workers jobs c l0)"
    and "i < length jobs" and "jobs ! i = (items, url, limit)" and "w_pc (sh_workers s ! i) = Returned r"
  shows "svc (sh_client s) \<noteq> None \<and> (\<exists>l. sh_log s = l0 @ l \<and>
    (case r of
       Inl p \<Rightarrow> p = NilDeref \<and> (\<exists>(input, answer) \<in> set (own_puts aws i (map snd l0) l).
          \<exists>out. fst answer = Some out \<and> FailedRecordCount out = None)
     | Inr (v, e) \<Rightarrow> \<exists>past cur js. own_puts aws i (map snd l0) l = past @ cur
          \<and> map fst past = attempt_requests url items js \<and> length js \<le> limit
          \<and> (e = None \<longrightarrow> map fst cur = map (put_request url) (put_batches items)
               \<and> clean cur \<and> v = sint (answer_count cur))
          \<and> (e \<noteq> None \<longrightarrow> length js = limit \<and> (\<exists>j. 0 < j \<and> j \<le> length (put_batches items)
               \<and> map fst cur = map (put_request url) (take j (put_batches items)))
               \<and> snd (snd (last cur)) = e)))"
proof -
  have inv: "shared_inv aws jobs l0 s" using shared_run_inv [OF assms(2,1)] assms(3) by simp
  then obtain l where "svc (sh_client s) \<noteq> None" "sh_log s = l0 @ l"
    "w_items (sh_workers s ! i) = items" "w_stream (sh_workers s ! i) = url"
    "worker_inv aws i (map snd l0) limit l (sh_workers s ! i)"
    using assms(4,5) unfolding shared_inv_def by fastforce
  moreover from this assms(6) have "outcome aws i (map snd l0) limit l (sh_workers s ! i) r"
    by (simp add: worker_inv_def)
  ultimately show ?thesis by (intro conjI exI [of _ l]) (simp_all only: outcome_def not_None_eq)
qed

text \<open>Two goroutines, one step each in turn, on a client whose credentials expire.\<close>

definition two_jobs :: "job list" where
  "two_jobs = [([one_item], ''s'', 0), ([one_item], ''t'', 1)]"

definition in_turn :: "nat \<Rightarrow> nat list" where
  "in_turn n = concat (replicate n [0, 1])"

lemma count_in_turn: "count_list (in_turn n) 1 = n"
  by (induction n) (simp_all add: in_turn_def)

lemma in_turn_10: "in_turn 10 = [0, 1, 0, 1, 0, 1, 0, 1, 0, 1, 0, 1, 0, 1, 0, 1, 0, 1, 0, 1]"
  by (simp add: in_turn_def numeral_eq_Suc)

lemma two_jobs_fit: "fit_jobs two_jobs" "svc role_client \<noteq> None"
  by (simp_all add: fit_jobs_def two_jobs_def fits_def role_client_def local_client_def)

lemma shared_steps_in_turn:
  "w_pc (sh_workers (shared_run accepting_aws (in_turn 10) (start_workers two_jobs role_client [])) ! 0)
     = Returned (Inr (0, None))"
  by (simp add: in_turn_10 shared_run_def shared_step_def start_workers_def two_jobs_def worker_step_def
      new_worker_def GetBatch_def slice_from_def go_len_def MaxPutRecordsBatchSize_def role_client_def
      local_client_def empty_client_def accepting_aws_def minutes_def Unix_def Let_def put_answered_def
      put_returned_def)

theorem shared_client_delivers_witness:
  "\<exists>l past cur js. sh_log (shared_run accepting_aws (in_turn 10) (start_workers two_jobs role_client [])) = [] @ l
     \<and> own_puts accepting_aws 0 [] l = past @ cur \<and> map fst past = attempt_requests ''s'' [one_item] js
     \<and> js = [] \<and> map fst cur = map (put_request ''s'') (put_batches [one_item]) \<and> clean cur"
proof -
  have "0 < length two_jobs" "two_jobs ! 0 = ([one_item], ''s'', 0)" by (simp_all add: two_jobs_def)
  from shared_client_delivers [OF two_jobs_fit(2,1) refl this shared_steps_in_turn] show ?thesis by auto
qed

text \<open>
  C6. No goroutine can keep another from returning: after a number of its own steps that only
  depends on its items and its retries (eleven for each batch of each attempt), every one
  has returned, whatever steps the others take in between.
\<close>

theorem shared_client_returns:
  assumes "svc c \<noteq> None" and "fit_jobs jobs"
    and "i < length jobs" and "jobs ! i = (items, url, limit)"
    and "11 * length (put_batches items) * Suc limit \<le> count_list is i"
  shows "\<exists>r. w_pc (sh_workers (shared_run aws is (start_workers jobs c l0)) ! i) = Returned r"
proof -
  let ?start = "start_workers jobs c l0" and ?s = "shared_run aws is (start_workers jobs c l0)"
  have "sh_workers ?start ! i = new_worker items url limit"
    using assms(3,4) by (simp add: start_workers_def)
  then have "worker_rank (sh_workers ?s ! i) = 0"
    using shared_run_rank [OF assms(2) shared_inv_start [OF assms(1)] assms(3), of aws "is" l0] assms(5)
    by (simp add: shared_run_def worker_rank_new)
  moreover obtain l where "worker_inv aws i (map snd l0) limit l (sh_workers ?s ! i)"
    using shared_run_inv [OF assms(2,1), of aws l0 "is"] assms(3,4) unfolding shared_inv_def by fastforce
  ultimately show ?thesis by (metis worker_rank_0)
qed

theorem shared_client_returns_witness:
  "\<exists>r. w_pc (sh_workers (shared_run accepting_aws (in_turn 22) (start_workers two_jobs role_client [])) ! 1) = Returned r"
proof -
  have "1 < length two_jobs" "two_jobs ! 1 = ([one_item], ''t'', 1)" by (simp_all add: two_jobs_def)
  moreover have "11 * length (put_batches [one_item]) * Suc 1 \<le> count_list (in_turn 22) 1"
    by (simp add: put_batches_def chunks_short count_in_turn [unfolded One_nat_def])
  ultimately show ?thesis by (rule shared_client_returns [OF two_jobs_fit(2,1)])
qed

text \<open>
  C13. The steps of a goroutine that no other disturbs compute the function \<open>OnEvent\<close>: some
  number of them ends with the same result, the same client and the same history of calls.
\<close>

theorem undisturbed_equals_OnEvent:
  assumes "honours_retry (env_run env) (env_limit env)" and "kc sender = Some c"
    and "marshal_items (env_marshal env) msgs = Inr items"
    and "OnEvent env sender msgs url (map snd l) = (r, sender', h')"
    and "i < length jobs" and "jobs ! i = (items, url, env_limit env (putRunner sender))"
  shows "\<exists>n s. shared_run (env_aws env) (replicate n i) (start_workers jobs c l) = s
     \<and> w_pc (sh_workers s ! i) = Returned r \<and> kc sender' = Some (sh_client s) \<and> map snd (sh_log s) = h'"
proof -
  obtain c' h1 where run: "retry_loop (env_limit env (putRunner sender)) (put_task (env_aws env) items url) (c, map snd l)
      = (r, (c', h1))" and eqs: "sender' = sender\<lparr>kc := Some c'\<rparr>" "h' = h1"
    using assms(1-4) by (auto simp: OnEvent_def honours_retry_def split: prod.splits)
  from alone_attempts [OF run, of i] obtain l' w' n where
    "(worker_step (env_aws env) i ^^ n) (new_worker items url (env_limit env (putRunner sender)), c, l) = (w', c', l')"
    "map snd l' = h1" "w_pc w' = Returned r"
    unfolding alone_def by blast
  with shared_run_replicate [where s = "start_workers jobs c l" and aws = "env_aws env"] assms(5,6) eqs
  show ?thesis by (intro exI [of _ n]) (simp add: start_workers_def)
qed

theorem undisturbed_equals_OnEvent_witness:
  "\<exists>n s. shared_run accepting_aws (replicate n 0)
       (start_workers [([\<lparr>PartitionKey_i = SessionID sample_message, Item_i = Payload sample_message\<rparr>], ''s'', 3)]
          local_client []) = s
     \<and> w_pc (sh_workers s ! 0) = Returned (Inr (0, None)) \<and> map snd (sh_log s) = sample_put"
proof -
  have "kc sample_sender = Some local_client" by (simp add: sample_sender_def)
  moreover have "marshal_items (env_marshal sample_env) [Some sample_message]
      = Inr [\<lparr>PartitionKey_i = SessionID sample_message, Item_i = Payload sample_message\<rparr>]"
    by (simp add: sample_env_def)
  moreover have "OnEvent sample_env sample_sender [Some sample_message] ''s'' (map snd [])
      = (Inr (0, None), sample_sender, sample_put)" using sample_OnEvent by simp
  moreover have "env_aws sample_env = accepting_aws" "env_limit sample_env (putRunner sample_sender) = 3"
    by (simp_all add: sample_env_def sample_sender_def)
  ultimately show ?thesis
    using undisturbed_equals_OnEvent [of sample_env sample_sender local_client "[Some sample_message]"
        "[\<lparr>PartitionKey_i = SessionID sample_message, Item_i = Payload sample_message\<rparr>]" "''s''" "[]"
        "Inr (0, None)" sample_sender sample_put 0
        "[([\<lparr>PartitionKey_i = SessionID sample_message, Item_i = Payload sample_message\<rparr>], ''s'', 3)]"]
      sample_ok(1) by fastforce
qed

end
