(* ===== verification/Concurrent_Delivery.thy ===== *)
theory Concurrent_Delivery
  imports Shared_Properties Module_Properties
begin

text \<open>
  The whole way of a batch, with everything at once: the queue's producers and loop, and its
  workers, each in the middle of its own \<open>Submit\<close>, moving from stream to stream, retrying,
  and sharing the senders and their clients with the other workers of the dispatcher.

  \<open>Queue\<close> takes the submission of a worker as one step. Here that step is taken apart:
  handing a batch to a worker begins a submission, which then takes the steps of
  \<open>Shared_Client\<close> on the client of the stream it is at, between any steps of the rest of the
  system; when it has an answer, the worker is done. Functions and code are those of \<open>Dispatcher\<close>
  (\<open>Submit\<close>, \<open>submitBatch\<close>) and \<open>Sender\<close> (\<open>OnEvent\<close>).
\<close>

section \<open>A submission\<close>

text \<open>
  A submission is at one of the dispatcher's streams, with the worker of \<open>PutRecords\<close>, or it
  has an answer.
\<close>

datatype ('k, 'c) sub_pc =
    Trying nat "('k, 'c) worker"
  | Answered "go_panic + go_err option"

record ('k, 'c) submission =
  sub_id :: nat
  sub_batch :: "msg list"
  sub_pc :: "('k, 'c) sub_pc"

text \<open>
  The loop of \<open>Submit\<close> at stream \<open>i\<close>: the end of the list, or a call of \<open>OnEvent\<close>, which
  marshals the batch first. Each step may count drops.
\<close>

definition try_stream :: "('k, 'c, 'r) sender_env \<Rightarrow> ('k, 'r) KinesisSender list \<Rightarrow> StreamDispatcher
    \<Rightarrow> msg list \<Rightarrow> nat \<Rightarrow> go_err option \<Rightarrow> ('k, 'c) sub_pc \<times> increments" where
  "try_stream env ss d msgs i err =
     (if length (streams d) \<le> i
      then (Answered (Inr err), [(StreamName (last (streams d)), ''all_failed'', length msgs)])
      else if length ss \<le> i
      then (Answered (Inl IndexOutOfRange), [(d_id d, ''panic'', length msgs)])
      else (case marshal_items (env_marshal env) msgs of
              Inl p \<Rightarrow> (Answered (Inl p), [(d_id d, ''panic'', length msgs)])
            | Inr its \<Rightarrow> (Trying i (new_worker its (StreamName (streams d ! i))
                (env_limit env (putRunner (ss ! i)))), [])))"

definition begin_submit :: "('k, 'c, 'r) sender_env \<Rightarrow> ('k, 'r) KinesisSender list \<Rightarrow> StreamDispatcher
    \<Rightarrow> msg list \<Rightarrow> ('k, 'c) sub_pc \<times> increments" where
  "begin_submit env ss d msgs =
     (if streams d = []
      then (Answered (Inr (Some (GoErr ''no streams available for submission''))),
            [(d_id d, ''no_streams'', length msgs)])
      else if msgs = [] then (Answered (Inr None), [])
      else try_stream env ss d msgs 0 None)"

text \<open>The end of \<open>submitBatch\<close> at stream \<open>i\<close>, with the result of \<open>OnEvent\<close>.\<close>

definition after_OnEvent :: "('k, 'c, 'r) sender_env \<Rightarrow> ('k, 'r) KinesisSender list \<Rightarrow> StreamDispatcher
    \<Rightarrow> msg list \<Rightarrow> nat \<Rightarrow> go_panic + int \<times> go_err option \<Rightarrow> ('k, 'c) sub_pc \<times> increments" where
  "after_OnEvent env ss d msgs i r =
     (case r of
        Inl p \<Rightarrow> (Answered (Inl p), [(d_id d, ''panic'', length msgs)])
      | Inr (failedRecordCount, Some e) \<Rightarrow>
          (case try_stream env ss d msgs (Suc i) (Some e) of (pt, m) \<Rightarrow>
             (pt, (StreamName (streams d ! i), ''send_error'', 1) # m))
      | Inr (failedRecordCount, None) \<Rightarrow>
          if 0 < failedRecordCount
          then (case try_stream env ss d msgs (Suc i)
                  (Some (GoErr ''some records failed to write to stream'')) of (pt, m) \<Rightarrow>
             (pt, (StreamName (streams d ! i), ''some_records_failed'', 1) # m))
          else (Answered (Inr None), []))"

text \<open>One step of a submission: it changes the sender it is at, and the log.\<close>

definition sub_step :: "('k, 'c, 'r) sender_env \<Rightarrow> StreamDispatcher \<Rightarrow> ('k, 'c) submission
    \<Rightarrow> ('k, 'r) KinesisSender list \<times> ('k, 'c) log
    \<Rightarrow> ('k, 'c) submission \<times> ('k, 'r) KinesisSender list \<times> ('k, 'c) log \<times> increments" where
  "sub_step env d sub sl =
     (case sl of (ss, l) \<Rightarrow>
      (case sub_pc sub of
         Answered r \<Rightarrow> (sub, ss, l, [])
       | Trying i w \<Rightarrow>
           (case w_pc w of
              Returned r \<Rightarrow>
                (case after_OnEvent env ss d (sub_batch sub) i r of (pt, m) \<Rightarrow>
                   (sub\<lparr>sub_pc := pt\<rparr>, ss, l, m))
            | _ \<Rightarrow>
                (case kc (ss ! i) of
                   None \<Rightarrow> (sub\<lparr>sub_pc := Answered (Inl NilDeref)\<rparr>, ss, l,
                            [(d_id d, ''panic'', length (sub_batch sub))])
                 | Some c \<Rightarrow>
                     (case worker_step (env_aws env) (sub_id sub) (w, c, l) of (w', c', l') \<Rightarrow>
                        (sub\<lparr>sub_pc := Trying i w'\<rparr>, ss[i := (ss ! i)\<lparr>kc := Some c'\<rparr>], l', []))))))"

section \<open>The program around it\<close>

text \<open>
  The queue of the dispatcher, whose own world is empty; the submissions of its workers, in the
  order of \<open>running\<close>; the senders, the log of the service and the counters they share; the
  number of submissions begun, which names them; and those that ended, with what \<open>Submit\<close>
  returned.
\<close>

record ('k, 'c, 'r) program =
  p_queue :: "(msg, unit) system"
  p_subs :: "('k, 'c) submission list"
  p_senders :: "('k, 'r) KinesisSender list"
  p_log :: "('k, 'c) log"
  p_metrics :: increments
  p_next :: nat
  p_done :: "(nat \<times> msg list \<times> go_err option) list"

definition returns :: "go_panic + go_err option \<Rightarrow> (msg, unit) submitter" where
  "returns r b w = (r, w)"

fun internal :: "'a event \<Rightarrow> bool" where
  "internal Acquire = True"
| "internal (Worker j) = True"
| "internal _ = False"

text \<open>The goroutine that \<open>submitItems\<close> starts: from the hand-over of a batch to its end.\<close>

inductive wstep :: "('k, 'c, 'r) sender_env \<Rightarrow> StreamDispatcher \<Rightarrow> ('k, 'c, 'r) program
    \<Rightarrow> ('k, 'c, 'r) program \<Rightarrow> bool"
  for env :: "('k, 'c, 'r) sender_env" and d :: StreamDispatcher where
  hand_over: "qstep (returns r) None (p_queue s) Acquire q \<Longrightarrow>
    begin_submit env (p_senders s) d (items (p_queue s)) = (pt, m) \<Longrightarrow>
    wstep env d s
      (s\<lparr>p_queue := q, p_subs := p_subs s @ [\<lparr>sub_id = p_next s, sub_batch = items (p_queue s), sub_pc = pt\<rparr>],
         p_metrics := p_metrics s @ m, p_next := Suc (p_next s)\<rparr>)"
| work: "crashed (p_queue s) = None \<Longrightarrow> j < length (p_subs s) \<Longrightarrow>
    sub_step env d (p_subs s ! j) (p_senders s, p_log s) = (sub, ss, l, m) \<Longrightarrow>
    wstep env d s
      (s\<lparr>p_subs := (p_subs s)[j := sub], p_senders := ss, p_log := l, p_metrics := p_metrics s @ m\<rparr>)"
| worker_returns: "j < length (p_subs s) \<Longrightarrow> sub_pc (p_subs s ! j) = Answered (Inr err) \<Longrightarrow>
    qstep (returns (Inr err)) None (p_queue s) (Worker j) q \<Longrightarrow>
    wstep env d s
      (s\<lparr>p_queue := q, p_subs := remove_nth j (p_subs s),
         p_done := p_done s @ [(sub_id (p_subs s ! j), sub_batch (p_subs s ! j), err)]\<rparr>)"
| worker_panics: "j < length (p_subs s) \<Longrightarrow> sub_pc (p_subs s ! j) = Answered (Inl p) \<Longrightarrow>
    qstep (returns (Inl p)) None (p_queue s) (Worker j) q \<Longrightarrow>
    wstep env d s (s\<lparr>p_queue := q\<rparr>)"

text \<open>The steps of all: of the queue's callers and its loop, and of the workers.\<close>

inductive pstep :: "('k, 'c, 'r) sender_env \<Rightarrow> StreamDispatcher \<Rightarrow> ('k, 'c, 'r) program
    \<Rightarrow> ('k, 'c, 'r) program \<Rightarrow> bool"
  for env :: "('k, 'c, 'r) sender_env" and d :: StreamDispatcher where
  queue_step: "qstep (returns r) None (p_queue s) e q \<Longrightarrow> \<not> internal e \<Longrightarrow>
    pstep env d s (s\<lparr>p_queue := q\<rparr>)"
| workers: "wstep env d s t \<Longrightarrow> pstep env d s t"

definition program_start :: "msg MyQueue \<Rightarrow> ('k, 'r) KinesisSender list \<Rightarrow> ('k, 'c) log
    \<Rightarrow> ('k, 'c, 'r) program" where
  "program_start q ss l = \<lparr>p_queue = boot q (), p_subs = [], p_senders = ss, p_log = l, p_metrics = [],
     p_next = 0, p_done = []\<rparr>"

inductive prun :: "('k, 'c, 'r) sender_env \<Rightarrow> StreamDispatcher \<Rightarrow> ('k, 'c, 'r) program
    \<Rightarrow> ('k, 'c, 'r) program \<Rightarrow> bool"
  for env d s0 where
  prun_start: "prun env d s0 s0"
| prun_step: "prun env d s0 s \<Longrightarrow> pstep env d s t \<Longrightarrow> prun env d s0 t"

section \<open>What is acknowledged to a submission\<close>

text \<open>
  A stretch of the log acknowledges items on a stream to a submission: its own requests in it
  end with all batches of the items, each answered without an error, and the answers count no
  failed records.
\<close>

definition own_acknowledged :: "('k, 'c) aws \<Rightarrow> nat \<Rightarrow> string \<Rightarrow> Item list \<Rightarrow> ('k, 'c) log \<Rightarrow> bool" where
  "own_acknowledged aws n url its log \<longleftrightarrow>
     (\<exists>l0 l l1 past cur. log = l0 @ l @ l1 \<and> own_puts aws n (map snd l0) l = past @ cur
        \<and> map fst cur = map (put_request url) (put_batches its) \<and> clean cur
        \<and> sint (answer_count cur) \<le> 0)"

text \<open>
  If the service counts honestly, none of those records failed: the counts cannot wrap around.
\<close>

definition own_accepted :: "('k, 'c) aws \<Rightarrow> nat \<Rightarrow> string \<Rightarrow> Item list \<Rightarrow> ('k, 'c) log \<Rightarrow> bool" where
  "own_accepted aws n url its log \<longleftrightarrow>
     (\<exists>l0 l l1 past cur. log = l0 @ l @ l1 \<and> own_puts aws n (map snd l0) l = past @ cur
        \<and> map fst cur = map (put_request url) (put_batches its)
        \<and> (\<forall>x \<in> set cur. snd (snd x) = None \<and> count_of (snd x) = 0))"

lemma own_puts_honest:
  assumes "honest_counts aws" "x \<in> set (own_puts aws n h l)"
  shows "0 \<le> sint (count_of (snd x)) \<and> sint (count_of (snd x)) \<le> int (length (Records (fst x)))"
  using assms
  by (induction aws n h l rule: own_puts.induct)
     (auto simp: honest_counts_def split: aws_call.splits if_splits)

lemma answer_count_exact:
  assumes "\<forall>x \<in> set xs. 0 \<le> sint (count_of (snd x)) \<and> sint (count_of (snd x)) \<le> int (length (Records (fst x)))"
    and "(\<Sum>x \<leftarrow> xs. length (Records (fst x))) < 2 ^ 31"
  shows "sint (answer_count xs) = (\<Sum>x \<leftarrow> xs. sint (count_of (snd x)))
     \<and> 0 \<le> (\<Sum>x \<leftarrow> xs. sint (count_of (snd x)))
     \<and> (\<Sum>x \<leftarrow> xs. sint (count_of (snd x))) \<le> int (\<Sum>x \<leftarrow> xs. length (Records (fst x)))"
  using assms
proof (induction xs)
  case Nil
  then show ?case by (simp add: answer_count_def)
next
  case (Cons x xs)
  then have IH: "sint (answer_count xs) = (\<Sum>x \<leftarrow> xs. sint (count_of (snd x)))"
    "0 \<le> (\<Sum>x \<leftarrow> xs. sint (count_of (snd x)))"
    "(\<Sum>x \<leftarrow> xs. sint (count_of (snd x))) \<le> int (\<Sum>x \<leftarrow> xs. length (Records (fst x)))" by auto
  have x: "0 \<le> sint (count_of (snd x))" "sint (count_of (snd x)) \<le> int (length (Records (fst x)))"
    using Cons.prems(1) by auto
  have "sint (count_of (snd x) + answer_count xs) = sint (count_of (snd x)) + sint (answer_count xs)"
    using IH x Cons.prems(2) by (intro sint_add_int32) auto
  with IH x show ?case by (simp add: answer_count_def)
qed

lemma own_acknowledged_accepted:
  assumes "own_acknowledged aws n url its log" "honest_counts aws" "length its < 2 ^ 31"
  shows "own_accepted aws n url its log"
proof -
  from assms(1) obtain l0 l l1 past cur where c: "log = l0 @ l @ l1" "own_puts aws n (map snd l0) l = past @ cur"
    "map fst cur = map (put_request url) (put_batches its)" "clean cur" "sint (answer_count cur) \<le> 0"
    unfolding own_acknowledged_def by blast
  have honest: "\<forall>x \<in> set cur. 0 \<le> sint (count_of (snd x)) \<and> sint (count_of (snd x)) \<le> int (length (Records (fst x)))"
    using own_puts_honest [OF assms(2)] c(2) by (metis Un_iff set_append)
  have "(\<Sum>x \<leftarrow> cur. length (Records (fst x))) = (\<Sum>i \<leftarrow> map fst cur. length (Records i))"
    by (simp add: comp_def)
  also have "\<dots> = length (concat (put_batches its))"
    unfolding c(3) by (simp add: put_request_def comp_def length_concat del: concat_put_batches)
  finally have "(\<Sum>x \<leftarrow> cur. length (Records (fst x))) < 2 ^ 31" using assms(3) by simp
  from answer_count_exact [OF honest this] c(5) have "(\<Sum>x \<leftarrow> cur. sint (count_of (snd x))) = 0" by simp
  then have "\<forall>x \<in> set cur. sint (count_of (snd x)) = 0"
    using honest by (subst (asm) sum_list_nonneg_eq_0_iff) auto
  then have "\<forall>x \<in> set cur. count_of (snd x) = 0" by (metis signed_0 signed_word_eqI)
  with c(4) have "\<forall>x \<in> set cur. snd (snd x) = None \<and> count_of (snd x) = 0"
    by (simp add: clean_def)
  with c(1-3) show ?thesis unfolding own_accepted_def by blast
qed

definition sub_acknowledged :: "('k, 'c, 'r) sender_env \<Rightarrow> StreamDispatcher \<Rightarrow> nat \<Rightarrow> msg list \<Rightarrow> ('k, 'c) log \<Rightarrow> bool" where
  "sub_acknowledged env d n batch log \<longleftrightarrow> batch = []
     \<or> (\<exists>st \<in> set (streams d). \<exists>its. marshal_items (env_marshal env) batch = Inr its
          \<and> own_acknowledged (env_aws env) n (StreamName st) its log)"

lemma sub_acknowledged_append: "sub_acknowledged env d n b l \<Longrightarrow> sub_acknowledged env d n b (l @ l')"
  unfolding sub_acknowledged_def own_acknowledged_def by (metis append.assoc)

text \<open>The invariant of a submission, in the log so far.\<close>

definition sub_inv :: "('k, 'c, 'r) sender_env \<Rightarrow> StreamDispatcher \<Rightarrow> ('k, 'c) log \<Rightarrow> ('k, 'c) submission \<Rightarrow> bool" where
  "sub_inv env d log sub \<longleftrightarrow>
     (case sub_pc sub of
        Answered r \<Rightarrow> r = Inr None \<longrightarrow> sub_acknowledged env d (sub_id sub) (sub_batch sub) log
      | Trying i w \<Rightarrow> i < length (streams d) \<and> w_stream w = StreamName (streams d ! i)
          \<and> marshal_items (env_marshal env) (sub_batch sub) = Inr (w_items w)
          \<and> (\<exists>l0 l limit. log = l0 @ l \<and> worker_inv (env_aws env) (sub_id sub) (map snd l0) limit l w))"

lemma sub_inv_others:
  assumes "sub_inv env d log sub" "\<forall>p \<in> set l'. fst p \<noteq> sub_id sub"
  shows "sub_inv env d (log @ l') sub"
proof (cases "sub_pc sub")
  case (Trying i w)
  with assms(1) obtain l0 l limit where "log = l0 @ l"
    "worker_inv (env_aws env) (sub_id sub) (map snd l0) limit l w"
    and rest: "i < length (streams d)" "w_stream w = StreamName (streams d ! i)"
      "marshal_items (env_marshal env) (sub_batch sub) = Inr (w_items w)"
    unfolding sub_inv_def by auto
  then have "log @ l' = l0 @ (l @ l')" "worker_inv (env_aws env) (sub_id sub) (map snd l0) limit (l @ l') w"
    using worker_inv_others [OF _ assms(2)] by auto
  with Trying rest show ?thesis unfolding sub_inv_def by auto
next
  case (Answered r)
  with assms(1) show ?thesis by (auto simp: sub_inv_def sub_acknowledged_append)
qed

lemma new_worker_fields [simp]:
  "w_items (new_worker its url n) = its" "w_stream (new_worker its url n) = url"
  "w_pc (new_worker its url n) = Batching"
  by (simp_all add: new_worker_def)

lemma try_stream_inv:
  assumes "try_stream env ss d (sub_batch sub) i err = (pt, m)" "i = 0 \<or> err \<noteq> None" "streams d \<noteq> []"
  shows "sub_inv env d log (sub\<lparr>sub_pc := pt\<rparr>)"
proof -
  have "worker_inv (env_aws env) (sub_id sub) (map snd log) limit [] (new_worker its url limit)" for its url limit
    by (rule new_worker_inv [of _ _ _ _ "[]" _ _ "[]"]) (simp_all add: attempt_requests_def)
  then have "\<exists>l0 l limit'. log = l0 @ l
      \<and> worker_inv (env_aws env) (sub_id sub) (map snd l0) limit' l (new_worker its url limit)" for its url limit
    by (intro exI [of _ log] exI [of _ "[]"]) auto
  with assms show ?thesis
    by (auto simp: try_stream_def sub_inv_def split: if_splits sum.splits)
qed

text \<open>A step of a submission.\<close>

lemma sub_step_frame:
  assumes "sub_step env d sub (ss, l) = (sub', ss', l', m)" "list_all sender_ok ss"
    and "\<And>i w. sub_pc sub = Trying i w \<Longrightarrow> i < length ss"
  shows "sub_id sub' = sub_id sub \<and> sub_batch sub' = sub_batch sub \<and> length ss' = length ss
     \<and> list_all sender_ok ss' \<and> (\<exists>ext. l' = l @ ext \<and> (\<forall>p \<in> set ext. fst p = sub_id sub))"
proof (cases "sub_pc sub")
  case (Answered r)
  with assms(1,2) show ?thesis by (simp add: sub_step_def)
next
  case (Trying i w)
  show ?thesis
  proof (cases "\<exists>r. w_pc w = Returned r")
    case True
    with Trying assms(1,2) show ?thesis by (auto simp: sub_step_def split: prod.splits)
  next
    case False
    have i: "i < length ss" using assms(3) Trying by blast
    with assms(2) obtain c where c: "kc (ss ! i) = Some c" "svc c \<noteq> None"
      by (auto simp: list_all_length sender_ok_def split: option.splits)
    obtain w' c' l1 where st: "worker_step (env_aws env) (sub_id sub) (w, c, l) = (w', c', l1)"
      by (metis prod_cases3)
    from worker_step_log [OF st c(2)] obtain ext where ext: "svc c' \<noteq> None" "l1 = l @ ext" "\<forall>p \<in> set ext. fst p = sub_id sub"
      by blast
    have eq: "sub' = sub\<lparr>sub_pc := Trying i w'\<rparr>" "ss' = ss[i := (ss ! i)\<lparr>kc := Some c'\<rparr>]" "l' = l1"
      using assms(1) Trying False c(1) st by (auto simp: sub_step_def split: put_pc.splits)
    have "list_all sender_ok ss'"
      using assms(2) ext(1) i by (auto simp: eq list_all_length nth_list_update sender_ok_def)
    with ext eq show ?thesis by simp
  qed
qed

lemma own_acknowledged_outcome:
  assumes "outcome aws n (map snd l0) limit l w (Inr (v, None))" "v \<le> 0"
  shows "own_acknowledged aws n (w_stream w) (w_items w) (l0 @ l)"
proof -
  from assms obtain past cur where "own_puts aws n (map snd l0) l = past @ cur"
    "map fst cur = map (put_request (w_stream w)) (put_batches (w_items w))" "clean cur"
    "sint (answer_count cur) \<le> 0"
    unfolding outcome_def by auto
  then show ?thesis
    unfolding own_acknowledged_def
    by (intro exI [of _ l0] exI [of _ l] exI [of _ "[]"] exI [of _ past] exI [of _ cur]) simp
qed

lemma sub_step_inv:
  assumes "sub_step env d sub (ss, log) = (sub', ss', l', m)" "list_all sender_ok ss"
    and "sub_inv env d log sub" "length ss = length (streams d)" "fits (sub_batch sub)"
  shows "sub_inv env d l' sub'"
proof (cases "sub_pc sub")
  case (Answered r)
  with assms(1,3) show ?thesis by (auto simp: sub_step_def)
next
  case (Trying i w)
  with assms(3) obtain l0 l limit where i: "i < length (streams d)" "w_stream w = StreamName (streams d ! i)"
    and its: "marshal_items (env_marshal env) (sub_batch sub) = Inr (w_items w)"
    and log: "log = l0 @ l" and inv: "worker_inv (env_aws env) (sub_id sub) (map snd l0) limit l w"
    unfolding sub_inv_def by auto
  have ne: "streams d \<noteq> []" using i(1) by auto
  show ?thesis
  proof (cases "\<exists>r. w_pc w = Returned r")
    case True
    then obtain r where r: "w_pc w = Returned r" by blast
    obtain pt m' where af: "after_OnEvent env ss d (sub_batch sub) i r = (pt, m')" by fastforce
    have eq: "sub' = sub\<lparr>sub_pc := pt\<rparr>" "l' = log" using assms(1) Trying r af by (auto simp: sub_step_def)
    consider "\<exists>x. pt = Answered x \<and> x \<noteq> Inr None"
      | err m1 where "try_stream env ss d (sub_batch sub) (Suc i) (Some err) = (pt, m1)"
      | v where "r = Inr (v, None)" "v \<le> 0" "pt = Answered (Inr None)"
      using af by (auto simp: after_OnEvent_def split: sum.splits option.splits prod.splits if_splits)
    then show ?thesis
    proof cases
      case 1
      with eq show ?thesis by (auto simp: sub_inv_def)
    next
      case 2
      from try_stream_inv [OF 2 _ ne] eq show ?thesis by simp
    next
      case 3
      from inv r 3 have "outcome (env_aws env) (sub_id sub) (map snd l0) limit l w (Inr (v, None))"
        by (simp add: worker_inv_def)
      from own_acknowledged_outcome [OF this 3(2)] i its log
      have "sub_acknowledged env d (sub_id sub) (sub_batch sub) log"
        unfolding sub_acknowledged_def by (metis nth_mem)
      with 3 eq show ?thesis by (simp add: sub_inv_def)
    qed
  next
    case False
    from assms(2,4) i(1) obtain c where c: "kc (ss ! i) = Some c" "svc c \<noteq> None"
      by (auto simp: list_all_length sender_ok_def split: option.splits)
    obtain w' c' l1 where st: "worker_step (env_aws env) (sub_id sub) (w, c, l0 @ l) = (w', c', l1)"
      by (metis prod_cases3)
    from worker_step_log [OF st c(2)] obtain ext where ext: "l1 = l0 @ (l @ ext)"
      "w_items w' = w_items w" "w_stream w' = w_stream w" by auto
    have eq: "sub' = sub\<lparr>sub_pc := Trying i w'\<rparr>" "l' = l1"
      using assms(1) Trying False c(1) st log by (auto simp: sub_step_def split: put_pc.splits)
    have "fits (w_items w)" using marshal_items_length [OF its] assms(5) by (simp add: fits_def)
    from worker_step_inv [OF st [unfolded ext(1)] inv this c(2)] ext eq i its show ?thesis
      by (auto simp: sub_inv_def)
  qed
qed

lemma sub_step_bound:
  assumes "sub_step env d sub (ss, l) = (sub', ss', l', m)" "\<And>i w. sub_pc sub = Trying i w \<Longrightarrow> i < length (streams d)"
    and "sub_pc sub' = Trying i w"
  shows "i < length (streams d)"
  using assms
  by (auto simp: sub_step_def after_OnEvent_def try_stream_def
      split: sub_pc.splits put_pc.splits sum.splits option.splits prod.splits if_splits)

section \<open>The invariant of the program\<close>

text \<open>
  The submissions are those of the running workers, each with a name of its own, at a stream that
  exists, and with its own invariant; those that ended without an error are acknowledged.
\<close>

definition at_stream :: "StreamDispatcher \<Rightarrow> ('k, 'c) submission \<Rightarrow> bool" where
  "at_stream d sub \<longleftrightarrow> (\<forall>i w. sub_pc sub = Trying i w \<longrightarrow> i < length (streams d))"

definition program_inv :: "('k, 'c, 'r) sender_env \<Rightarrow> StreamDispatcher \<Rightarrow> ('k, 'c, 'r) program \<Rightarrow> bool" where
  "program_inv env d s \<longleftrightarrow>
     queue_inv None (p_queue s) \<and> map sub_batch (p_subs s) = running (p_queue s)
     \<and> list_all sender_ok (p_senders s) \<and> length (p_senders s) = length (streams d)
     \<and> (\<forall>sub \<in> set (p_subs s). sub_id sub < p_next s \<and> at_stream d sub
          \<and> (fits (sub_batch sub) \<longrightarrow> sub_inv env d (p_log s) sub))
     \<and> distinct (map sub_id (p_subs s))
     \<and> finished (p_queue s) = map snd (p_done s)
     \<and> (\<forall>n b. (n, b, None) \<in> set (p_done s) \<longrightarrow> fits b \<longrightarrow> sub_acknowledged env d n b (p_log s))"

lemma qstep_internal:
  "qstep (returns r) None q e q' \<Longrightarrow> \<not> internal e \<Longrightarrow> running q' = running q \<and> finished q' = finished q"
  "qstep (returns r) None q Acquire q' \<Longrightarrow> running q' = running q @ [items q] \<and> finished q' = finished q"
  "qstep (returns (Inr err)) None q (Worker j) q' \<Longrightarrow>
     running q' = remove_nth j (running q) \<and> finished q' = finished q @ [(running q ! j, err)]"
  "qstep (returns (Inl p)) None q (Worker j) q' \<Longrightarrow> running q' = running q \<and> finished q' = finished q"
proof -
  show "qstep (returns r) None q e q' \<Longrightarrow> \<not> internal e \<Longrightarrow> running q' = running q \<and> finished q' = finished q"
    by (induction rule: qstep.induct) (auto simp: chan_send_Some Close_Inr queue_ops)
qed (auto simp: returns_def)

lemma map_remove_nth: "map f (remove_nth j xs) = remove_nth j (map f xs)"
  by (simp add: remove_nth_def take_map drop_map)

lemma distinct_remove_nth: "distinct xs \<Longrightarrow> distinct (remove_nth j xs)"
  by (simp add: remove_nth_def set_take_disj_set_drop_if_distinct)

lemma begin_submit_inv:
  assumes "begin_submit env ss d (sub_batch sub) = (pt, m)"
  shows "sub_inv env d log (sub\<lparr>sub_pc := pt\<rparr>) \<and> at_stream d (sub\<lparr>sub_pc := pt\<rparr>)"
proof -
  consider "\<exists>e. pt = Answered (Inr (Some e))" | "pt = Answered (Inr None)" "sub_batch sub = []"
    | "try_stream env ss d (sub_batch sub) 0 None = (pt, m)" "streams d \<noteq> []"
    using assms by (auto simp: begin_submit_def split: if_splits)
  then show ?thesis
  proof cases
    case 3
    from try_stream_inv [OF 3(1) _ 3(2)] 3(1) show ?thesis
      by (auto simp: at_stream_def try_stream_def split: if_splits sum.splits)
  qed (auto simp: sub_inv_def sub_acknowledged_def at_stream_def)
qed

lemma program_inv_work:
  assumes "program_inv env d s" "j < length (p_subs s)"
    and "sub_step env d (p_subs s ! j) (p_senders s, p_log s) = (sub, ss, l, m)"
  shows "program_inv env d
    (s\<lparr>p_subs := (p_subs s)[j := sub], p_senders := ss, p_log := l, p_metrics := p_metrics s @ m\<rparr>)"
proof -
  let ?sub = "p_subs s ! j"
  from assms(1) have ok: "list_all sender_ok (p_senders s)" "length (p_senders s) = length (streams d)"
    and subs: "\<And>x. x \<in> set (p_subs s) \<Longrightarrow> sub_id x < p_next s \<and> at_stream d x
          \<and> (fits (sub_batch x) \<longrightarrow> sub_inv env d (p_log s) x)"
    and dist: "distinct (map sub_id (p_subs s))"
    by (auto simp: program_inv_def)
  have mem: "?sub \<in> set (p_subs s)" using assms(2) by simp
  have bound: "\<And>i w. sub_pc ?sub = Trying i w \<Longrightarrow> i < length (streams d)"
    using subs [OF mem] by (auto simp: at_stream_def)
  from sub_step_frame [OF assms(3) ok(1)] bound ok(2) obtain ext where fr: "sub_id sub = sub_id ?sub"
    "sub_batch sub = sub_batch ?sub" "length ss = length (p_senders s)" "list_all sender_ok ss"
    "l = p_log s @ ext" "\<forall>p \<in> set ext. fst p = sub_id ?sub" by auto
  have own: "at_stream d sub" using sub_step_bound [OF assms(3) bound] by (auto simp: at_stream_def)
  have own_inv: "sub_inv env d l sub" if "fits (sub_batch sub)"
    using sub_step_inv [OF assms(3) ok(1) _ ok(2)] subs [OF mem] that fr(2) by simp
  have each: "sub_id x < p_next s \<and> at_stream d x \<and> (fits (sub_batch x) \<longrightarrow> sub_inv env d l x)"
    if x: "x \<in> set ((p_subs s)[j := sub])" for x
  proof -
    from x assms(2) obtain k where k: "k < length (p_subs s)" "x = (p_subs s)[j := sub] ! k"
      by (auto simp: in_set_conv_nth)
    show ?thesis
    proof (cases "k = j")
      case True
      with k own own_inv subs [OF mem] fr(1) show ?thesis by simp
    next
      case False
      then have x: "x = p_subs s ! k" using k by simp
      have "sub_id x \<noteq> sub_id ?sub"
        using dist False k(1) assms(2) x by (auto simp: distinct_conv_nth)
      with fr(6) have "\<forall>p \<in> set ext. fst p \<noteq> sub_id x" by auto
      with subs [of x] k(1) x fr(5) sub_inv_others show ?thesis by auto
    qed
  qed
  have same: "map sub_id ((p_subs s)[j := sub]) = map sub_id (p_subs s)"
    "map sub_batch ((p_subs s)[j := sub]) = map sub_batch (p_subs s)"
    using fr(1,2) assms(2) by (simp_all add: map_update list_update_same_conv)
  show ?thesis
    using assms(1) each fr same ok(2)
    by (auto simp: program_inv_def intro: sub_acknowledged_append)
qed

lemma program_inv_wstep:
  assumes "wstep env d s t" "program_inv env d s"
  shows "program_inv env d t"
  using assms(1)
proof cases
  case (hand_over r q pt m)
  let ?new = "\<lparr>sub_id = p_next s, sub_batch = items (p_queue s), sub_pc = pt\<rparr>"
  have "sub_inv env d (p_log s) (?new\<lparr>sub_pc := pt\<rparr>) \<and> at_stream d (?new\<lparr>sub_pc := pt\<rparr>)"
    using hand_over(3) by (intro begin_submit_inv) simp
  then have new: "sub_inv env d (p_log s) ?new" "at_stream d ?new" by simp_all
  have "sub_id sub \<noteq> p_next s" if "sub \<in> set (p_subs s)" for sub
    using assms(2) that by (auto simp: program_inv_def)
  with hand_over assms(2) new qstep_internal(2) [OF hand_over(2)] queue_inv_step [OF hand_over(2)] show ?thesis
    by (auto simp: program_inv_def less_Suc_eq)
next
  case (work j sub ss l m)
  with program_inv_work [OF assms(2)] show ?thesis by simp
next
  case (worker_returns j err q)
  have len: "j < length (running (p_queue s))"
    using assms(2) worker_returns(2) by (metis program_inv_def length_map)
  have batch: "sub_batch (p_subs s ! j) = running (p_queue s) ! j"
    using assms(2) worker_returns(2) by (metis program_inv_def nth_map)
  have mem: "p_subs s ! j \<in> set (p_subs s)" using worker_returns(2) by simp
  have ack: "sub_acknowledged env d (sub_id (p_subs s ! j)) (sub_batch (p_subs s ! j)) (p_log s)"
    if "err = None" "fits (sub_batch (p_subs s ! j))"
    using assms(2) mem that worker_returns(3) by (auto simp: program_inv_def sub_inv_def)
  have dist: "distinct (map sub_id (remove_nth j (p_subs s)))"
    using assms(2) by (simp add: program_inv_def map_remove_nth distinct_remove_nth)
  show ?thesis
    using assms(2) worker_returns ack batch dist qstep_internal(3) [OF worker_returns(4)]
      queue_inv_step [OF worker_returns(4)]
    by (auto simp: program_inv_def map_remove_nth dest: set_remove_nth)
next
  case (worker_panics j p q)
  with assms(2) qstep_internal(4) [OF worker_panics(4)] queue_inv_step [OF worker_panics(4)] show ?thesis
    by (simp add: program_inv_def)
qed

lemma program_inv_step:
  assumes "pstep env d s t" "program_inv env d s"
  shows "program_inv env d t"
  using assms(1)
proof cases
  case (queue_step r e q)
  with assms(2) qstep_internal(1) [OF queue_step(2,3)] queue_inv_step [OF queue_step(2)] show ?thesis
    by (simp add: program_inv_def)
next
  case workers
  from program_inv_wstep [OF this assms(2)] show ?thesis .
qed

lemma program_inv_start:
  assumes "NewQueue c t logger sub = (Some q, err)" "list_all sender_ok ss" "length ss = length (streams d)"
  shows "program_inv env d (program_start q ss l)"
  using queue_inv_boot [OF assms(1)] assms(2,3)
  by (simp add: program_inv_def program_start_def boot_def)

lemma program_inv_run: "prun env d s t \<Longrightarrow> program_inv env d s \<Longrightarrow> program_inv env d t"
  by (induction rule: prun.induct) (auto intro: program_inv_step)

section \<open>Delivery\<close>

text \<open>The program that the module builds starts with the invariant.\<close>

lemma built_program_inv:
  assumes "honours_libraries l" and "FilterModule l i h = (Inr (Some fm, None), h')"
    and "(k, f) \<in> set (filters fm)" and "dispatcher f = Some b"
  obtains c where "last_config k (c_Filters (in_FilterManager i)) = Some c"
    and "streams (b_dispatcher b) = Stream_c c # AltStreams c"
    and "length (b_senders b) = length (streams (b_dispatcher b))"
    and "program_inv env (b_dispatcher b) (program_start (b_queue b) (map the (b_senders b)) l0)"
proof -
  from program_filters [OF assms(1-3)] assms(4) obtain c where
    c: "last_config k (c_Filters (in_FilterManager i)) = Some c" and pf: "program_filter l i c f b"
    by (auto simp: program_filter_def)
  have ok: "list_all sender_ok (map the (b_senders b))"
    using pf by (auto simp: program_filter_def list_all_iff wired_def split: option.splits)
  have len: "length (b_senders b) = length (streams (b_dispatcher b))"
    and st: "streams (b_dispatcher b) = Stream_c c # AltStreams c"
    using pf by (simp_all add: program_filter_def)
  note new = pf [unfolded program_filter_def, THEN conjunct2, THEN conjunct2, THEN conjunct2, THEN conjunct2, THEN conjunct2]
  have "program_inv env (b_dispatcher b) (program_start (b_queue b) (map the (b_senders b)) l0)"
    by (rule program_inv_start [OF new ok]) (simp add: len)
  with c st len show ?thesis by (rule that)
qed

text \<open>
  C3. From the configuration to Kinesis, with everything at once. Take the manager that the
  module returns, a filter of it and the dispatcher it got. Run the dispatcher's queue with its
  producers, loop and workers, each worker inside its own submission, from stream to stream
  and attempt to attempt, on clients that they share and refresh under each other: in any
  interleaving of all these steps, a batch that the queue counts as submitted without an
  error belongs to a submission whose own requests end with all the batch's messages that can
  be marshalled, put on one of the streams that the filter's configuration names, each request
  answered without an error and no record counted as failed; and none failed indeed, if the
  service counts honestly. What the queue counts is what the submissions returned.
\<close>

theorem program_delivers_concurrently:
  assumes "honours_libraries l" and "FilterModule l i h = (Inr (Some fm, None), h')"
    and "(k, f) \<in> set (filters fm)" and "dispatcher f = Some b"
    and "prun env (b_dispatcher b) (program_start (b_queue b) (map the (b_senders b)) l0) s"
    and "(batch, None) \<in> set (finished (p_queue s))" and "fits batch"
  shows "finished (p_queue s) = map snd (p_done s) \<and>
    (\<exists>c n. last_config k (c_Filters (in_FilterManager i)) = Some c \<and> (n, batch, None) \<in> set (p_done s) \<and>
     (batch = [] \<or> (\<exists>st \<in> set (Stream_c c # AltStreams c). \<exists>its. marshal_items (env_marshal env) batch = Inr its
          \<and> own_acknowledged (env_aws env) n (StreamName st) its (p_log s)
          \<and> (honest_counts (env_aws env) \<longrightarrow> length batch < 2 ^ 31
               \<longrightarrow> own_accepted (env_aws env) n (StreamName st) its (p_log s)))))"
proof -
  obtain c where c: "last_config k (c_Filters (in_FilterManager i)) = Some c"
    and st: "streams (b_dispatcher b) = Stream_c c # AltStreams c"
    and start: "program_inv env (b_dispatcher b) (program_start (b_queue b) (map the (b_senders b)) l0)"
    by (rule built_program_inv [OF assms(1-4)])
  from program_inv_run [OF assms(5) start] have inv: "finished (p_queue s) = map snd (p_done s)"
    "\<And>n b'. (n, b', None) \<in> set (p_done s) \<Longrightarrow> fits b' \<Longrightarrow> sub_acknowledged env (b_dispatcher b) n b' (p_log s)"
    unfolding program_inv_def by blast+
  from assms(6) inv(1) obtain n where n: "(n, batch, None) \<in> set (p_done s)" by auto
  from inv(2) [OF this assms(7)] have "sub_acknowledged env (b_dispatcher b) n batch (p_log s)" .
  with st consider "batch = []" | st its where "st \<in> set (Stream_c c # AltStreams c)"
      "marshal_items (env_marshal env) batch = Inr its" "own_acknowledged (env_aws env) n (StreamName st) its (p_log s)"
    unfolding sub_acknowledged_def by auto
  then show ?thesis
  proof cases
    case 1
    with c n inv(1) show ?thesis by auto
  next
    case 2
    have "length its < 2 ^ 31" if "length batch < 2 ^ 31"
      using marshal_items_length [OF 2(2)] that by linarith
    with own_acknowledged_accepted [OF 2(3)] 2 c n inv(1) show ?thesis by blast
  qed
qed

section \<open>A run\<close>

text \<open>The steps as a function, to run the system on a list of events.\<close>

datatype pevent = Queue_event "msg event" | Hand_over | Work nat | Worker_ends nat

fun pexec :: "('k, 'c, 'r) sender_env \<Rightarrow> StreamDispatcher \<Rightarrow> pevent \<Rightarrow> ('k, 'c, 'r) program
    \<Rightarrow> ('k, 'c, 'r) program option" where
  "pexec env d (Queue_event e) s =
     (if internal e then None
      else map_option (\<lambda>q. s\<lparr>p_queue := q\<rparr>) (exec_event (returns (Inr None)) None e (p_queue s)))"
| "pexec env d Hand_over s =
     (case exec_event (returns (Inr None)) None Acquire (p_queue s) of None \<Rightarrow> None
      | Some q \<Rightarrow>
         (case begin_submit env (p_senders s) d (items (p_queue s)) of (pt, m) \<Rightarrow>
            Some (s\<lparr>p_queue := q,
              p_subs := p_subs s @ [\<lparr>sub_id = p_next s, sub_batch = items (p_queue s), sub_pc = pt\<rparr>],
              p_metrics := p_metrics s @ m, p_next := Suc (p_next s)\<rparr>)))"
| "pexec env d (Work j) s =
     (if crashed (p_queue s) = None \<and> j < length (p_subs s)
      then (case sub_step env d (p_subs s ! j) (p_senders s, p_log s) of (sub, ss, l, m) \<Rightarrow>
              Some (s\<lparr>p_subs := (p_subs s)[j := sub], p_senders := ss, p_log := l, p_metrics := p_metrics s @ m\<rparr>))
      else None)"
| "pexec env d (Worker_ends j) s =
     (if j < length (p_subs s)
      then (case sub_pc (p_subs s ! j) of
              Answered r \<Rightarrow>
                (case exec_event (returns r) None (Worker j) (p_queue s) of None \<Rightarrow> None
                 | Some q \<Rightarrow>
                    (case r of
                       Inl p \<Rightarrow> Some (s\<lparr>p_queue := q\<rparr>)
                     | Inr err \<Rightarrow> Some (s\<lparr>p_queue := q, p_subs := remove_nth j (p_subs s),
                         p_done := p_done s @ [(sub_id (p_subs s ! j), sub_batch (p_subs s ! j), err)]\<rparr>)))
            | _ \<Rightarrow> None)
      else None)"

lemma pexec_wstep:
  assumes "pexec env d e s = Some t" "\<forall>ev. e \<noteq> Queue_event ev"
  shows "wstep env d s t"
proof (cases e)
  case Hand_over
  with assms show ?thesis
    by (auto split: option.splits prod.splits intro!: hand_over exec_qstep)
next
  case (Work j)
  with assms show ?thesis by (auto split: if_splits prod.splits intro!: work)
next
  case (Worker_ends j)
  with assms obtain r q where r: "j < length (p_subs s)" "sub_pc (p_subs s ! j) = Answered r"
    "exec_event (returns r) None (Worker j) (p_queue s) = Some q"
    by (auto split: if_splits sub_pc.splits option.splits)
  show ?thesis
  proof (cases r)
    case (Inl p)
    with r assms Worker_ends have t: "t = s\<lparr>p_queue := q\<rparr>" by simp
    from Inl r show ?thesis unfolding t by (intro worker_panics exec_qstep) simp_all
  next
    case (Inr err)
    with r assms Worker_ends have t: "t = s\<lparr>p_queue := q, p_subs := remove_nth j (p_subs s),
        p_done := p_done s @ [(sub_id (p_subs s ! j), sub_batch (p_subs s ! j), err)]\<rparr>" by simp
    from Inr r show ?thesis unfolding t by (intro worker_returns exec_qstep) simp_all
  qed
qed (use assms(2) in simp)

lemma pexec_pstep:
  assumes "pexec env d e s = Some t"
  shows "pstep env d s t"
proof (cases "\<exists>ev. e = Queue_event ev")
  case True
  then obtain ev where "e = Queue_event ev" by blast
  with assms obtain q where "\<not> internal ev" "exec_event (returns (Inr None)) None ev (p_queue s) = Some q"
    "t = s\<lparr>p_queue := q\<rparr>" by (auto split: if_splits)
  with queue_step [OF exec_qstep] show ?thesis by metis
next
  case False
  with pexec_wstep [OF assms] show ?thesis by (auto intro: workers)
qed

fun pexec_all :: "('k, 'c, 'r) sender_env \<Rightarrow> StreamDispatcher \<Rightarrow> pevent list \<Rightarrow> ('k, 'c, 'r) program
    \<Rightarrow> ('k, 'c, 'r) program option" where
  "pexec_all env d [] s = Some s"
| "pexec_all env d (e # es) s = (case pexec env d e s of None \<Rightarrow> None | Some t \<Rightarrow> pexec_all env d es t)"

lemma pexec_all_prun: "pexec_all env d es s = Some t \<Longrightarrow> prun env d s0 s \<Longrightarrow> prun env d s0 t"
proof (induction es arbitrary: s)
  case (Cons e es)
  from Cons.prems(1) obtain u where u: "pexec env d e s = Some u" "pexec_all env d es u = Some t"
    by (auto split: option.splits)
  from Cons.IH [OF u(2) prun_step [OF Cons.prems(2) pexec_pstep [OF u(1)]]] show ?case .
qed simp

lemmas concurrent_defs = program_start_def run_defs module_dispatcher_def
  returns_def begin_submit_def try_stream_def module_sender_def sample_env_def sub_step_def
  worker_step_def new_worker_def GetBatch_def slice_from_def go_len_def MaxPutRecordsBatchSize_def
  empty_client_def accepting_aws_def put_answered_def put_returned_def after_OnEvent_def Let_def
  module_fc_def sample_fc_def

definition concurrent_events :: "pevent list" where
  "concurrent_events = map Queue_event [Start_call, Start_add, Add_check (Some sample_message), Add_bind 0, Add_send 0,
     Select_enter, Recv, Process, Select_enter, Tick] @ [Hand_over, Work 0, Work 0,
     Queue_event (Add_check (Some sample_message)), Work 0, Work 0, Queue_event (Add_bind 0), Work 0, Worker_ends 0]"

definition concurrent_end :: "(unit, unit, nat) program" where
  "concurrent_end = (case pexec_all sample_env (b_dispatcher module_dispatcher) concurrent_events
     (program_start (b_queue module_dispatcher) (map the (b_senders module_dispatcher)) []) of Some s \<Rightarrow> s)"

lemma concurrent_run:
  "pexec_all sample_env (b_dispatcher module_dispatcher) concurrent_events
     (program_start (b_queue module_dispatcher) (map the (b_senders module_dispatcher)) []) = Some concurrent_end"
  "finished (p_queue concurrent_end) = [([Some sample_message], None)]"
  by (simp_all add: concurrent_end_def concurrent_events_def concurrent_defs)

theorem program_delivers_concurrently_witness:
  "\<exists>n its. (n, [Some sample_message], None) \<in> set (p_done concurrent_end)
     \<and> marshal_items (env_marshal sample_env) [Some sample_message] = Inr its
     \<and> own_acknowledged (env_aws sample_env) n ''s'' its (p_log concurrent_end)"
proof -
  have mem: "(''s'', module_filter 9)
      \<in> set (filters ((program_fm sample_libs (module_in 9))\<lparr>filters := [(''s'', module_filter 9)]\<rparr>))" by simp
  have d: "dispatcher (module_filter 9) = Some module_dispatcher" by (simp add: module_filter_def)
  note run = pexec_all_prun [OF concurrent_run(1) prun_start]
  have "fits [Some sample_message]" by (simp add: fits_def)
  from program_delivers_concurrently [OF sample_libs_honoured sample_module mem d run _ this]
  show ?thesis
    by (auto simp: concurrent_run(2) module_in_def module_fc_def sample_fc_def)
qed

end
