(* ===== verification/Concurrent_Return.thy ===== *)
theory Concurrent_Return
  imports Concurrent_Delivery
begin

text \<open>
  Every submission of \<open>Concurrent_Delivery\<close> comes to an answer: its own steps use up the streams
  and the attempts that are left to it, and no step of the queue or of another submission
  gives any back.
\<close>

section \<open>What is left to a submission\<close>

text \<open>
  At most this many steps from stream \<open>i\<close> on, for \<open>n\<close> batches: eleven for each batch of
  each attempt, and one for the result.
\<close>

definition steps_from :: "('k, 'c, 'r) sender_env \<Rightarrow> ('k, 'r) KinesisSender list \<Rightarrow> nat \<Rightarrow> nat \<Rightarrow> nat" where
  "steps_from env ss n i = (\<Sum>s \<leftarrow> drop i ss. 11 * n * Suc (env_limit env (putRunner s)) + 1)"

lemma steps_from_step:
  "i < length ss \<Longrightarrow> steps_from env ss n i
     = 11 * n * Suc (env_limit env (putRunner (ss ! i))) + 1 + steps_from env ss n (Suc i)"
  unfolding steps_from_def by (subst Cons_nth_drop_Suc [symmetric]) simp_all

lemma steps_from_runners:
  assumes "map putRunner ss = map putRunner ss'"
  shows "steps_from env ss n i = steps_from env ss' n i"
proof -
  have "drop i (map putRunner ss) = drop i (map putRunner ss')" using assms by simp
  then have "map (\<lambda>r. 11 * n * Suc (env_limit env r) + 1) (map putRunner (drop i ss))
      = map (\<lambda>r. 11 * n * Suc (env_limit env r) + 1) (map putRunner (drop i ss'))" by (simp add: drop_map)
  then show ?thesis unfolding steps_from_def by (simp add: comp_def)
qed

definition steps_left :: "('k, 'c, 'r) sender_env \<Rightarrow> ('k, 'r) KinesisSender list \<Rightarrow> nat \<Rightarrow> ('k, 'c) worker \<Rightarrow> nat" where
  "steps_left env ss i w = worker_rank w + 1 + steps_from env ss (length (put_batches (w_items w))) (Suc i)"

lemma try_stream_steps:
  assumes "try_stream env ss d msgs i err = (Trying i' w, m)"
  shows "i' = i \<and> marshal_items (env_marshal env) msgs = Inr (w_items w)
     \<and> steps_left env ss i' w = steps_from env ss (length (put_batches (w_items w))) i"
proof -
  from assms obtain its where its: "marshal_items (env_marshal env) msgs = Inr its" "i < length ss" "i' = i"
    "w = new_worker its (StreamName (streams d ! i)) (env_limit env (putRunner (ss ! i)))"
    by (auto simp: try_stream_def split: if_splits sum.splits)
  with steps_from_step [OF its(2), of env "length (put_batches its)"] show ?thesis
    by (simp add: steps_left_def worker_rank_new)
qed

lemma begin_submit_steps:
  assumes "begin_submit env ss d msgs = (Trying i w, m)"
  shows "steps_left env ss i w = steps_from env ss (length (put_batches (w_items w))) 0"
proof -
  from assms have "try_stream env ss d msgs 0 None = (Trying i w, m)"
    by (auto simp: begin_submit_def split: if_splits)
  from try_stream_steps [OF this] show ?thesis by blast
qed

lemma sub_step_runners:
  assumes "sub_step env d sub (ss, l) = (sub', ss', l', m)"
  shows "map putRunner ss' = map putRunner ss"
proof -
  have "map putRunner (ss[i := (ss ! i)\<lparr>kc := x\<rparr>]) = map putRunner ss" for i x
    by (cases "i < length ss") (simp_all add: map_update list_update_same_conv list_update_beyond)
  then show ?thesis
    using assms by (auto simp: sub_step_def split: sub_pc.splits put_pc.splits option.splits prod.splits)
qed

text \<open>A step of its own takes at least one away.\<close>

lemma sub_step_steps:
  assumes "sub_step env d sub (ss, log) = (sub', ss', l', m)" "list_all sender_ok ss"
    and "sub_inv env d log sub" "length ss = length (streams d)" "fits (sub_batch sub)"
    and "sub_pc sub' = Trying i' w'"
  shows "\<exists>i w. sub_pc sub = Trying i w \<and> w_items w' = w_items w
     \<and> steps_left env ss i' w' < steps_left env ss i w"
proof (cases "sub_pc sub")
  case (Answered r)
  with assms(1,6) show ?thesis by (simp add: sub_step_def)
next
  case (Trying i w)
  with assms(3) obtain l0 l limit where i: "i < length (streams d)"
    and its: "marshal_items (env_marshal env) (sub_batch sub) = Inr (w_items w)"
    and log: "log = l0 @ l" and inv: "worker_inv (env_aws env) (sub_id sub) (map snd l0) limit l w"
    unfolding sub_inv_def by auto
  show ?thesis
  proof (cases "\<exists>r. w_pc w = Returned r")
    case True
    then obtain r where r: "w_pc w = Returned r" by blast
    obtain pt m' where af: "after_OnEvent env ss d (sub_batch sub) i r = (pt, m')" by fastforce
    have pt: "pt = Trying i' w'" using assms(1,6) Trying r af by (auto simp: sub_step_def)
    from af obtain err m1 where "try_stream env ss d (sub_batch sub) (Suc i) (Some err) = (Trying i' w', m1)"
      by (auto simp: pt after_OnEvent_def split: sum.splits option.splits prod.splits if_splits)
    from try_stream_steps [OF this] its have eq: "w_items w' = w_items w"
      "steps_left env ss i' w' = steps_from env ss (length (put_batches (w_items w))) (Suc i)" by auto
    with Trying show ?thesis by (simp add: steps_left_def [of env ss i w])
  next
    case False
    from assms(2,4) i obtain c where c: "kc (ss ! i) = Some c" "svc c \<noteq> None"
      by (auto simp: list_all_length sender_ok_def split: option.splits)
    obtain w1 c1 l1 where st: "worker_step (env_aws env) (sub_id sub) (w, c, l0 @ l) = (w1, c1, l1)"
      by (metis prod_cases3)
    from worker_step_log [OF st c(2)] have "w_items w1 = w_items w" by auto
    moreover have "i' = i" "w' = w1"
      using assms(1,6) Trying False c(1) st log by (auto simp: sub_step_def split: put_pc.splits)
    moreover have "fits (w_items w)" using marshal_items_length [OF its] assms(5) by (simp add: fits_def)
    then have "worker_rank w1 < worker_rank w" using worker_step_rank [OF st inv _ c(2)] False by blast
    ultimately show ?thesis using Trying by (simp add: steps_left_def)
  qed
qed

section \<open>Counting the steps of one submission\<close>

text \<open>Runs in which at least \<open>k\<close> steps are steps of the submission named \<open>n\<close>.\<close>

inductive counted :: "('k, 'c, 'r) sender_env \<Rightarrow> StreamDispatcher \<Rightarrow> nat \<Rightarrow> ('k, 'c, 'r) program
    \<Rightarrow> nat \<Rightarrow> ('k, 'c, 'r) program \<Rightarrow> bool"
  for env d n s0 where
  count_start: "counted env d n s0 0 s0"
| count_any: "counted env d n s0 k s \<Longrightarrow> pstep env d s t \<Longrightarrow> counted env d n s0 k t"
| count_own: "counted env d n s0 k s \<Longrightarrow> crashed (p_queue s) = None \<Longrightarrow> j < length (p_subs s) \<Longrightarrow>
    sub_id (p_subs s ! j) = n \<Longrightarrow>
    sub_step env d (p_subs s ! j) (p_senders s, p_log s) = (sub, ss, l, m) \<Longrightarrow>
    counted env d n s0 (Suc k)
      (s\<lparr>p_subs := (p_subs s)[j := sub], p_senders := ss, p_log := l, p_metrics := p_metrics s @ m\<rparr>)"

lemma counted_prun: "counted env d n s0 k s \<Longrightarrow> prun env d s0 s"
proof (induction rule: counted.induct)
  case (count_own k s j sub ss l m)
  from prun_step [OF count_own.IH workers [OF work [OF count_own.hyps(2,3,5)]]] show ?case .
qed (auto intro: prun.intros)

definition count_inv :: "('k, 'c, 'r) sender_env \<Rightarrow> ('k, 'r) KinesisSender list \<Rightarrow> nat \<Rightarrow> nat \<Rightarrow> ('k, 'c, 'r) program \<Rightarrow> bool" where
  "count_inv env ss n k s \<longleftrightarrow>
     map putRunner (p_senders s) = map putRunner ss \<and> (p_next s \<le> n \<longrightarrow> k = 0)
     \<and> (\<forall>sub i w. sub \<in> set (p_subs s) \<longrightarrow> sub_id sub = n \<longrightarrow> fits (sub_batch sub) \<longrightarrow> sub_pc sub = Trying i w \<longrightarrow>
          steps_left env ss i w + k \<le> steps_from env ss (length (put_batches (w_items w))) 0)"

lemma steps_left_runners:
  assumes "map putRunner ss = map putRunner ss'"
  shows "steps_left env ss i w = steps_left env ss' i w"
  unfolding steps_left_def steps_from_runners [OF assms] ..

text \<open>A step of a submission, counted if it is the one, keeps the count.\<close>

lemma count_inv_work:
  assumes "count_inv env ss0 n k s" "program_inv env d s" "j < length (p_subs s)"
    and "sub_step env d (p_subs s ! j) (p_senders s, p_log s) = (sub, ss, l, m)"
    and "k' = k \<or> k' = Suc k \<and> sub_id (p_subs s ! j) = n"
  shows "count_inv env ss0 n k'
    (s\<lparr>p_subs := (p_subs s)[j := sub], p_senders := ss, p_log := l, p_metrics := p_metrics s @ m\<rparr>)"
proof -
  let ?sub = "p_subs s ! j"
  from assms(2) have ok: "list_all sender_ok (p_senders s)" "length (p_senders s) = length (streams d)"
    and subs: "\<And>x. x \<in> set (p_subs s) \<Longrightarrow> sub_id x < p_next s \<and> at_stream d x
          \<and> (fits (sub_batch x) \<longrightarrow> sub_inv env d (p_log s) x)"
    and dist: "distinct (map sub_id (p_subs s))"
    by (auto simp: program_inv_def)
  have mem: "?sub \<in> set (p_subs s)" using assms(3) by simp
  have run: "map putRunner (p_senders s) = map putRunner ss0" using assms(1) by (simp add: count_inv_def)
  have bound: "\<And>i w. sub_pc ?sub = Trying i w \<Longrightarrow> i < length (p_senders s)"
    using subs [OF mem] ok(2) by (auto simp: at_stream_def)
  from sub_step_frame [OF assms(4) ok(1) bound] have fr: "sub_id sub = sub_id ?sub" "sub_batch sub = sub_batch ?sub"
    by auto
  have own: "steps_left env ss0 i w + k' \<le> steps_from env ss0 (length (put_batches (w_items w))) 0"
    if "sub_id sub = n" "fits (sub_batch sub)" "sub_pc sub = Trying i w" for i w
  proof -
    from sub_step_steps [OF assms(4) ok(1) _ ok(2) _ that(3)] subs [OF mem] that(2) fr(2)
    obtain i0 w0 where w0: "sub_pc ?sub = Trying i0 w0" "w_items w = w_items w0"
      "steps_left env (p_senders s) i w < steps_left env (p_senders s) i0 w0" by auto
    have "steps_left env ss0 i0 w0 + k \<le> steps_from env ss0 (length (put_batches (w_items w0))) 0"
      using assms(1) mem that fr w0(1) by (auto simp: count_inv_def)
    with w0 assms(5) show ?thesis by (auto simp: steps_left_runners [OF run])
  qed
  have other: "steps_left env ss0 i w + k' \<le> steps_from env ss0 (length (put_batches (w_items w))) 0"
    if x: "x \<in> set ((p_subs s)[j := sub])" "sub_id x = n" "fits (sub_batch x)" "sub_pc x = Trying i w" for x i w
  proof -
    from x(1) assms(3) obtain h where h: "h < length (p_subs s)" "x = (p_subs s)[j := sub] ! h"
      by (auto simp: in_set_conv_nth)
    show ?thesis
    proof (cases "h = j")
      case True
      with h x own show ?thesis by simp
    next
      case False
      then have xh: "x = p_subs s ! h" using h by simp
      have "sub_id x \<noteq> sub_id ?sub"
        using dist False h(1) assms(3) xh by (auto simp: distinct_conv_nth)
      then have "k' = k" using assms(5) x(2) by auto
      moreover have "x \<in> set (p_subs s)" using xh h(1) by simp
      ultimately show ?thesis using assms(1) x unfolding count_inv_def by blast
    qed
  qed
  have "p_next s \<le> n \<Longrightarrow> k' = 0"
    using assms(1,5) subs [OF mem] by (auto simp: count_inv_def)
  with other run sub_step_runners [OF assms(4)] show ?thesis unfolding count_inv_def by simp
qed

lemma count_inv_wstep:
  assumes "wstep env d s t" "count_inv env ss n k s" "program_inv env d s"
  shows "count_inv env ss n k t"
  using assms(1)
proof cases
  case (hand_over r q pt m)
  have "steps_left env ss i w + k \<le> steps_from env ss (length (put_batches (w_items w))) 0"
    if "pt = Trying i w" "p_next s = n" for i w
  proof -
    have run: "map putRunner (p_senders s) = map putRunner ss" using assms(2) by (simp add: count_inv_def)
    from begin_submit_steps [OF hand_over(3) [unfolded that(1)]] assms(2) that(2) show ?thesis
      by (simp add: count_inv_def steps_left_runners [OF run] steps_from_runners [OF run])
  qed
  with hand_over(1) assms(2) show ?thesis by (auto simp: count_inv_def)
next
  case (work j sub ss l m)
  show ?thesis unfolding work(1) by (rule count_inv_work [OF assms(2,3) work(3,4)]) simp
next
  case (worker_returns j err q)
  with assms(2) show ?thesis by (auto simp: count_inv_def dest: set_remove_nth)
next
  case (worker_panics j p q)
  with assms(2) show ?thesis by (simp add: count_inv_def)
qed

lemma count_inv_step:
  assumes "pstep env d s t" "count_inv env ss n k s" "program_inv env d s"
  shows "count_inv env ss n k t"
  using assms(1)
proof cases
  case (queue_step r e q)
  with assms(2) show ?thesis by (simp add: count_inv_def)
next
  case workers
  from count_inv_wstep [OF this assms(2,3)] show ?thesis .
qed

lemma counted_inv:
  assumes "counted env d n s0 k s" "program_inv env d s0" "p_subs s0 = []" "p_senders s0 = ss"
  shows "count_inv env ss n k s"
  using assms
proof (induction rule: counted.induct)
  case count_start
  then show ?case by (simp add: count_inv_def)
next
  case (count_any k s t)
  with program_inv_run [OF counted_prun [OF count_any(1)]] show ?case by (auto intro: count_inv_step)
next
  case (count_own k s j sub ss' l m)
  with program_inv_run [OF counted_prun [OF count_own(1)]] show ?case by (auto intro!: count_inv_work)
qed


lemma put_batches_number: "length (put_batches its) \<le> Suc (length its div 500)"
proof -
  have "length (put_batches its) - 1 < length (put_batches its)" by (cases "put_batches its") simp_all
  with put_batches_index(1) [of "length (put_batches its) - 1" its] show ?thesis
    by (cases "length (put_batches its)") (auto split: if_splits)
qed

lemma steps_from_mono: "n \<le> n' \<Longrightarrow> steps_from env ss n i \<le> steps_from env ss n' i"
  unfolding steps_from_def by (intro sum_list_mono add_mono mult_le_mono) simp_all

section \<open>Every submission is answered\<close>

text \<open>
  C7. No worker of the program hangs. Take a dispatcher of the manager that the module returns,
  and run its queue, loop and workers in any interleaving. A submission
  that has taken as many steps of its own as its streams allow (for each stream eleven for each batch
  of 500 in each of its attempts, and one more) has an answer: \<open>Submit\<close> returns or panics,
  whatever the other workers do to the clients it uses, and however often they are scheduled.
\<close>

theorem submissions_are_answered:
  assumes "honours_libraries l" and "FilterModule l i h = (Inr (Some fm, None), h')"
    and "(k, f) \<in> set (filters fm)" and "dispatcher f = Some b"
    and "counted env (b_dispatcher b) n (program_start (b_queue b) (map the (b_senders b)) l0) steps s"
    and "sub \<in> set (p_subs s)" and "sub_id sub = n" and "fits (sub_batch sub)"
    and "(\<Sum>x \<leftarrow> map the (b_senders b).
           11 * Suc (length (sub_batch sub) div 500) * Suc (env_limit env (putRunner x)) + 1) \<le> steps"
  shows "\<exists>r. sub_pc sub = Answered r"
proof (cases "sub_pc sub")
  case (Trying j w)
  let ?ss = "map the (b_senders b)"
  let ?start = "program_start (b_queue b) ?ss l0"
  obtain c where start: "program_inv env (b_dispatcher b) ?start"
    by (rule built_program_inv [OF assms(1-4)])
  have "program_inv env (b_dispatcher b) s" by (rule program_inv_run [OF counted_prun [OF assms(5)] start])
  then have "sub_inv env (b_dispatcher b) (p_log s) sub" using assms(6,8) by (auto simp: program_inv_def)
  then have "marshal_items (env_marshal env) (sub_batch sub) = Inr (w_items w)"
    using Trying by (simp add: sub_inv_def)
  from marshal_items_length [OF this] have "length (w_items w) \<le> length (sub_batch sub)" .
  then have "length (put_batches (w_items w)) \<le> Suc (length (sub_batch sub) div 500)"
    using put_batches_number [of "w_items w"] div_le_mono [of "length (w_items w)" _ 500] by fastforce
  from steps_from_mono [OF this, of env ?ss 0] assms(9)
  have "steps_from env ?ss (length (put_batches (w_items w))) 0 \<le> steps" by (simp add: steps_from_def)
  moreover have "count_inv env ?ss n steps s"
    by (rule counted_inv [OF assms(5) start]) (simp_all add: program_start_def)
  then have "steps_left env ?ss j w + steps \<le> steps_from env ?ss (length (put_batches (w_items w))) 0"
    using assms(6-8) Trying by (simp add: count_inv_def)
  ultimately show ?thesis by (simp add: steps_left_def)
qed simp

section \<open>A run\<close>

lemma counted_prun_any: "prun env d s0 s \<Longrightarrow> counted env d n s0 0 s"
  by (induction rule: prun.induct) (auto intro: counted.intros)

text \<open>A submission that has its answer can be scheduled again and again; nothing changes.\<close>

lemma counted_answered:
  assumes "counted env d n s0 k s" "crashed (p_queue s) = None" "j < length (p_subs s)"
    "sub_id (p_subs s ! j) = n" "sub_pc (p_subs s ! j) = Answered r"
  shows "counted env d n s0 (k + m) s"
proof (induction m)
  case 0
  with assms(1) show ?case by simp
next
  case (Suc m)
  have "sub_step env d (p_subs s ! j) (p_senders s, p_log s) = (p_subs s ! j, p_senders s, p_log s, [])"
    using assms(5) by (simp add: sub_step_def)
  from count_own [OF Suc assms(2-4) this] show ?case by simp
qed

definition working_events :: "pevent list" where
  "working_events = map Queue_event [Start_call, Start_add, Add_check (Some sample_message), Add_bind 0, Add_send 0,
     Select_enter, Recv, Process, Select_enter, Tick] @ [Hand_over, Work 0, Work 0, Work 0, Work 0, Work 0]"

definition working_end :: "(unit, unit, nat) program" where
  "working_end = (case pexec_all sample_env (b_dispatcher module_dispatcher) working_events
     (program_start (b_queue module_dispatcher) (map the (b_senders module_dispatcher)) []) of Some s \<Rightarrow> s)"

lemma working_run:
  "pexec_all sample_env (b_dispatcher module_dispatcher) working_events
     (program_start (b_queue module_dispatcher) (map the (b_senders module_dispatcher)) []) = Some working_end"
  "crashed (p_queue working_end) = None" "length (p_subs working_end) = 1"
  "sub_id (p_subs working_end ! 0) = 0" "sub_batch (p_subs working_end ! 0) = [Some sample_message]"
  "sub_pc (p_subs working_end ! 0) = Answered (Inr None)"
  by (simp_all add: working_end_def working_events_def concurrent_defs)

theorem submissions_are_answered_witness:
  "\<exists>r. sub_pc (p_subs working_end ! 0) = Answered r"
proof -
  have mem: "(''s'', module_filter 9)
      \<in> set (filters ((program_fm sample_libs (module_in 9))\<lparr>filters := [(''s'', module_filter 9)]\<rparr>))" by simp
  have d: "dispatcher (module_filter 9) = Some module_dispatcher" by (simp add: module_filter_def)
  have len: "0 < length (p_subs working_end)" by (simp add: working_run(3))
  note run = counted_answered [OF counted_prun_any [OF pexec_all_prun [OF working_run(1) prun_start]]
    working_run(2) len working_run(4,6), of 45]
  show ?thesis
    by (rule submissions_are_answered [OF sample_libs_honoured sample_module mem d run, of "p_subs working_end ! 0"])
      (use len in \<open>simp_all add: working_run(4,5) fits_def module_dispatcher_def module_sender_def sample_env_def\<close>)
qed

end
