(* ===== verification/Losses.thy ===== *)
theory Losses
  imports Concurrent_Return
begin

text \<open>
  What the counter \<open>DroppedMessage\<close> says about the batches that were lost: while the
  workers of a dispatcher run (\<open>Concurrent_Delivery\<close>), its increments for the reasons
  \<open>all_failed\<close> and \<open>no_streams\<close> add up to the messages of exactly the submissions that came to an
  error. And what a step of one dispatcher leaves to the others: the log grows only by
  calls of its own submissions.
\<close>

section \<open>Losses and their counter\<close>

definition lost_reason :: "string \<Rightarrow> bool" where
  "lost_reason r \<longleftrightarrow> r = ''all_failed'' \<or> r = ''no_streams''"

definition lost_count :: "increments \<Rightarrow> nat" where
  "lost_count m = (\<Sum>x \<leftarrow> m. if lost_reason (fst (snd x)) then snd (snd x) else 0)"

lemma lost_count_simps [simp]:
  "lost_count [] = 0" "lost_count (m @ m') = lost_count m + lost_count m'"
  "lost_count ((u, r, n) # m) = (if lost_reason r then n else 0) + lost_count m"
  by (simp_all add: lost_count_def)

lemma lost_reasons [simp]:
  "lost_reason ''all_failed''" "lost_reason ''no_streams''" "\<not> lost_reason ''panic''"
  "\<not> lost_reason ''send_error''" "\<not> lost_reason ''some_records_failed''"
  by (simp_all add: lost_reason_def)

definition pc_loss :: "nat \<Rightarrow> ('k, 'c) sub_pc \<Rightarrow> nat" where
  "pc_loss n pt = (case pt of Answered (Inr (Some e)) \<Rightarrow> n | _ \<Rightarrow> 0)"

definition sub_loss :: "('k, 'c) submission \<Rightarrow> nat" where
  "sub_loss sub = pc_loss (length (sub_batch sub)) (sub_pc sub)"

definition done_loss :: "nat \<times> msg list \<times> go_err option \<Rightarrow> nat" where
  "done_loss x = (if snd (snd x) = None then 0 else length (fst (snd x)))"

lemma pc_loss_simps [simp]:
  "pc_loss n (Trying i w) = 0" "pc_loss n (Answered (Inl p)) = 0" "pc_loss n (Answered (Inr None)) = 0"
  "pc_loss n (Answered (Inr (Some e))) = n"
  by (simp_all add: pc_loss_def)

lemma try_stream_loss:
  assumes "try_stream env ss d msgs i err = (pt, m)" "err \<noteq> None \<or> i < length (streams d)"
  shows "lost_count m = pc_loss (length msgs) pt"
  using assms by (auto simp: try_stream_def split: if_splits sum.splits)

lemma begin_submit_loss:
  assumes "begin_submit env ss d msgs = (pt, m)"
  shows "lost_count m = pc_loss (length msgs) pt"
proof (cases "streams d = [] \<or> msgs = []")
  case True
  with assms show ?thesis by (auto simp: begin_submit_def split: if_splits)
next
  case False
  with assms have "try_stream env ss d msgs 0 None = (pt, m)" by (simp add: begin_submit_def)
  from try_stream_loss [OF this] False show ?thesis by simp
qed

lemma after_OnEvent_loss:
  assumes "after_OnEvent env ss d msgs i r = (pt, m)"
  shows "lost_count m = pc_loss (length msgs) pt"
  using assms
  by (auto simp: after_OnEvent_def split: sum.splits option.splits prod.splits if_splits
      dest!: try_stream_loss)

lemma sub_step_loss:
  assumes "sub_step env d sub (ss, l) = (sub', ss', l', m)"
  shows "sub_batch sub' = sub_batch sub \<and> sub_loss sub' = sub_loss sub + lost_count m"
  using assms
  by (auto simp: sub_step_def sub_loss_def split: sub_pc.splits put_pc.splits option.splits prod.splits
      dest!: after_OnEvent_loss)

definition losses_counted :: "('k, 'c, 'r) program \<Rightarrow> bool" where
  "losses_counted s \<longleftrightarrow> lost_count (p_metrics s)
     = (\<Sum>x \<leftarrow> p_done s. done_loss x) + (\<Sum>sub \<leftarrow> p_subs s. sub_loss sub)"

lemma sum_list_replace:
  "j < length xs \<Longrightarrow> (\<Sum>x \<leftarrow> xs[j := y]. f x) + f (xs ! j) = (\<Sum>x \<leftarrow> xs. f x) + (f y :: nat)"
  by (induction xs arbitrary: j) (auto split: nat.splits simp: nth_Cons')

lemma sum_list_remove_nth:
  assumes "j < length xs"
  shows "(\<Sum>x \<leftarrow> xs. f x) = (f (xs ! j) :: nat) + (\<Sum>x \<leftarrow> remove_nth j xs. f x)"
proof -
  from mset_remove_nth [OF assms] have "sum_mset (image_mset f (mset xs))
      = sum_mset (image_mset f (add_mset (xs ! j) (mset (remove_nth j xs))))" by simp
  then show ?thesis by (simp flip: sum_mset_sum_list mset_map)
qed

lemma losses_counted_wstep:
  assumes "wstep env d s t" "losses_counted s"
  shows "losses_counted t"
  using assms(1)
proof cases
  case (hand_over r q pt m)
  with assms(2) begin_submit_loss [OF hand_over(3)] show ?thesis
    by (simp add: losses_counted_def sub_loss_def)
next
  case (work j sub ss l m)
  from sub_step_loss [OF work(4)] have "sub_loss sub = sub_loss (p_subs s ! j) + lost_count m" by blast
  with sum_list_replace [OF work(3), of sub_loss sub] assms(2) show ?thesis
    unfolding work(1) by (simp add: losses_counted_def)
next
  case (worker_returns j err q)
  have "sub_loss (p_subs s ! j) = done_loss (sub_id (p_subs s ! j), sub_batch (p_subs s ! j), err)"
    by (cases err) (simp_all add: sub_loss_def done_loss_def worker_returns(3))
  with sum_list_remove_nth [OF worker_returns(2), of sub_loss] assms(2) show ?thesis
    unfolding worker_returns(1) by (simp add: losses_counted_def)
next
  case (worker_panics j p q)
  with assms(2) show ?thesis by (simp add: losses_counted_def)
qed

section \<open>What one dispatcher leaves to the others\<close>

definition sub_ids :: "('k, 'c, 'r) program \<Rightarrow> nat set" where
  "sub_ids s = sub_id ` set (p_subs s)"

lemma program_inv_others:
  assumes "program_inv env d s" "\<forall>p \<in> set ext. fst p \<notin> sub_ids s" "p_next s \<le> n"
  shows "program_inv env d (s\<lparr>p_log := p_log s @ ext, p_next := n\<rparr>)"
proof -
  have "sub_inv env d (p_log s @ ext) sub" if "sub \<in> set (p_subs s)" "sub_inv env d (p_log s) sub" for sub
    using sub_inv_others [OF that(2)] assms(2) that(1) by (auto simp: sub_ids_def)
  with assms(1,3) show ?thesis
    unfolding program_inv_def by (auto intro: sub_acknowledged_append dest: less_le_trans)
qed

lemma wstep_frame:
  assumes "wstep env d s t" "program_inv env d s"
  shows "\<exists>ext. p_log t = p_log s @ ext \<and> (\<forall>p \<in> set ext. fst p \<in> sub_ids s) \<and> p_next s \<le> p_next t
     \<and> sub_ids t \<subseteq> sub_ids s \<union> {p_next s ..< p_next t}"
  using assms(1)
proof cases
  case (hand_over r q pt m)
  then show ?thesis by (auto simp: sub_ids_def)
next
  case (work j sub ss l m)
  let ?sub = "p_subs s ! j"
  have mem: "?sub \<in> set (p_subs s)" using work(3) by simp
  with assms(2) have ok: "list_all sender_ok (p_senders s)" "at_stream d ?sub"
      "length (p_senders s) = length (streams d)" by (auto simp: program_inv_def)
  have bound: "\<And>i w. sub_pc ?sub = Trying i w \<Longrightarrow> i < length (p_senders s)"
    using ok(2,3) by (simp add: at_stream_def)
  from sub_step_frame [OF work(4) ok(1)] bound obtain ext where fr: "sub_id sub = sub_id ?sub"
    "l = p_log s @ ext" "\<forall>p \<in> set ext. fst p = sub_id ?sub" by auto
  have "sub_id ` set ((p_subs s)[j := sub]) \<subseteq> sub_id ` set (p_subs s)"
    using set_update_subset_insert [of "p_subs s" j sub] fr(1) mem by auto
  with fr(2,3) mem show ?thesis unfolding work(1) by (auto simp: sub_ids_def)
next
  case (worker_returns j err q)
  then show ?thesis by (auto simp: sub_ids_def dest: set_remove_nth)
next
  case (worker_panics j p q)
  then show ?thesis by (auto simp: sub_ids_def)
qed

end
