(* ===== verification/Service.thy ===== *)
theory Service
  imports Losses Event_Properties
begin

text \<open>
  The running service: the requests at the front, each on its way through the filters of
  the manager, and behind every filter a dispatcher with its queue, loop and workers, all at
  the same time. \<open>Manager\<close> takes a call of \<open>Queue\<close> as one step, and \<open>Concurrent_Delivery\<close> has one
  dispatcher with callers of any kind; here the calls come from requests, and the dispatchers share
  the service that they write to, its clock and its log.

  Nothing in the program shuts the manager down, changes a batch size or cancels the context
  of a loop, so no step does.
\<close>

section \<open>State\<close>

text \<open>
  A request that \<open>ServeHTTP\<close> has taken: its fixed message, the filters that the loop of
  \<open>Queue\<close> has still to visit, and the filter at whose dispatcher it is inside \<open>AddItem\<close>.
\<close>

record event_run =
  r_msg :: wrp_message
  r_todo :: "nat list"
  r_adding :: "nat option"

text \<open>
  The dispatchers, by the index of their filter. They name their submissions from one counter
  and share one log; \<open>answered\<close> are the messages of the requests that got their 202, and
  \<open>refused\<close> the messages that \<open>AddItem\<close> dropped, with the filter.
\<close>

record ('k, 'c, 'r) service =
  programs :: "('k, 'c, 'r) program list"
  s_log :: "('k, 'c) log"
  s_next :: nat
  requests :: "event_run list"
  answered :: "wrp_message list"
  refused :: "(nat \<times> wrp_message) list"

type_synonym ('re, 'k, 'r) program_filters = "('re, ('k, 'r) program_dispatcher) BaseFilter list"

definition dispatcher_of :: "('re, ('k, 'r) program_dispatcher) BaseFilter \<Rightarrow> StreamDispatcher" where
  "dispatcher_of f = b_dispatcher (the (dispatcher f))"

definition queue_at :: "('k, 'c, 'r) service \<Rightarrow> nat \<Rightarrow> (msg, unit) system" where
  "queue_at s i = p_queue (programs s ! i)"

definition set_queue :: "nat \<Rightarrow> (msg, unit) system \<Rightarrow> ('k, 'c, 'r) service \<Rightarrow> ('k, 'c, 'r) service" where
  "set_queue i q s = s\<lparr>programs := (programs s)[i := (programs s ! i)\<lparr>p_queue := q\<rparr>]\<rparr>"

text \<open>The program of one dispatcher, with the log and the counter that all share, and back.\<close>

definition program_at :: "('k, 'c, 'r) service \<Rightarrow> nat \<Rightarrow> ('k, 'c, 'r) program" where
  "program_at s i = (programs s ! i)\<lparr>p_log := s_log s, p_next := s_next s\<rparr>"

definition put_program :: "nat \<Rightarrow> ('k, 'c, 'r) program \<Rightarrow> ('k, 'c, 'r) service \<Rightarrow> ('k, 'c, 'r) service" where
  "put_program i p s = s\<lparr>programs := (programs s)[i := p], s_log := p_log p, s_next := p_next p\<rparr>"

text \<open>A panic of a worker ends the whole process.\<close>

definition alive :: "('k, 'c, 'r) service \<Rightarrow> bool" where
  "alive s \<longleftrightarrow> list_all (\<lambda>p. crashed (p_queue p) = None) (programs s)"

record http_front =
  hf_decode :: decoder
  hf_utf8 :: "wrp_message \<Rightarrow> go_err option"
  hf_mime :: string

section \<open>Steps\<close>

text \<open>
  The steps of the loop of a queue, and the read of \<open>q.items\<close> in a call of \<open>AddItem\<close>.
\<close>

fun loop_event :: "'a event \<Rightarrow> bool" where
  "loop_event (Add_bind j) = True"
| "loop_event Start_call = True"
| "loop_event Start_add = True"
| "loop_event Select_enter = True"
| "loop_event Recv = True"
| "loop_event Tick = True"
| "loop_event Ctx_done = True"
| "loop_event Process = True"
| "loop_event Acquire_fail = True"
| "loop_event _ = False"

text \<open>
  A request arrives with an event, and \<open>Queue\<close> ranges over the map of filters in any order
  (\<open>arrive\<close>); a filter that does not match lets it pass (\<open>pass_by\<close>); at one that does,
  \<open>AddItem\<close> is called, which goes on after the length check (\<open>add_begins\<close>) or drops the message
  (\<open>add_drops\<close>), and returns when the send is done (\<open>add_ends\<close>); after the last filter
  the request is answered (\<open>replies\<close>). Beside them run the loops (\<open>loop_runs\<close>) and the
  workers (\<open>works\<close>).
\<close>

inductive service_step :: "('k, 'c, 'r) sender_env \<Rightarrow> http_front \<Rightarrow> ('re \<Rightarrow> string \<Rightarrow> bool)
    \<Rightarrow> ('re, 'k, 'r) program_filters \<Rightarrow> ('k, 'c, 'r) service \<Rightarrow> ('k, 'c, 'r) service \<Rightarrow> bool"
  for env :: "('k, 'c, 'r) sender_env" and front matches fs where
  arrive: "alive s \<Longrightarrow> event_of (hf_decode front) (hf_utf8 front) rq = Some m \<Longrightarrow>
    mset js = mset [0..<length fs] \<Longrightarrow>
    service_step env front matches fs s
      (s\<lparr>requests := requests s @ [\<lparr>r_msg = fixWrp (hf_mime front) uuid m, r_todo = js, r_adding = None\<rparr>]\<rparr>)"
| pass_by: "alive s \<Longrightarrow> j < length (requests s) \<Longrightarrow>
    requests s ! j = \<lparr>r_msg = m, r_todo = i # js, r_adding = None\<rparr> \<Longrightarrow> \<not> admits matches (fs ! i) m \<Longrightarrow>
    service_step env front matches fs s
      (s\<lparr>requests := (requests s)[j := \<lparr>r_msg = m, r_todo = js, r_adding = None\<rparr>]\<rparr>)"
| add_begins: "alive s \<Longrightarrow> j < length (requests s) \<Longrightarrow>
    requests s ! j = \<lparr>r_msg = m, r_todo = i # js, r_adding = None\<rparr> \<Longrightarrow> admits matches (fs ! i) m \<Longrightarrow>
    has_room (queue_at s i) \<Longrightarrow> qstep (returns r) None (queue_at s i) (Add_check (Some m)) q \<Longrightarrow>
    service_step env front matches fs s
      ((set_queue i q s)\<lparr>requests := (requests s)[j := \<lparr>r_msg = m, r_todo = js, r_adding = Some i\<rparr>]\<rparr>)"
| add_drops: "alive s \<Longrightarrow> j < length (requests s) \<Longrightarrow>
    requests s ! j = \<lparr>r_msg = m, r_todo = i # js, r_adding = None\<rparr> \<Longrightarrow> admits matches (fs ! i) m \<Longrightarrow>
    \<not> has_room (queue_at s i) \<Longrightarrow> qstep (returns r) None (queue_at s i) (Add_check (Some m)) q \<Longrightarrow>
    service_step env front matches fs s
      ((set_queue i q s)\<lparr>requests := (requests s)[j := \<lparr>r_msg = m, r_todo = js, r_adding = None\<rparr>],
         refused := refused s @ [(i, m)]\<rparr>)"
| add_ends: "alive s \<Longrightarrow> j < length (requests s) \<Longrightarrow>
    requests s ! j = \<lparr>r_msg = m, r_todo = js, r_adding = Some i\<rparr> \<Longrightarrow>
    k < length (producers (queue_at s i)) \<Longrightarrow> producers (queue_at s i) ! k = SendingTo c (Some m) \<Longrightarrow>
    qstep (returns r) None (queue_at s i) (Add_send k) q \<Longrightarrow>
    service_step env front matches fs s
      ((set_queue i q s)\<lparr>requests := (requests s)[j := \<lparr>r_msg = m, r_todo = js, r_adding = None\<rparr>]\<rparr>)"
| replies: "alive s \<Longrightarrow> j < length (requests s) \<Longrightarrow>
    requests s ! j = \<lparr>r_msg = m, r_todo = [], r_adding = None\<rparr> \<Longrightarrow>
    service_step env front matches fs s
      (s\<lparr>requests := remove_nth j (requests s), answered := answered s @ [m]\<rparr>)"
| loop_runs: "alive s \<Longrightarrow> i < length (programs s) \<Longrightarrow> loop_event e \<Longrightarrow>
    qstep (returns r) None (queue_at s i) e q \<Longrightarrow>
    service_step env front matches fs s (set_queue i q s)"
| works: "alive s \<Longrightarrow> i < length (programs s) \<Longrightarrow> wstep env (dispatcher_of (fs ! i)) (program_at s i) p \<Longrightarrow>
    service_step env front matches fs s (put_program i p s)"

inductive service_run :: "('k, 'c, 'r) sender_env \<Rightarrow> http_front \<Rightarrow> ('re \<Rightarrow> string \<Rightarrow> bool)
    \<Rightarrow> ('re, 'k, 'r) program_filters \<Rightarrow> ('k, 'c, 'r) service \<Rightarrow> ('k, 'c, 'r) service \<Rightarrow> bool"
  for env front matches fs s0 where
  service_begins: "service_run env front matches fs s0 s0"
| service_goes_on: "service_run env front matches fs s0 s \<Longrightarrow> service_step env front matches fs s t
    \<Longrightarrow> service_run env front matches fs s0 t"

text \<open>The service when it starts, with what the filters were given.\<close>

definition service_start :: "('re, 'k, 'r) program_filters \<Rightarrow> ('k, 'c) log \<Rightarrow> ('k, 'c, 'r) service" where
  "service_start fs l0 =
     \<lparr>programs = map (\<lambda>f. program_start (b_queue (the (dispatcher f)))
          (map the (b_senders (the (dispatcher f)))) l0) fs,
      s_log = l0, s_next = 0, requests = [], answered = [], refused = []\<rparr>"

section \<open>The queues\<close>

definition adding :: "('a, 'w) system \<Rightarrow> 'a list" where
  "adding q = map producer_item (producers q)"

definition open_queue :: "('a, 'w) system \<Rightarrow> bool" where
  "open_queue q \<longleftrightarrow> length (heap q) = 1 \<and> items_ref q = 0 \<and> \<not> cclosed (heap q ! 0) \<and> \<not> cancelled q"

lemma loop_keeps:
  assumes "qstep (returns r) None q e q'" "loop_event e"
  shows "accepted q' = accepted q \<and> m_dropped q' = m_dropped q \<and> adding q' = adding q
     \<and> (open_queue q \<longrightarrow> open_queue q')"
  using assms
proof (induction rule: qstep.induct)
  case (recv s i v c)
  then have "cclosed c = cclosed (heap s ! i)" by (auto simp: chan_recv_def split: list.splits)
  then show ?case by (cases i) (auto simp: adding_def open_queue_def nth_list_update)
qed (auto simp: adding_def open_queue_def map_update list_update_same_conv)

lemma wstep_keeps:
  assumes "wstep env d s t"
  shows "accepted (p_queue t) = accepted (p_queue s) \<and> m_dropped (p_queue t) = m_dropped (p_queue s)
     \<and> adding (p_queue t) = adding (p_queue s) \<and> (open_queue (p_queue s) \<longrightarrow> open_queue (p_queue t))"
  using assms by cases (auto simp: adding_def open_queue_def)

lemma check_keeps:
  assumes "qstep (returns r) None q (Add_check x) q'"
  shows "accepted q' = accepted q \<and> (open_queue q \<longrightarrow> open_queue q')
     \<and> (if has_room q then adding q' = adding q @ [x] \<and> m_dropped q' = m_dropped q
        else adding q' = adding q \<and> m_dropped q' = Suc (m_dropped q))"
  using assms by (auto simp: adding_def open_queue_def queue_ops)

lemma send_keeps:
  assumes "qstep (returns r) None q (Add_send k) q'" "open_queue q" "queue_inv None q"
    and "k < length (producers q)" "producers q ! k = SendingTo c x"
  shows "accepted q' = accepted q @ [(c, x)] \<and> m_dropped q' = m_dropped q \<and> open_queue q'
     \<and> mset (adding q) = add_mset x (mset (adding q'))"
proof -
  have "SendingTo c x \<in> set (producers q)" using assms(4,5) by (metis nth_mem)
  then have c: "c = 0" using assms(2,3) by (auto simp: open_queue_def queue_inv_def inv_channels_def)
  from assms(1) show ?thesis
  proof cases
    case (add_send i y s')
    with c assms(2,4,5) mset_remove_nth [OF assms(4)] show ?thesis
      by (auto simp: chan_send_Some adding_def open_queue_def)
  next
    case (add_panic i y p)
    with c assms(2,5) show ?thesis by (auto simp: chan_send_def open_queue_def Let_def split: if_splits)
  qed
qed

section \<open>The structure of the service\<close>

text \<open>
  Every dispatcher keeps its own invariant, in the common log, and counts its losses; its queue
  is never closed; no two dispatchers have a submission of the same name.
\<close>

definition service_inv :: "('k, 'c, 'r) sender_env \<Rightarrow> ('re, 'k, 'r) program_filters \<Rightarrow> ('k, 'c, 'r) service \<Rightarrow> bool" where
  "service_inv env fs s \<longleftrightarrow> length (programs s) = length fs
     \<and> (\<forall>i < length fs. program_inv env (dispatcher_of (fs ! i)) (program_at s i)
          \<and> losses_counted (programs s ! i) \<and> open_queue (queue_at s i))
     \<and> (\<forall>i < length fs. \<forall>k < length fs. i \<noteq> k \<longrightarrow> sub_ids (programs s ! i) \<inter> sub_ids (programs s ! k) = {})"

lemma sub_ids_simps [simp]: "sub_ids (p\<lparr>p_queue := q\<rparr>) = sub_ids p"
  "sub_ids (p\<lparr>p_log := l, p_next := n\<rparr>) = sub_ids p"
  by (simp_all add: sub_ids_def)

lemma losses_counted_simps [simp]: "losses_counted (p\<lparr>p_queue := q\<rparr>) = losses_counted p"
  "losses_counted (p\<lparr>p_log := l, p_next := n\<rparr>) = losses_counted p"
  by (simp_all add: losses_counted_def)

lemma set_queue_inv:
  assumes "service_inv env fs s" "qstep (returns r) None (queue_at s i) e q" "\<not> internal e" "i < length fs"
    and "open_queue q"
  shows "service_inv env fs (set_queue i q s)"
proof -
  from assms(1) have len: "length (programs s) = length fs"
    and inv: "program_inv env (dispatcher_of (fs ! i)) (program_at s i)"
    using assms(4) by (auto simp: service_inv_def)
  have "program_inv env (dispatcher_of (fs ! i)) ((program_at s i)\<lparr>p_queue := q\<rparr>)"
    by (rule program_inv_step [OF queue_step inv]) (use assms(2,3) in \<open>simp_all add: program_at_def queue_at_def\<close>)
  moreover have "program_at (set_queue i q s) i = (program_at s i)\<lparr>p_queue := q\<rparr>"
    using assms(4) len by (cases "programs s ! i") (simp add: program_at_def set_queue_def)
  moreover have other: "program_at (set_queue i q s) k = program_at s k" if "k \<noteq> i" for k
    using that by (simp add: program_at_def set_queue_def)
  ultimately have "program_inv env (dispatcher_of (fs ! k)) (program_at (set_queue i q s) k)" if "k < length fs" for k
    using assms(1) that other [of k] by (cases "k = i") (auto simp: service_inv_def)
  moreover have "programs (set_queue i q s) ! k = (if k = i then (programs s ! i)\<lparr>p_queue := q\<rparr> else programs s ! k)"
    if "k < length fs" for k
    using that len by (simp add: set_queue_def)
  ultimately show ?thesis
    using assms(1,5) len by (auto simp: service_inv_def queue_at_def) (simp add: set_queue_def)
qed

lemma put_program_inv:
  assumes "service_inv env fs s" "wstep env (dispatcher_of (fs ! i)) (program_at s i) p" "i < length fs"
  shows "service_inv env fs (put_program i p s)"
proof -
  let ?d = "dispatcher_of (fs ! i)" and ?p = "program_at s i"
  from assms(1) have len: "length (programs s) = length fs" and inv: "program_inv env ?d ?p"
    and loss: "losses_counted ?p" and op: "open_queue (p_queue ?p)"
    using assms(3) by (auto simp: service_inv_def program_at_def queue_at_def)
  have at: "programs (put_program i p s) ! k = (if k = i then p else programs s ! k)" if "k < length fs" for k
    using that len by (simp add: put_program_def)
  from wstep_frame [OF assms(2) inv] obtain ext where fr: "p_log p = s_log s @ ext"
    "\<forall>x \<in> set ext. fst x \<in> sub_ids (programs s ! i)" "s_next s \<le> p_next p"
    "sub_ids p \<subseteq> sub_ids (programs s ! i) \<union> {s_next s ..< p_next p}"
    by (auto simp: program_at_def)
  have apart: "sub_ids (programs s ! i) \<inter> sub_ids (programs s ! k) = {}" if "k < length fs" "k \<noteq> i" for k
    using assms(1,3) that unfolding service_inv_def by blast
  have named: "n < s_next s" if "n \<in> sub_ids (programs s ! k)" "k < length fs" for n k
    using assms(1) that by (auto simp: service_inv_def program_inv_def program_at_def sub_ids_def)
  have own: "program_at (put_program i p s) i = p"
    using at [OF assms(3)] by (simp add: program_at_def) (simp add: put_program_def)
  have others: "program_inv env (dispatcher_of (fs ! k)) (program_at (put_program i p s) k)"
    if k: "k < length fs" "k \<noteq> i" for k
  proof -
    have "program_inv env (dispatcher_of (fs ! k))
        ((program_at s k)\<lparr>p_log := p_log (program_at s k) @ ext, p_next := p_next p\<rparr>)"
    proof (rule program_inv_others)
      show "program_inv env (dispatcher_of (fs ! k)) (program_at s k)"
        using assms(1) k(1) by (simp add: service_inv_def)
      show "\<forall>x \<in> set ext. fst x \<notin> sub_ids (program_at s k)"
        using fr(2) apart [OF k] by (auto simp: program_at_def)
    qed (simp add: program_at_def fr(3))
    then show ?thesis using at [OF k(1)] k(2) by (simp add: program_at_def put_program_def fr(1))
  qed
  have new: "sub_ids p \<inter> sub_ids (programs s ! k) = {}" if k: "k < length fs" "k \<noteq> i" for k
    using fr(4) apart [OF k] named [OF _ k(1)] by fastforce
  have "program_inv env (dispatcher_of (fs ! k)) (program_at (put_program i p s) k)
      \<and> losses_counted (programs (put_program i p s) ! k) \<and> open_queue (queue_at (put_program i p s) k)"
    if k: "k < length fs" for k
  proof (cases "k = i")
    case True
    with program_inv_wstep [OF assms(2) inv] losses_counted_wstep [OF assms(2) loss]
      wstep_keeps [OF assms(2)] op own at [OF k] show ?thesis by (simp add: queue_at_def)
  next
    case False
    with others [OF k False] assms(1) k at [OF k] show ?thesis by (simp add: service_inv_def queue_at_def)
  qed
  moreover have "length (programs (put_program i p s)) = length fs" using len by (simp add: put_program_def)
  moreover have "sub_ids (programs (put_program i p s) ! h) \<inter> sub_ids (programs (put_program i p s) ! k) = {}"
    if "h < length fs" "k < length fs" "h \<noteq> k" for h k
    using that new at [OF that(1)] at [OF that(2)] assms(1) unfolding service_inv_def by (metis inf_commute)
  ultimately show ?thesis unfolding service_inv_def by blast
qed

end
