(* ===== verification/Service_Accounts.thy ===== *)
theory Service_Accounts
  imports Service
begin

text \<open>
  The accounts of the running service: for every filter, the events whose requests have
  passed it are those that its queue has accepted, those in the middle of \<open>AddItem\<close>, and those
  that were refused because the queue was full, which are counted.
\<close>

section \<open>The accounts of one filter\<close>

definition passed :: "('re \<Rightarrow> string \<Rightarrow> bool) \<Rightarrow> ('re, 'd) BaseFilter \<Rightarrow> nat \<Rightarrow> ('k, 'c, 'r) service
    \<Rightarrow> wrp_message multiset" where
  "passed matches f i s = {#m \<in># mset (answered s). admits matches f m#}
     + image_mset r_msg {#r \<in># mset (requests s). admits matches f (r_msg r) \<and> i \<notin> set (r_todo r)#}"

definition refused_at :: "nat \<Rightarrow> ('k, 'c, 'r) service \<Rightarrow> wrp_message multiset" where
  "refused_at i s = image_mset snd {#x \<in># mset (refused s). fst x = i#}"

definition account :: "('re \<Rightarrow> string \<Rightarrow> bool) \<Rightarrow> ('re, 'k, 'r) program_filters \<Rightarrow> nat \<Rightarrow> ('k, 'c, 'r) service
    \<Rightarrow> bool" where
  "account matches fs i s \<longleftrightarrow>
     image_mset Some (passed matches (fs ! i) i s)
       = image_mset snd (mset (accepted (queue_at s i))) + mset (adding (queue_at s i))
         + image_mset Some (refused_at i s)
     \<and> size (refused_at i s) = m_dropped (queue_at s i)
     \<and> mset (adding (queue_at s i)) = image_mset (Some \<circ> r_msg) {#r \<in># mset (requests s). r_adding r = Some i#}"

definition request_ok :: "('re \<Rightarrow> string \<Rightarrow> bool) \<Rightarrow> ('re, 'k, 'r) program_filters \<Rightarrow> event_run \<Rightarrow> bool" where
  "request_ok matches fs r \<longleftrightarrow> distinct (r_todo r) \<and> set (r_todo r) \<subseteq> {..<length fs}
     \<and> (\<forall>i. r_adding r = Some i \<longrightarrow> i < length fs \<and> i \<notin> set (r_todo r) \<and> admits matches (fs ! i) (r_msg r))"

definition accounts_inv :: "('k, 'c, 'r) sender_env \<Rightarrow> ('re \<Rightarrow> string \<Rightarrow> bool)
    \<Rightarrow> ('re, 'k, 'r) program_filters \<Rightarrow> ('k, 'c, 'r) service \<Rightarrow> bool" where
  "accounts_inv env matches fs s \<longleftrightarrow> service_inv env fs s
     \<and> (\<forall>r \<in> set (requests s). request_ok matches fs r) \<and> (\<forall>i < length fs. account matches fs i s)"

lemma replace_request:
  assumes "j < length xs"
  obtains X where "mset xs = add_mset (xs ! j) X" "\<And>y. mset (xs[j := y]) = add_mset y X"
    "mset (remove_nth j xs) = X"
proof (rule that)
  show "mset xs = add_mset (xs ! j) (mset (remove_nth j xs))" by (rule mset_remove_nth [OF assms])
  show "mset (xs[j := y]) = add_mset y (mset (remove_nth j xs))" for y
    using mset_remove_nth [of j "xs[j := y]"] assms by (simp add: remove_nth_def)
qed simp

lemma request_ok_todo:
  assumes "request_ok matches fs \<lparr>r_msg = m, r_todo = i # js, r_adding = None\<rparr>"
  shows "i < length fs" "i \<notin> set js" "request_ok matches fs \<lparr>r_msg = m, r_todo = js, r_adding = None\<rparr>"
    "admits matches (fs ! i) m \<Longrightarrow> request_ok matches fs \<lparr>r_msg = m, r_todo = js, r_adding = Some i\<rparr>"
  using assms by (auto simp: request_ok_def)

lemma requests_ok_update:
  "\<forall>r \<in> set xs. P r \<Longrightarrow> P y \<Longrightarrow> \<forall>r \<in> set (xs[j := y]). P r"
  using set_update_subset_insert [of xs j y] by blast

lemma queue_at_set_queue: "length (programs s) = n \<Longrightarrow> i < n \<Longrightarrow>
    queue_at (set_queue i q s) k = (if k = i then q else queue_at s k)"
  by (simp add: queue_at_def set_queue_def)

lemma queue_at_put_program: "length (programs s) = n \<Longrightarrow> i < n \<Longrightarrow>
    queue_at (put_program i p s) k = (if k = i then p_queue p else queue_at s k)"
  by (simp add: queue_at_def put_program_def)

lemma service_rest [simp]:
  "requests (set_queue i q s) = requests s" "answered (set_queue i q s) = answered s"
  "refused (set_queue i q s) = refused s" "requests (put_program i p s) = requests s"
  "answered (put_program i p s) = answered s" "refused (put_program i p s) = refused s"
  by (simp_all add: set_queue_def put_program_def)

lemma service_inv_requests [simp]:
  "service_inv env fs (s\<lparr>requests := rs\<rparr>) = service_inv env fs s"
  "service_inv env fs (s\<lparr>requests := rs, answered := ms\<rparr>) = service_inv env fs s"
  "service_inv env fs (s\<lparr>requests := rs, refused := xs\<rparr>) = service_inv env fs s"
  by (simp_all add: service_inv_def program_at_def queue_at_def)

lemma queue_at_requests [simp]:
  "queue_at (s\<lparr>requests := rs\<rparr>) i = queue_at s i"
  "queue_at (s\<lparr>requests := rs, answered := ms\<rparr>) i = queue_at s i"
  "queue_at (s\<lparr>requests := rs, refused := xs\<rparr>) i = queue_at s i"
  by (simp_all add: queue_at_def)

text \<open>A queue that keeps what the accounts read.\<close>

lemma accounts_same_queue:
  assumes "accounts_inv env matches fs s" "service_inv env fs t"
    and "requests t = requests s" "answered t = answered s" "refused t = refused s"
    and "\<And>k. k < length fs \<Longrightarrow> accepted (queue_at t k) = accepted (queue_at s k)
        \<and> m_dropped (queue_at t k) = m_dropped (queue_at s k) \<and> adding (queue_at t k) = adding (queue_at s k)"
  shows "accounts_inv env matches fs t"
  using assms by (simp add: accounts_inv_def account_def passed_def refused_at_def)

lemma service_inv_queue:
  assumes "service_inv env fs s" "i < length fs"
  shows "length (programs s) = length fs" "queue_inv None (queue_at s i)" "open_queue (queue_at s i)"
  using assms by (auto simp: service_inv_def program_inv_def program_at_def queue_at_def)

text \<open>A request that goes on, with or without a step of a queue.\<close>

lemma accounts_replace:
  assumes "accounts_inv env matches fs s" "service_inv env fs t" "requests t = (requests s)[j := r]"
    and "request_ok matches fs r" "\<And>k. k < length fs \<Longrightarrow> account matches fs k t"
  shows "accounts_inv env matches fs t"
  using assms requests_ok_update [of "requests s" "request_ok matches fs" r j] by (simp add: accounts_inv_def)

lemma accounts_request:
  assumes "accounts_inv env matches fs s" "j < length (requests s)"
  obtains X where "mset (requests s) = add_mset (requests s ! j) X"
    "\<And>r. mset ((requests s)[j := r]) = add_mset r X" "request_ok matches fs (requests s ! j)" "service_inv env fs s"
  using replace_request [OF assms(2)] assms by (metis accounts_inv_def nth_mem)

lemma pass_by_accounts:
  assumes "accounts_inv env matches fs s" "j < length (requests s)"
    and "requests s ! j = \<lparr>r_msg = m, r_todo = i # js, r_adding = None\<rparr>" "\<not> admits matches (fs ! i) m"
  shows "accounts_inv env matches fs (s\<lparr>requests := (requests s)[j := \<lparr>r_msg = m, r_todo = js, r_adding = None\<rparr>]\<rparr>)"
proof -
  from accounts_request [OF assms(1,2)] obtain X where X: "mset (requests s) = add_mset (requests s ! j) X"
    "\<And>r. mset ((requests s)[j := r]) = add_mset r X" and ok: "request_ok matches fs (requests s ! j)" by metis
  note todo = request_ok_todo [OF ok [unfolded assms(3)]]
  have "account matches fs k (s\<lparr>requests := (requests s)[j := \<lparr>r_msg = m, r_todo = js, r_adding = None\<rparr>]\<rparr>)"
    if "k < length fs" for k
  proof -
    have "account matches fs k s" using assms(1) that by (simp add: accounts_inv_def)
    with assms(3,4) X show ?thesis
      by (cases "k = i") (auto simp: account_def passed_def refused_at_def split: if_splits)
  qed
  with assms(1) todo(3) show ?thesis
    by (intro accounts_replace [OF assms(1)]) (simp_all add: accounts_inv_def)
qed

lemma add_begins_accounts:
  assumes "accounts_inv env matches fs s" "j < length (requests s)"
    and "requests s ! j = \<lparr>r_msg = m, r_todo = i # js, r_adding = None\<rparr>" "admits matches (fs ! i) m"
    and "has_room (queue_at s i)" "qstep (returns r) None (queue_at s i) (Add_check (Some m)) q"
  shows "accounts_inv env matches fs
    ((set_queue i q s)\<lparr>requests := (requests s)[j := \<lparr>r_msg = m, r_todo = js, r_adding = Some i\<rparr>]\<rparr>)"
proof -
  from accounts_request [OF assms(1,2)] obtain X where X: "mset (requests s) = add_mset (requests s ! j) X"
    "\<And>r. mset ((requests s)[j := r]) = add_mset r X" and ok: "request_ok matches fs (requests s ! j)"
    and inv: "service_inv env fs s" by metis
  note todo = request_ok_todo [OF ok [unfolded assms(3)]]
  note qs = service_inv_queue [OF inv todo(1)]
  note keep = check_keeps [OF assms(6)]
  have "service_inv env fs (set_queue i q s)"
    by (rule set_queue_inv [OF inv assms(6) _ todo(1)]) (use keep qs(3) in simp_all)
  moreover have "account matches fs k
      ((set_queue i q s)\<lparr>requests := (requests s)[j := \<lparr>r_msg = m, r_todo = js, r_adding = Some i\<rparr>]\<rparr>)"
    if "k < length fs" for k
    using assms(1) that assms(3-5) X keep todo(2) queue_at_set_queue [OF qs(1) todo(1), of q k]
    by (auto simp: accounts_inv_def account_def passed_def refused_at_def)
  ultimately show ?thesis using todo(4) [OF assms(4)]
    by (intro accounts_replace [OF assms(1)]) simp_all
qed

lemma add_drops_accounts:
  assumes "accounts_inv env matches fs s" "j < length (requests s)"
    and "requests s ! j = \<lparr>r_msg = m, r_todo = i # js, r_adding = None\<rparr>" "admits matches (fs ! i) m"
    and "\<not> has_room (queue_at s i)" "qstep (returns r) None (queue_at s i) (Add_check (Some m)) q"
  shows "accounts_inv env matches fs
    ((set_queue i q s)\<lparr>requests := (requests s)[j := \<lparr>r_msg = m, r_todo = js, r_adding = None\<rparr>],
       refused := refused s @ [(i, m)]\<rparr>)"
proof -
  from accounts_request [OF assms(1,2)] obtain X where X: "mset (requests s) = add_mset (requests s ! j) X"
    "\<And>r. mset ((requests s)[j := r]) = add_mset r X" and ok: "request_ok matches fs (requests s ! j)"
    and inv: "service_inv env fs s" by metis
  note todo = request_ok_todo [OF ok [unfolded assms(3)]]
  note qs = service_inv_queue [OF inv todo(1)]
  note keep = check_keeps [OF assms(6)]
  have "service_inv env fs (set_queue i q s)"
    by (rule set_queue_inv [OF inv assms(6) _ todo(1)]) (use keep qs(3) in simp_all)
  moreover have "account matches fs k
      ((set_queue i q s)\<lparr>requests := (requests s)[j := \<lparr>r_msg = m, r_todo = js, r_adding = None\<rparr>],
         refused := refused s @ [(i, m)]\<rparr>)"
    if "k < length fs" for k
    using assms(1) that assms(3-5) X keep todo(2) queue_at_set_queue [OF qs(1) todo(1), of q k]
    by (auto simp: accounts_inv_def account_def passed_def refused_at_def)
  ultimately show ?thesis using todo(3)
    by (intro accounts_replace [OF assms(1)]) simp_all
qed

lemma add_ends_accounts:
  assumes "accounts_inv env matches fs s" "j < length (requests s)"
    and "requests s ! j = \<lparr>r_msg = m, r_todo = js, r_adding = Some i\<rparr>"
    and "k < length (producers (queue_at s i))" "producers (queue_at s i) ! k = SendingTo c (Some m)"
    and "qstep (returns r) None (queue_at s i) (Add_send k) q"
  shows "accounts_inv env matches fs
    ((set_queue i q s)\<lparr>requests := (requests s)[j := \<lparr>r_msg = m, r_todo = js, r_adding = None\<rparr>]\<rparr>)"
proof -
  from accounts_request [OF assms(1,2)] obtain X where X: "mset (requests s) = add_mset (requests s ! j) X"
    "\<And>r. mset ((requests s)[j := r]) = add_mset r X" and ok: "request_ok matches fs (requests s ! j)"
    and inv: "service_inv env fs s" by metis
  from ok have i: "i < length fs" and ok': "request_ok matches fs \<lparr>r_msg = m, r_todo = js, r_adding = None\<rparr>"
    unfolding assms(3) by (auto simp: request_ok_def)
  note qs = service_inv_queue [OF inv i]
  note keep = send_keeps [OF assms(6) qs(3,2) assms(4,5)]
  have "service_inv env fs (set_queue i q s)"
    by (rule set_queue_inv [OF inv assms(6) _ i]) (use keep in simp_all)
  moreover have "account matches fs h
      ((set_queue i q s)\<lparr>requests := (requests s)[j := \<lparr>r_msg = m, r_todo = js, r_adding = None\<rparr>]\<rparr>)"
    if "h < length fs" for h
    using assms(1) that assms(3) X keep queue_at_set_queue [OF qs(1) i, of q h]
    by (auto simp: accounts_inv_def account_def passed_def refused_at_def)
  ultimately show ?thesis using ok'
    by (intro accounts_replace [OF assms(1)]) simp_all
qed

lemma accounts_inv_step:
  assumes "service_step env front matches fs s t" "accounts_inv env matches fs s"
  shows "accounts_inv env matches fs t"
  using assms(1)
proof cases
  case (arrive rq m js uuid)
  let ?r = "\<lparr>r_msg = fixWrp (hf_mime front) uuid m, r_todo = js, r_adding = None\<rparr>"
  have "set js = {..<length fs}" "distinct js"
    using mset_eq_setD [OF arrive(4)] mset_eq_imp_distinct_iff [OF arrive(4)] by (auto simp: lessThan_atLeast0)
  then have "request_ok matches fs ?r" by (simp add: request_ok_def)
  moreover have "account matches fs i (s\<lparr>requests := requests s @ [?r]\<rparr>)" if "i < length fs" for i
  proof -
    have "i \<in> set js" using that \<open>set js = _\<close> by simp
    then show ?thesis using assms(2) that
      by (simp add: accounts_inv_def account_def passed_def refused_at_def)
  qed
  ultimately show ?thesis using assms(2) arrive(1) by (auto simp: accounts_inv_def)
next
  case pass_by
  then show ?thesis using pass_by_accounts [OF assms(2)] by simp
next
  case add_begins
  then show ?thesis using add_begins_accounts [OF assms(2)] by simp
next
  case add_drops
  then show ?thesis using add_drops_accounts [OF assms(2)] by simp
next
  case add_ends
  then show ?thesis using add_ends_accounts [OF assms(2)] by simp
next
  case (replies j m)
  from replace_request [OF replies(3)] obtain X where X: "mset (requests s) = add_mset (requests s ! j) X"
    "mset (remove_nth j (requests s)) = X" by metis
  have "account matches fs k (s\<lparr>requests := remove_nth j (requests s), answered := answered s @ [m]\<rparr>)"
    if "k < length fs" for k
    using assms(2) that replies(4) X
    by (auto simp: accounts_inv_def account_def passed_def refused_at_def)
  with assms(2) replies(1) show ?thesis by (auto simp: accounts_inv_def dest: set_remove_nth)
next
  case (loop_runs i e r q)
  have inv: "service_inv env fs s" using assms(2) by (simp add: accounts_inv_def)
  have i: "i < length fs" using loop_runs(3) inv by (simp add: service_inv_def)
  note qs = service_inv_queue [OF inv i]
  note keep = loop_keeps [OF loop_runs(5,4)]
  have int: "\<not> internal e" using loop_runs(4) by (cases e) simp_all
  have "service_inv env fs (set_queue i q s)"
    by (rule set_queue_inv [OF inv loop_runs(5) int i]) (use keep qs(3) in simp)
  with assms(2) show ?thesis unfolding loop_runs(1)
    by (rule accounts_same_queue) (simp_all add: queue_at_set_queue [OF qs(1) i] keep)
next
  case (works i p)
  have inv: "service_inv env fs s" using assms(2) by (simp add: accounts_inv_def)
  have i: "i < length fs" using works(3) inv by (simp add: service_inv_def)
  have q: "queue_at s i = p_queue (program_at s i)" by (simp add: queue_at_def program_at_def)
  from put_program_inv [OF inv works(4) i] show ?thesis unfolding works(1)
    by (rule accounts_same_queue [OF assms(2)])
       (use wstep_keeps [OF works(4)] service_inv_queue(1) [OF inv i] i q in \<open>simp_all add: queue_at_put_program\<close>)
qed

lemma accounts_inv_run:
  "service_run env front matches fs s0 s \<Longrightarrow> accounts_inv env matches fs s0 \<Longrightarrow> accounts_inv env matches fs s"
  by (induction rule: service_run.induct) (auto intro: accounts_inv_step)

end
