(* ===== verification/Service_Properties.thy ===== *)
theory Service_Properties
  imports Service_Accounts
begin

text \<open>
  The way of an event through the whole running service: no event that a request brought in is
  lost without being counted, and what became of it can be told from the state.
\<close>

section \<open>The service that the module builds\<close>

abbreviation fm_filters :: "('re, 'k, 'c, 'r) program_manager \<Rightarrow> ('re, 'k, 'r) program_filters" where
  "fm_filters fm \<equiv> map snd (filters fm)"

lemma built_queue_open:
  assumes "NewQueue c t logger sub = (Some q, err)"
  shows "open_queue (boot q ()) \<and> accepted (boot q ()) = [] \<and> adding (boot q ()) = [] \<and> m_dropped (boot q ()) = 0"
  using NewQueue_Some [OF assms] by (simp add: open_queue_def boot_def adding_def make_chan_def)

lemma built_filter:
  assumes "honours_libraries l" and "FilterModule l i h = (Inr (Some fm, None), h')" and "j < length (filters fm)"
  obtains c b where "dispatcher (fm_filters fm ! j) = Some b"
    and "last_config (fst (filters fm ! j)) (c_Filters (in_FilterManager i)) = Some c"
    and "streams (b_dispatcher b) = Stream_c c # AltStreams c"
    and "\<And>matches m. admits matches (fm_filters fm ! j) m \<longleftrightarrow> selects (l_compile l) matches c m"
    and "program_inv env (b_dispatcher b) (program_start (b_queue b) (map the (b_senders b)) l0)"
    and "open_queue (boot (b_queue b) ()) \<and> accepted (boot (b_queue b) ()) = []
       \<and> adding (boot (b_queue b) ()) = [] \<and> m_dropped (boot (b_queue b) ()) = 0"
proof -
  obtain k f where kf: "filters fm ! j = (k, f)" by fastforce
  with assms(3) have mem: "(k, f) \<in> set (filters fm)" by (metis nth_mem)
  from program_filters [OF assms(1,2) mem] obtain c b where
    c: "last_config k (c_Filters (in_FilterManager i)) = Some c" and pf: "program_filter l i c f b"
    and sel: "\<And>matches m. admits matches f m \<longleftrightarrow> selects (l_compile l) matches c m" by blast
  then have b: "dispatcher f = Some b" by (simp add: program_filter_def)
  obtain c' where st: "program_inv env (b_dispatcher b) (program_start (b_queue b) (map the (b_senders b)) l0)"
    by (rule built_program_inv [OF assms(1,2) mem b])
  have f: "fm_filters fm ! j = f" using kf assms(3) by simp
  have "open_queue (boot (b_queue b) ()) \<and> accepted (boot (b_queue b) ()) = []
       \<and> adding (boot (b_queue b) ()) = [] \<and> m_dropped (boot (b_queue b) ()) = 0"
    by (rule built_queue_open [OF pf [unfolded program_filter_def, THEN conjunct2, THEN conjunct2,
          THEN conjunct2, THEN conjunct2, THEN conjunct2]])
  with b c pf sel st show ?thesis using that kf f by (simp add: program_filter_def)
qed

lemma built_service_inv:
  assumes "honours_libraries l" and "FilterModule l i h = (Inr (Some fm, None), h')"
  shows "accounts_inv env matches (fm_filters fm) (service_start (fm_filters fm) l0)"
proof -
  let ?fs = "fm_filters fm" and ?s = "service_start (fm_filters fm) l0"
  have "program_inv env (dispatcher_of (?fs ! j)) (program_at ?s j) \<and> losses_counted (programs ?s ! j)
      \<and> open_queue (queue_at ?s j) \<and> account matches ?fs j ?s"
    if j: "j < length ?fs" for j
  proof -
    obtain c b where b: "dispatcher (?fs ! j) = Some b"
      and start: "program_inv env (b_dispatcher b) (program_start (b_queue b) (map the (b_senders b)) l0)"
      and op: "open_queue (boot (b_queue b) ()) \<and> accepted (boot (b_queue b) ()) = []
       \<and> adding (boot (b_queue b) ()) = [] \<and> m_dropped (boot (b_queue b) ()) = 0"
      by (rule built_filter [OF assms, of j]) (use j in auto)
    have p: "programs ?s ! j = program_start (b_queue b) (map the (b_senders b)) l0"
      using j b by (simp add: service_start_def)
    then have "program_at ?s j = program_start (b_queue b) (map the (b_senders b)) l0"
      by (simp add: program_at_def) (simp add: service_start_def program_start_def)
    moreover have "losses_counted (programs ?s ! j)"
      unfolding p by (simp add: losses_counted_def program_start_def)
    moreover have q: "queue_at ?s j = boot (b_queue b) ()" unfolding queue_at_def p by (simp add: program_start_def)
    moreover have "account matches ?fs j ?s"
      unfolding account_def q using op by (simp add: passed_def refused_at_def service_start_def)
    ultimately show ?thesis using start op b by (simp add: dispatcher_of_def)
  qed
  moreover have "sub_ids (programs ?s ! j) = {}" if "j < length ?fs" for j
    using that by (simp add: service_start_def program_start_def sub_ids_def)
  ultimately show ?thesis
    by (simp add: accounts_inv_def service_inv_def) (simp add: service_start_def)
qed

section \<open>No event is lost in silence\<close>

definition done_batches :: "('k, 'c, 'r) program \<Rightarrow> msg list list" where
  "done_batches p = map (fst \<circ> snd) (p_done p)"

lemma accepted_places:
  assumes "program_inv env d p" "open_queue (p_queue p)"
  shows "image_mset snd (mset (accepted (p_queue p))) = mset (concat (done_batches p))
     + mset (concat (map sub_batch (p_subs p))) + mset (items (p_queue p)) + mset (cbuf (items_chan (p_queue p)))"
proof -
  from assms(1) have q: "queue_inv None (p_queue p)" and sub: "map sub_batch (p_subs p) = running (p_queue p)"
    and fin: "finished (p_queue p) = map snd (p_done p)" by (auto simp: program_inv_def)
  from open_fifo [OF q] assms(2) have "map snd (accepted (p_queue p))
      = concat (launched (p_queue p)) @ items (p_queue p) @ cbuf (items_chan (p_queue p))"
    by (simp add: open_queue_def items_chan_def)
  then have "image_mset snd (mset (accepted (p_queue p))) = mset (concat (launched (p_queue p)))
      + mset (items (p_queue p)) + mset (cbuf (items_chan (p_queue p)))"
    by (simp flip: mset_map)
  moreover have "mset (launched (p_queue p)) = mset (running (p_queue p)) + mset (done_batches p)"
    using q by (simp add: queue_inv_def inv_workers_def fin done_batches_def)
  then have "mset (concat (launched (p_queue p)))
      = mset (concat (running (p_queue p))) + mset (concat (done_batches p))"
    by (metis concat_append mset_append mset_concat mset_map sum_mset_sum_list)
  ultimately show ?thesis by (simp add: sub ac_simps)
qed

text \<open>Where the events are that have passed a filter.\<close>

lemma account_places:
  assumes "accounts_inv env matches fs s" "j < length fs"
  shows "image_mset Some (passed matches (fs ! j) j s)
     = image_mset Some (refused_at j s) + mset (adding (queue_at s j)) + mset (cbuf (items_chan (queue_at s j)))
       + mset (items (queue_at s j)) + mset (concat (map sub_batch (p_subs (programs s ! j))))
       + mset (concat (done_batches (programs s ! j)))"
proof -
  have inv: "program_inv env (dispatcher_of (fs ! j)) (program_at s j)" "open_queue (p_queue (program_at s j))"
    and acc: "account matches fs j s"
    using assms by (auto simp: accounts_inv_def service_inv_def program_at_def queue_at_def)
  from accepted_places [OF inv] acc show ?thesis
    by (simp add: account_def program_at_def queue_at_def done_batches_def ac_simps)
qed

text \<open>
  C1. No event is lost in silence. Take the manager that the module returns and let everything
  run, in any interleaving: requests that bring events and go from filter to filter, the loops
  of all queues, and all their workers, retrying, failing over, sharing and refreshing their
  clients. For every filter, the events whose requests have passed it, as its configuration selects
  them, are exactly (as a multiset) those that were refused because its queue was full,
  those in the middle of \<open>AddItem\<close>, those in the channel, those that the loop holds, those in a
  submission under way and those in a submission that returned. The refused ones are as
  many as the queue's counter of drops says; a submission that returned without an error has
  its batch acknowledged, whole, on one of the filter's streams; and those that returned with one,
  or are about to, are what the reasons \<open>all_failed\<close> and \<open>no_streams\<close> of \<open>DroppedMessage\<close> count, to
  the message. When no request is under way, the events passed are the answered ones.
\<close>

theorem no_silent_loss:
  assumes "honours_libraries l" and "FilterModule l i h = (Inr (Some fm, None), h')"
    and "service_run env front matches (fm_filters fm) (service_start (fm_filters fm) l0) s"
    and "j < length (filters fm)"
  shows "\<exists>c. last_config (fst (filters fm ! j)) (c_Filters (in_FilterManager i)) = Some c
    \<and> (let p = programs s ! j; q = p_queue p; gone = passed matches (fm_filters fm ! j) j s in
       image_mset Some gone = image_mset Some (refused_at j s) + mset (adding q) + mset (cbuf (items_chan q))
         + mset (items q) + mset (concat (map sub_batch (p_subs p))) + mset (concat (done_batches p))
     \<and> (\<forall>m \<in># gone. selects (l_compile l) matches c m)
     \<and> (requests s = [] \<longrightarrow> gone = {#m \<in># mset (answered s). selects (l_compile l) matches c m#} \<and> adding q = [])
     \<and> size (refused_at j s) = m_dropped q
     \<and> (\<forall>n b. (n, b, None) \<in> set (p_done p) \<longrightarrow> fits b \<longrightarrow> b = []
          \<or> (\<exists>st \<in> set (Stream_c c # AltStreams c). \<exists>its. marshal_items (env_marshal env) b = Inr its
               \<and> own_acknowledged (env_aws env) n (StreamName st) its (s_log s)))
     \<and> lost_count (p_metrics p) = (\<Sum>x \<leftarrow> p_done p. done_loss x) + (\<Sum>x \<leftarrow> p_subs p. sub_loss x))"
proof -
  let ?p = "programs s ! j" and ?f = "fm_filters fm ! j"
  note bf = built_filter [OF assms(1,2,4), where env = env and ?l0.0 = l0]
  obtain c b where b: "dispatcher ?f = Some b"
    and c: "last_config (fst (filters fm ! j)) (c_Filters (in_FilterManager i)) = Some c"
    and st: "streams (b_dispatcher b) = Stream_c c # AltStreams c"
    and sel: "\<And>matches m. admits matches ?f m \<longleftrightarrow> selects (l_compile l) matches c m"
    by (rule bf) blast
  from accounts_inv_run [OF assms(3) built_service_inv [OF assms(1,2)]]
  have inv: "accounts_inv env matches (fm_filters fm) s" .
  then have acc: "account matches (fm_filters fm) j s" and loss: "losses_counted ?p"
    and prog: "program_inv env (dispatcher_of ?f) (program_at s j)"
    using assms(4) by (auto simp: accounts_inv_def service_inv_def)
  have "streams (dispatcher_of ?f) = Stream_c c # AltStreams c" using b st by (simp add: dispatcher_of_def)
  with prog have acks: "\<forall>n b'. (n, b', None) \<in> set (p_done ?p) \<longrightarrow> fits b' \<longrightarrow> b' = []
      \<or> (\<exists>st \<in> set (Stream_c c # AltStreams c). \<exists>its. marshal_items (env_marshal env) b' = Inr its
               \<and> own_acknowledged (env_aws env) n (StreamName st) its (s_log s))"
    by (simp add: program_inv_def program_at_def sub_acknowledged_def)
  have sels: "\<forall>m \<in># passed matches ?f j s. selects (l_compile l) matches c m"
    by (auto simp: passed_def sel)
  have quiet: "requests s = [] \<longrightarrow> passed matches ?f j s = {#m \<in># mset (answered s). selects (l_compile l) matches c m#}
      \<and> adding (p_queue ?p) = []"
    using acc by (intro impI) (simp add: passed_def sel account_def queue_at_def)
  have dropped: "size (refused_at j s) = m_dropped (p_queue ?p)" using acc by (simp add: account_def queue_at_def)
  have j: "j < length (fm_filters fm)" using assms(4) by simp
  show ?thesis
    unfolding Let_def
    by (intro exI [of _ c] conjI; rule c account_places [OF inv j, unfolded queue_at_def] sels quiet dropped acks
        loss [unfolded losses_counted_def])
qed

section \<open>A run\<close>

text \<open>The steps as a function, to run the service on a list of events.\<close>

datatype service_event =
    Arrive request string "nat list"   \<comment> \<open>with the identifier and the order of the filters\<close>
  | Visit nat                          \<comment> \<open>a request at its next filter\<close>
  | Sent nat nat                       \<comment> \<open>a request whose call of \<open>AddItem\<close> is the producer\<close>
  | Reply nat
  | Loop nat "msg event"
  | Work_at nat pevent

definition service_exec :: "('k, 'c, 'r) sender_env \<Rightarrow> http_front \<Rightarrow> ('re \<Rightarrow> string \<Rightarrow> bool)
    \<Rightarrow> ('re, 'k, 'r) program_filters \<Rightarrow> service_event \<Rightarrow> ('k, 'c, 'r) service \<Rightarrow> ('k, 'c, 'r) service option" where
  "service_exec env front matches fs e s =
     (if \<not> alive s then None
      else case e of
        Arrive rq uuid js \<Rightarrow>
          (case event_of (hf_decode front) (hf_utf8 front) rq of
             None \<Rightarrow> None
           | Some m \<Rightarrow> if mset js = mset [0..<length fs]
               then Some (s\<lparr>requests := requests s @
                 [\<lparr>r_msg = fixWrp (hf_mime front) uuid m, r_todo = js, r_adding = None\<rparr>]\<rparr>) else None)
      | Visit j \<Rightarrow>
          if length (requests s) \<le> j \<or> r_adding (requests s ! j) \<noteq> None then None
          else (let m = r_msg (requests s ! j) in
            case r_todo (requests s ! j) of
              [] \<Rightarrow> None
            | i # js \<Rightarrow>
                if \<not> admits matches (fs ! i) m
                then Some (s\<lparr>requests := (requests s)[j := \<lparr>r_msg = m, r_todo = js, r_adding = None\<rparr>]\<rparr>)
                else (case exec_event (returns (Inr None)) None (Add_check (Some m)) (queue_at s i) of
                   None \<Rightarrow> None
                 | Some q \<Rightarrow> Some (if has_room (queue_at s i)
                     then (set_queue i q s)\<lparr>requests := (requests s)[j := \<lparr>r_msg = m, r_todo = js, r_adding = Some i\<rparr>]\<rparr>
                     else (set_queue i q s)\<lparr>requests := (requests s)[j := \<lparr>r_msg = m, r_todo = js, r_adding = None\<rparr>],
                        refused := refused s @ [(i, m)]\<rparr>)))
      | Sent j k \<Rightarrow>
          if length (requests s) \<le> j then None
          else (let m = r_msg (requests s ! j) in
            case r_adding (requests s ! j) of
              None \<Rightarrow> None
            | Some i \<Rightarrow>
                if k < length (producers (queue_at s i)) then
                  (case producers (queue_at s i) ! k of
                     Checked x \<Rightarrow> None
                   | SendingTo c x \<Rightarrow>
                       if x = Some m then
                         map_option (\<lambda>q. (set_queue i q s)\<lparr>requests := (requests s)[j :=
                             \<lparr>r_msg = m, r_todo = r_todo (requests s ! j), r_adding = None\<rparr>]\<rparr>)
                           (exec_event (returns (Inr None)) None (Add_send k) (queue_at s i))
                       else None)
                else None)
      | Reply j \<Rightarrow>
          if length (requests s) \<le> j \<or> r_adding (requests s ! j) \<noteq> None \<or> r_todo (requests s ! j) \<noteq> [] then None
          else Some (s\<lparr>requests := remove_nth j (requests s), answered := answered s @ [r_msg (requests s ! j)]\<rparr>)
      | Loop i ev \<Rightarrow>
          if i < length (programs s) \<and> loop_event ev
          then map_option (\<lambda>q. set_queue i q s) (exec_event (returns (Inr None)) None ev (queue_at s i)) else None
      | Work_at i ev \<Rightarrow>
          if i < length (programs s) \<and> (case ev of Queue_event e' \<Rightarrow> False | _ \<Rightarrow> True)
          then map_option (\<lambda>p. put_program i p s) (pexec env (dispatcher_of (fs ! i)) ev (program_at s i)) else None)"

lemma event_run_eta: "r = \<lparr>r_msg = r_msg r, r_todo = r_todo r, r_adding = r_adding r\<rparr>"
  by simp

lemma service_exec_visit:
  assumes "service_exec env front matches fs (Visit j) s = Some t" and a: "alive s"
  shows "service_step env front matches fs s t"
proof -
  from assms obtain i js where v: "j < length (requests s)" "r_adding (requests s ! j) = None"
    "r_todo (requests s ! j) = i # js"
    by (auto simp: service_exec_def Let_def split: if_splits list.splits)
  let ?m = "r_msg (requests s ! j)"
  have r: "requests s ! j = \<lparr>r_msg = ?m, r_todo = i # js, r_adding = None\<rparr>"
    using v(2,3) by (metis event_run_eta)
  show ?thesis
  proof (cases "admits matches (fs ! i) ?m")
    case False
    then have t: "t = s\<lparr>requests := (requests s)[j := \<lparr>r_msg = ?m, r_todo = js, r_adding = None\<rparr>]\<rparr>"
      using assms v a by (simp add: service_exec_def Let_def)
    show ?thesis unfolding t by (rule pass_by [OF a v(1) r False])
  next
    case True
    with assms v a obtain q where
      q: "exec_event (returns (Inr None)) None (Add_check (Some ?m)) (queue_at s i) = Some q"
      by (auto simp: service_exec_def Let_def split: if_splits option.splits)
    show ?thesis
    proof (cases "has_room (queue_at s i)")
      case room: True
      have t: "t = (set_queue i q s)\<lparr>requests := (requests s)[j := \<lparr>r_msg = ?m, r_todo = js, r_adding = Some i\<rparr>]\<rparr>"
        using assms v a True q room by (simp add: service_exec_def Let_def)
      show ?thesis unfolding t by (rule add_begins [OF a v(1) r True room exec_qstep [OF q]])
    next
      case full: False
      have t: "t = (set_queue i q s)\<lparr>requests := (requests s)[j := \<lparr>r_msg = ?m, r_todo = js, r_adding = None\<rparr>],
                  refused := refused s @ [(i, ?m)]\<rparr>"
        using assms v a True q full by (simp add: service_exec_def Let_def)
      show ?thesis unfolding t by (rule add_drops [OF a v(1) r True full exec_qstep [OF q]])
    qed
  qed
qed

lemma service_exec_step:
  assumes "service_exec env front matches fs e s = Some t"
  shows "service_step env front matches fs s t"
proof -
  have a: "alive s" using assms by (auto simp: service_exec_def split: if_splits)
  show ?thesis
  proof (cases e)
    case (Arrive rq uuid js)
    with assms show ?thesis
      by (auto simp: service_exec_def split: if_splits option.splits intro!: arrive)
  next
    case (Visit j)
    with assms service_exec_visit a show ?thesis by metis
  next
    case (Sent j k)
    let ?m = "r_msg (requests s ! j)" and ?js = "r_todo (requests s ! j)"
    from Sent assms obtain i c q where v: "j < length (requests s)" "r_adding (requests s ! j) = Some i"
      "k < length (producers (queue_at s i))" "producers (queue_at s i) ! k = SendingTo c (Some ?m)"
      and q: "exec_event (returns (Inr None)) None (Add_send k) (queue_at s i) = Some q"
      and t: "t = (set_queue i q s)\<lparr>requests := (requests s)[j := \<lparr>r_msg = ?m, r_todo = ?js, r_adding = None\<rparr>]\<rparr>"
      by (auto simp: service_exec_def Let_def split: if_splits option.splits producer.splits)
    have r: "requests s ! j = \<lparr>r_msg = ?m, r_todo = ?js, r_adding = Some i\<rparr>"
      using v(2) by (metis event_run_eta)
    show ?thesis unfolding t by (rule add_ends [OF a v(1) r v(3,4) exec_qstep [OF q]])
  next
    case (Reply j)
    with assms have v: "j < length (requests s)" "r_adding (requests s ! j) = None" "r_todo (requests s ! j) = []"
      and t: "t = s\<lparr>requests := remove_nth j (requests s), answered := answered s @ [r_msg (requests s ! j)]\<rparr>"
      by (auto simp: service_exec_def split: if_splits)
    have r: "requests s ! j = \<lparr>r_msg = r_msg (requests s ! j), r_todo = [], r_adding = None\<rparr>"
      using v(2,3) by (metis event_run_eta)
    show ?thesis unfolding t by (rule replies [OF a v(1) r])
  next
    case (Loop i ev)
    with assms show ?thesis
      by (auto simp: service_exec_def split: if_splits intro!: loop_runs [OF a] exec_qstep)
  next
    case (Work_at i ev)
    with assms obtain p where "i < length (programs s)" "\<forall>e'. ev \<noteq> Queue_event e'"
      "pexec env (dispatcher_of (fs ! i)) ev (program_at s i) = Some p" "t = put_program i p s"
      by (auto simp: service_exec_def split: if_splits pevent.splits)
    with works [OF a _ pexec_wstep] show ?thesis by blast
  qed
qed

fun service_exec_all :: "('k, 'c, 'r) sender_env \<Rightarrow> http_front \<Rightarrow> ('re \<Rightarrow> string \<Rightarrow> bool)
    \<Rightarrow> ('re, 'k, 'r) program_filters \<Rightarrow> service_event list \<Rightarrow> ('k, 'c, 'r) service \<Rightarrow> ('k, 'c, 'r) service option" where
  "service_exec_all env front matches fs [] s = Some s"
| "service_exec_all env front matches fs (e # es) s =
     (case service_exec env front matches fs e s of None \<Rightarrow> None
      | Some t \<Rightarrow> service_exec_all env front matches fs es t)"

lemma service_exec_all_run:
  "service_exec_all env front matches fs es s = Some t \<Longrightarrow> service_run env front matches fs s0 s
     \<Longrightarrow> service_run env front matches fs s0 t"
proof (induction es arbitrary: s)
  case (Cons e es)
  from Cons.prems(1) obtain u where u: "service_exec env front matches fs e s = Some u"
    "service_exec_all env front matches fs es u = Some t"
    by (auto split: option.splits)
  from Cons.IH [OF u(2) service_goes_on [OF Cons.prems(2) service_exec_step [OF u(1)]]] show ?case .
qed simp

definition sample_front :: http_front where
  "sample_front = \<lparr>hf_decode = sample_decode, hf_utf8 = (\<lambda>m. None), hf_mime = ''application/json''\<rparr>"

definition service_events :: "service_event list" where
  "service_events = [Arrive sample_request ''u'' [0], Arrive sample_request ''v'' [0], Loop 0 Start_call, Visit 0,
     Loop 0 (Add_bind 0), Loop 0 Start_add, Sent 0 0, Visit 1, Reply 0, Loop 0 Select_enter, Loop 0 Recv,
     Loop 0 Process, Reply 0, Loop 0 Select_enter, Loop 0 Tick, Work_at 0 Hand_over, Work_at 0 (Work 0),
     Work_at 0 (Work 0), Work_at 0 (Work 0), Work_at 0 (Work 0), Work_at 0 (Work 0), Work_at 0 (Worker_ends 0)]"

definition service_end :: "(unit, unit, nat) service" where
  "service_end = (case service_exec_all sample_env sample_front (=) [module_filter 9] service_events
     (service_start [module_filter 9] []) of Some s \<Rightarrow> s)"

lemma sample_passes:
  "admits (=) (module_filter 9) sample_message" "dispatcher (module_filter n) = Some module_dispatcher" "fixWrp ''application/json'' u sample_message = sample_message"
  by (simp_all add: admits_def module_filter_def sample_fc_def TrimPrefix_def sample_message_def event_prefix_def fixWrp_def)

lemmas service_defs = service_exec_def service_start_def sample_front_def sample_event sample_passes alive_def
  queue_at_def set_queue_def program_at_def put_program_def dispatcher_of_def

lemma service_end_run:
  "service_exec_all sample_env sample_front (=) [module_filter 9] service_events
     (service_start [module_filter 9] []) = Some service_end"
  "answered service_end = [sample_message, sample_message]" "requests service_end = []"
  "refused service_end = [(0, sample_message)]"
  by (simp_all add: service_end_def service_events_def service_defs concurrent_defs)

theorem no_silent_loss_witness:
  "let p = programs service_end ! 0; q = p_queue p in
     {#Some sample_message, Some sample_message#} = {#Some sample_message#} + mset (adding q)
       + mset (cbuf (items_chan q)) + mset (items q) + mset (concat (map sub_batch (p_subs p)))
       + mset (concat (done_batches p))
     \<and> m_dropped q = 1
     \<and> lost_count (p_metrics p) = (\<Sum>x \<leftarrow> p_done p. done_loss x) + (\<Sum>x \<leftarrow> p_subs p. sub_loss x)"
proof -
  let ?fm = "(program_fm sample_libs (module_in 9))\<lparr>filters := [(''s'', module_filter 9)]\<rparr>"
  have run: "service_run sample_env sample_front (=) (fm_filters ?fm) (service_start (fm_filters ?fm) []) service_end"
    using service_exec_all_run [OF service_end_run(1) service_begins] by simp
  have "selects (l_compile sample_libs) (=) module_fc sample_message"
    by (simp add: selects_def sample_libs_def exact_def TrimPrefix_def sample_message_def Let_def
        module_fc_def sample_fc_def)
  moreover have "last_config ''s'' (c_Filters (in_FilterManager (module_in 9))) = Some module_fc"
    by (simp add: module_in_def module_fc_def)
  moreover have "refused_at 0 service_end = {#sample_message#}"
    by (simp add: refused_at_def service_end_run(4))
  ultimately show ?thesis
    using no_silent_loss [OF sample_libs_honoured sample_module run, of 0]
    by (auto simp: Let_def service_end_run(2,3))
qed

end
