(* ===== verification/Service_Calm.thy ===== *)
theory Service_Calm
  imports Service_Properties
begin

text \<open>
  No worker of the running service panics: the places where \<open>Submit\<close> could (an index behind the
  senders, a \<open>nil\<close> message or client, an output without a count) are never reached, as long as
  Kinesis reports a count in every output.
\<close>

section \<open>No panic in a submission\<close>

text \<open>Kinesis reports a count of failed records in every output.\<close>

definition counted_answers :: "('k, 'c) aws \<Rightarrow> bool" where
  "counted_answers aws \<longleftrightarrow> (\<forall>h k i out. fst (aws_put_records aws h k i) = Some out \<longrightarrow> FailedRecordCount out \<noteq> None)"

lemma own_puts_answers: "(input, answer) \<in> set (own_puts aws i h l) \<Longrightarrow> \<exists>h k. answer = aws_put_records aws h k input"
  by (induction aws i h l rule: own_puts.induct) (auto split: aws_call.splits if_splits)

lemma outcome_returns:
  assumes "counted_answers aws" "outcome aws i h lim l w r"
  shows "\<exists>v. r = Inr v"
proof (cases r)
  case (Inl p)
  with assms(2) obtain input answer out where "(input, answer) \<in> set (own_puts aws i h l)"
    "fst answer = Some out" "FailedRecordCount out = None" by (auto simp: outcome_def)
  with own_puts_answers assms(1) show ?thesis unfolding counted_answers_def by metis
qed simp

lemma marshal_items_returns: "None \<notin> set b \<Longrightarrow> \<exists>its. marshal_items marshal b = Inr its"
  by (induction marshal b rule: marshal_items.induct) (fastforce simp: go_bind_def split: prod.splits option.splits)+

text \<open>A submission that has not panicked and cannot: its batch has no \<open>nil\<close> message.\<close>

definition sub_calm :: "('k, 'c) submission \<Rightarrow> bool" where
  "sub_calm sub \<longleftrightarrow> None \<notin> set (sub_batch sub) \<and> fits (sub_batch sub) \<and> (\<forall>p. sub_pc sub \<noteq> Answered (Inl p))"

lemma try_stream_calm:
  assumes "try_stream env ss d msgs i err = (pt, m)" "length ss = length (streams d)" "None \<notin> set msgs"
  shows "pt \<noteq> Answered (Inl p)"
  using assms marshal_items_returns [OF assms(3), of "env_marshal env"]
  by (auto simp: try_stream_def split: if_splits sum.splits)

lemma begin_submit_calm:
  assumes "begin_submit env ss d msgs = (pt, m)" "length ss = length (streams d)" "None \<notin> set msgs"
  shows "pt \<noteq> Answered (Inl p)"
  using assms try_stream_calm [OF _ assms(2,3)] by (fastforce simp: begin_submit_def split: if_splits)

lemma sub_step_calm:
  assumes "sub_step env d sub (ss, l) = (sub', ss', l', m)" "list_all sender_ok ss" "length ss = length (streams d)"
    and "sub_inv env d l sub" "sub_calm sub" "counted_answers (env_aws env)"
  shows "sub_calm sub'"
proof (cases "sub_pc sub")
  case (Answered r)
  with assms(1,5) show ?thesis by (simp add: sub_step_def)
next
  case (Trying i w)
  with assms(4) obtain l0 l1 lim where i: "i < length (streams d)"
    and log: "l = l0 @ l1" and inv: "worker_inv (env_aws env) (sub_id sub) (map snd l0) lim l1 w"
    unfolding sub_inv_def by auto
  show ?thesis
  proof (cases "\<exists>r. w_pc w = Returned r")
    case True
    then obtain r where r: "w_pc w = Returned r" by blast
    with inv outcome_returns [OF assms(6)] obtain v e where v: "r = Inr (v, e)"
      by (fastforce simp: worker_inv_def)
    have batch: "None \<notin> set (sub_batch sub)" using assms(5) by (simp add: sub_calm_def)
    obtain pt m' where af: "after_OnEvent env ss d (sub_batch sub) i r = (pt, m')" by fastforce
    then have "pt \<noteq> Answered (Inl p)" for p
      using try_stream_calm [OF _ assms(3) batch] unfolding v
      by (fastforce simp: after_OnEvent_def split: option.splits prod.splits if_splits)
    with assms(1,5) Trying r af show ?thesis by (auto simp: sub_step_def sub_calm_def)
  next
    case False
    from assms(2,3) i obtain c where "kc (ss ! i) = Some c"
      by (auto simp: list_all_length sender_ok_def split: option.splits)
    with assms(1,5) Trying False show ?thesis
      by (auto simp: sub_step_def sub_calm_def split: put_pc.splits prod.splits)
  qed
qed

section \<open>No panic of a dispatcher\<close>

lemma qstep_calm:
  assumes "qstep (returns r) None q e q'" "\<not> internal e" "\<And>n. e \<noteq> Set_batch n"
  shows "crashed q' = None \<and> peak q' = peak q \<and> cfg q' = cfg q"
  using assms
  by (induction rule: qstep.induct) (auto simp: chan_send_Some Close_Inr queue_ops)

definition dispatcher_calm :: "('k, 'c, 'r) program \<Rightarrow> bool" where
  "dispatcher_calm p \<longleftrightarrow> crashed (p_queue p) = None \<and> peak (p_queue p) < 2 ^ 63
     \<and> 0 < ChannelSize (cfg (p_queue p)) \<and> (\<forall>sub \<in> set (p_subs p). sub_calm sub)"

lemma items_fit:
  assumes "queue_inv None q" "open_queue q" "peak q < 2 ^ 63"
  shows "fits (items q)"
  using assms by (simp add: queue_inv_def inv_size_def open_queue_def fits_def) 

lemma wstep_calm:
  assumes "wstep env d s t" "program_inv env d s" "open_queue (p_queue s)" "dispatcher_calm s"
    and "None \<notin> set (items (p_queue s))" "counted_answers (env_aws env)"
  shows "dispatcher_calm t"
  using assms(1)
proof cases
  case (hand_over r q pt m)
  have "length (p_senders s) = length (streams d)" "queue_inv None (p_queue s)"
    using assms(2) by (simp_all add: program_inv_def)
  with begin_submit_calm [OF hand_over(3) this(1) assms(5)] items_fit [OF this(2) assms(3)] assms(4,5) hand_over(1,2)
  show ?thesis by (auto simp: dispatcher_calm_def sub_calm_def)
next
  case (work j sub ss l m)
  have mem: "p_subs s ! j \<in> set (p_subs s)" using work(3) by simp
  with assms(4) have c: "sub_calm (p_subs s ! j)" by (simp add: dispatcher_calm_def)
  with assms(2) mem have "list_all sender_ok (p_senders s)" "length (p_senders s) = length (streams d)"
    "sub_inv env d (p_log s) (p_subs s ! j)" by (auto simp: program_inv_def sub_calm_def)
  from sub_step_calm [OF work(4) this c assms(6)] assms(4) set_update_subset_insert [of "p_subs s" j sub]
  show ?thesis unfolding work(1) by (auto simp: dispatcher_calm_def)
next
  case (worker_returns j err q)
  with assms(4) show ?thesis by (auto simp: dispatcher_calm_def returns_def dest: set_remove_nth)
next
  case (worker_panics j p q)
  then have "\<not> sub_calm (p_subs s ! j)" "p_subs s ! j \<in> set (p_subs s)" by (auto simp: sub_calm_def)
  with assms(4) show ?thesis by (auto simp: dispatcher_calm_def)
qed

section \<open>No panic of the service\<close>

text \<open>Only messages of requests are in its queues.\<close>

lemma queue_items_Some:
  assumes "accounts_inv env matches fs s" "i < length fs"
  shows "None \<notin> set (items (queue_at s i))"
proof -
  have inv: "program_inv env (dispatcher_of (fs ! i)) (program_at s i)" "open_queue (p_queue (program_at s i))"
    and acc: "account matches fs i s"
    using assms by (auto simp: accounts_inv_def service_inv_def program_at_def queue_at_def)
  have q: "p_queue (program_at s i) = queue_at s i" by (simp add: program_at_def queue_at_def)
  have "x \<in># image_mset Some (passed matches (fs ! i) i s)" if "x \<in> set (items (queue_at s i))" for x
    using acc accepted_places [OF inv] that unfolding q account_def by simp
  then show ?thesis by fastforce
qed

definition calm :: "('re, 'k, 'r) program_filters \<Rightarrow> ('k, 'c, 'r) service \<Rightarrow> bool" where
  "calm fs s \<longleftrightarrow> (\<forall>i < length fs. dispatcher_calm (programs s ! i))"

lemma calm_simps [simp]:
  "calm fs (s\<lparr>requests := rs\<rparr>) = calm fs s" "calm fs (s\<lparr>requests := rs, answered := ms\<rparr>) = calm fs s"
  "calm fs (s\<lparr>requests := rs, refused := xs\<rparr>) = calm fs s"
  "dispatcher_calm (p\<lparr>p_log := l, p_next := n\<rparr>) = dispatcher_calm p"
  by (simp_all add: calm_def dispatcher_calm_def)

lemma calm_put:
  assumes "calm fs s" "length (programs s) = length fs" "dispatcher_calm p"
  shows "calm fs (put_program i p s)"
  using assms by (cases "i < length fs") (simp_all add: calm_def put_program_def nth_list_update)

lemma calm_queue:
  assumes "calm fs s" "length (programs s) = length fs" "qstep (returns r) None (queue_at s i) e q"
    and "\<not> internal e" "\<And>n. e \<noteq> Set_batch n"
  shows "calm fs (set_queue i q s)"
  using assms(1,2) qstep_calm [OF assms(3-5)]
  by (cases "i < length fs") (simp_all add: calm_def set_queue_def nth_list_update dispatcher_calm_def queue_at_def)

lemma calm_step:
  assumes "service_step env front matches fs s t" "accounts_inv env matches fs s" "calm fs s"
    and "counted_answers (env_aws env)"
  shows "calm fs t"
proof -
  have inv: "service_inv env fs s" using assms(2) by (simp add: accounts_inv_def)
  then have len: "length (programs s) = length fs" by (simp add: service_inv_def)
  note queue = calm_queue [OF assms(3) len]
  from assms(1) show ?thesis
  proof cases
    case (loop_runs i e r q)
    have "\<not> internal e" "\<And>n. e \<noteq> Set_batch n" using loop_runs(4) by (cases e; simp)+
    from queue [OF loop_runs(5) this] show ?thesis unfolding loop_runs(1) .
  next
    case (works i p)
    have i: "i < length fs" using works(3) len by simp
    have "dispatcher_calm p"
    proof (rule wstep_calm [OF works(4) _ _ _ _ assms(4)])
      show "None \<notin> set (items (p_queue (program_at s i)))"
        using queue_items_Some [OF assms(2) i] by (simp add: program_at_def queue_at_def)
    qed (use inv assms(3) i in \<open>auto simp: service_inv_def calm_def program_at_def queue_at_def\<close>)
    from calm_put [OF assms(3) len this] show ?thesis unfolding works(1) .
  qed (use assms(3) queue in simp_all)
qed

lemma calm_alive: "calm fs s \<Longrightarrow> length (programs s) = length fs \<Longrightarrow> alive s"
  by (simp add: calm_def alive_def dispatcher_calm_def list_all_length)

lemma calm_run:
  "service_run env front matches fs s0 s \<Longrightarrow> accounts_inv env matches fs s0 \<Longrightarrow> calm fs s0
     \<Longrightarrow> counted_answers (env_aws env) \<Longrightarrow> calm fs s"
  by (induction rule: service_run.induct) (auto intro: calm_step accounts_inv_run)

end
