(* ===== verification/Service_Progress.thy ===== *)
theory Service_Progress
  imports Service_Calm
begin

text \<open>
  The running service never gets stuck: as long as there is anything under way, some step
  is possible that leaves less to do. So it comes to rest when no new event arrives.
\<close>

section \<open>A dispatcher goes on\<close>

text \<open>Nothing is under way at a dispatcher.\<close>

definition drained :: "('k, 'c, 'r) program \<Rightarrow> bool" where
  "drained p \<longleftrightarrow> p_subs p = [] \<and> items (p_queue p) = [] \<and> waiting (p_queue p) = []"

text \<open>
  What is left to do: for the loop, counted in its steps; for the submissions, their number; for
  the first submission, its steps.
\<close>

definition loop_left :: "(msg, unit) system \<Rightarrow> nat" where
  "loop_left q = 6 * length (waiting q) +
     (case pc q of NotStarted \<Rightarrow> 3 | Starting \<Rightarrow> 2 | LoopTop \<Rightarrow> if items q = [] then 1 else 4
      | Selecting i \<Rightarrow> if items q = [] then 0 else 3 | Received \<Rightarrow> 5 | Submitting \<Rightarrow> 2 | Stopped \<Rightarrow> 0)"

definition head_left :: "('k, 'c, 'r) sender_env \<Rightarrow> ('k, 'c, 'r) program \<Rightarrow> nat" where
  "head_left env p = (case p_subs p of [] \<Rightarrow> 0
     | sub # subs \<Rightarrow> (case sub_pc sub of Answered r \<Rightarrow> 0 | Trying i w \<Rightarrow> Suc (steps_left env (p_senders p) i w)))"

definition less_left :: "('k, 'c, 'r) sender_env \<Rightarrow> ('k, 'c, 'r) program \<Rightarrow> ('k, 'c, 'r) program \<Rightarrow> bool" where
  "less_left env p' p \<longleftrightarrow> loop_left (p_queue p') < loop_left (p_queue p)
     \<or> loop_left (p_queue p') = loop_left (p_queue p) \<and> (length (p_subs p') < length (p_subs p)
        \<or> length (p_subs p') = length (p_subs p) \<and> head_left env p' < head_left env p)"

definition moves :: "('k, 'c, 'r) sender_env \<Rightarrow> StreamDispatcher \<Rightarrow> ('k, 'c, 'r) program \<Rightarrow> ('k, 'c, 'r) program \<Rightarrow> bool" where
  "moves env d p p' \<longleftrightarrow> wstep env d p p'
     \<or> (\<exists>r e q. loop_event e \<and> qstep (returns r) None (p_queue p) e q \<and> p' = p\<lparr>p_queue := q\<rparr>)"

lemma worker_moves:
  assumes "wstep env d p p'" "less_left env p' p" "producers (p_queue p') = producers (p_queue p)"
  shows "\<exists>p'. moves env d p p' \<and> less_left env p' p \<and> producers (p_queue p') = producers (p_queue p)"
  using assms unfolding moves_def by blast

lemma first_submission:
  assumes "p_subs p = sub # subs" "program_inv env d p" "dispatcher_calm p"
  shows "\<exists>p'. moves env d p p' \<and> less_left env p' p \<and> producers (p_queue p') = producers (p_queue p)"
proof (cases "sub_pc sub")
  case (Answered r)
  with assms(1,3) obtain err where r: "sub_pc sub = Answered (Inr err)"
    by (cases r) (auto simp: dispatcher_calm_def sub_calm_def)
  let ?q = "p_queue p"
  have len: "0 < length (running ?q)" using assms(1,2) by (auto simp: program_inv_def)
  have up: "crashed ?q = None" using assms(3) by (simp add: dispatcher_calm_def)
  let ?q' = "?q\<lparr>world := (), m_batch := length (running ?q ! 0),
       m_errors := (if err = None then m_errors ?q else Suc (m_errors ?q)),
       sem_held := sem_held ?q - 1, finished := finished ?q @ [(running ?q ! 0, err)],
       running := remove_nth 0 (running ?q)\<rparr>"
  have "qstep (returns (Inr err)) None ?q (Worker 0) ?q'"
    by (rule worker_done [OF up len]) (simp add: returns_def)
  from worker_moves [OF worker_returns [OF _ _ this, of env d]] r assms(1) show ?thesis
    by (simp add: less_left_def loop_left_def waiting_def items_chan_def remove_nth_def)
next
  case (Trying i w)
  obtain sub' ss l m where st: "sub_step env d (p_subs p ! 0) (p_senders p, p_log p) = (sub', ss, l, m)"
    by (metis prod_cases4)
  have up: "crashed (p_queue p) = None" and sub: "sub_calm sub" using assms(1,3) by (auto simp: dispatcher_calm_def)
  have len: "0 < length (p_subs p)" using assms(1) by simp
  let ?p = "p\<lparr>p_subs := (p_subs p)[0 := sub'], p_senders := ss, p_log := l, p_metrics := p_metrics p @ m\<rparr>"
  have "head_left env ?p < head_left env p"
  proof (cases "sub_pc sub'")
    case (Answered r)
    with assms(1) Trying show ?thesis by (simp add: head_left_def)
  next
    case t: (Trying i' w')
    have "list_all sender_ok (p_senders p)" "sub_inv env d (p_log p) sub"
      "length (p_senders p) = length (streams d)" "fits (sub_batch sub)"
      using assms(1,2) sub by (auto simp: program_inv_def sub_calm_def)
    from sub_step_steps [OF st [unfolded assms(1) nth_Cons_0] this t] Trying
    have "steps_left env (p_senders p) i' w' < steps_left env (p_senders p) i w" by auto
    with assms(1) Trying t steps_left_runners [OF sub_step_runners [OF st], of env i' w'] show ?thesis
      by (simp add: head_left_def)
  qed
  then show ?thesis by (intro worker_moves [OF work [OF up len st]]) (simp_all add: less_left_def)
qed

lemma loop_moves:
  assumes "loop_event e" "qstep (returns r) None (p_queue p) e q" "loop_left q < loop_left (p_queue p)"
    and "producers q = producers (p_queue p)"
  shows "\<exists>p'. moves env d p p' \<and> less_left env p' p \<and> producers (p_queue p') = producers (p_queue p)"
  using assms unfolding moves_def less_left_def
  by (intro exI [of _ "p\<lparr>p_queue := q\<rparr>"]) auto

lemma loop_goes_on:
  assumes "p_subs p = []" "program_inv env d p" "dispatcher_calm p" "open_queue (p_queue p)" "\<not> drained p"
  shows "\<exists>p'. moves env d p p' \<and> less_left env p' p \<and> producers (p_queue p') = producers (p_queue p)"
proof -
  let ?q = "p_queue p"
  have up: "crashed ?q = None" using assms(3) by (simp add: dispatcher_calm_def)
  have inv: "queue_inv None ?q" and run: "running ?q = []" using assms(1,2) by (simp_all add: program_inv_def)
  have op: "length (heap ?q) = 1" "items_ref ?q = 0" "\<not> cancelled ?q" using assms(4) by (simp_all add: open_queue_def)
  have todo: "items ?q \<noteq> [] \<or> waiting ?q \<noteq> []" using assms(1,5) by (auto simp: drained_def)
  show ?thesis
  proof (cases "pc ?q")
    case NotStarted
    then have "\<not> started ?q" using inv by (simp add: queue_inv_def inv_loop_def)
    from loop_moves [OF _ start_first [OF up this]] NotStarted show ?thesis
      by (simp add: loop_left_def waiting_def items_chan_def)
  next
    case Starting
    from loop_moves [OF _ start_add [OF up this]] Starting show ?thesis
      by (simp add: loop_left_def waiting_def items_chan_def)
  next
    case LoopTop
    from loop_moves [OF _ select_enter [OF up this]] LoopTop show ?thesis
      by (simp add: loop_left_def waiting_def items_chan_def)
  next
    case (Selecting i)
    then have i: "i = 0" using inv op by (simp add: queue_inv_def inv_channels_def)
    show ?thesis
    proof (cases "waiting ?q")
      case Nil
      with todo have "items ?q \<noteq> []" by simp
      from loop_moves [OF _ tick_submit [OF up Selecting this]] Selecting this show ?thesis
        by (simp add: loop_left_def waiting_def items_chan_def)
    next
      case (Cons x xs)
      then have got: "chan_ready (heap ?q ! i)" "chan_recv (heap ?q ! i) = (Some x, (heap ?q ! i)\<lparr>cbuf := xs\<rparr>)"
        using i op by (simp_all add: waiting_def items_chan_def chan_ready_def chan_recv_def)
      from loop_moves [OF _ recv [OF up Selecting got]] Selecting Cons i op show ?thesis
        by (simp add: loop_left_def waiting_def items_chan_def)
    qed
  next
    case Received
    show ?thesis
    proof (cases "process_submits (items ?q) ?q")
      case True
      from loop_moves [OF _ process_submit [OF up Received True]] Received show ?thesis
        by (simp add: loop_left_def waiting_def items_chan_def)
    next
      case False
      from loop_moves [OF _ process_wait [OF up Received False]] Received show ?thesis
        by (simp add: loop_left_def waiting_def items_chan_def)
    qed
  next
    case Submitting
    have pool: "int (sem_held ?q) < WorkerPoolSize (cfg ?q)" using inv run by (simp add: queue_inv_def inv_workers_def)
    let ?q' = "?q\<lparr>sem_held := Suc (sem_held ?q), running := running ?q @ [items ?q],
         launched := launched ?q @ [items ?q], items := [], m_calls := Suc (m_calls ?q), pc := LoopTop\<rparr>"
    obtain pt m where "begin_submit env (p_senders p) d (items ?q) = (pt, m)" by fastforce
    from worker_moves [OF hand_over [OF acquire [OF up Submitting pool] this]] Submitting show ?thesis
      by (simp add: less_left_def loop_left_def waiting_def items_chan_def)
  next
    case Stopped
    with inv op show ?thesis by (simp add: queue_inv_def inv_loop_def)
  qed
qed

lemma dispatcher_goes_on:
  assumes "program_inv env d p" "dispatcher_calm p" "open_queue (p_queue p)" "\<not> drained p"
  shows "\<exists>p'. moves env d p p' \<and> less_left env p' p \<and> producers (p_queue p') = producers (p_queue p)"
  using first_submission [OF _ assms(1,2)] loop_goes_on [OF _ assms] by (cases "p_subs p") auto

section \<open>The service goes on\<close>

fun unbound :: "'a producer \<Rightarrow> bool" where
  "unbound (Checked x) = True"
| "unbound (SendingTo i x) = False"

definition unbound_count :: "('k, 'c, 'r) program \<Rightarrow> nat" where
  "unbound_count p = length (filter unbound (producers (p_queue p)))"

definition request_left :: "event_run \<Rightarrow> nat" where
  "request_left r = 2 * length (r_todo r) + (if r_adding r = None then 1 else 2)"

definition over_all :: "(('k, 'c, 'r) program \<Rightarrow> nat) \<Rightarrow> ('k, 'c, 'r) service \<Rightarrow> nat" where
  "over_all f s = (\<Sum>p \<leftarrow> programs s. f p)"

definition requests_left :: "('k, 'c, 'r) service \<Rightarrow> nat" where
  "requests_left s = (\<Sum>r \<leftarrow> requests s. request_left r)"

definition service_left :: "('k, 'c, 'r) sender_env \<Rightarrow> (('k, 'c, 'r) service \<times> ('k, 'c, 'r) service) set" where
  "service_left env = measures [requests_left, over_all unbound_count,
     over_all (loop_left \<circ> p_queue), over_all (length \<circ> p_subs), over_all (head_left env)]"

text \<open>The events that are in the service, under way or answered.\<close>

definition events_in :: "('k, 'c, 'r) service \<Rightarrow> wrp_message multiset" where
  "events_in s = mset (answered s) + image_mset r_msg (mset (requests s))"

lemma left_simps [simp]:
  "unbound_count (p\<lparr>p_log := l, p_next := n\<rparr>) = unbound_count p"
  "head_left env (p\<lparr>p_log := l, p_next := n\<rparr>) = head_left env p"
  "head_left env (p\<lparr>p_queue := q\<rparr>) = head_left env p"
  "drained (p\<lparr>p_log := l, p_next := n\<rparr>) = drained p"
  by (simp_all add: unbound_count_def head_left_def drained_def split: list.split sub_pc.split)

lemma filter_replace:
  "k < length xs \<Longrightarrow> P (xs ! k) \<Longrightarrow> \<not> P y \<Longrightarrow> length (filter P (xs[k := y])) < length (filter P xs)"
  by (induction xs arbitrary: k) (auto simp: nth_Cons' split: nat.splits)

lemma over_all_replace:
  assumes "i < length (programs s)" "programs t = (programs s)[i := p]"
  shows "over_all f t + f (programs s ! i) = over_all f s + f p"
  using sum_list_replace [OF assms(1), of f p] assms(2) by (simp add: over_all_def)

lemma requests_left_replace:
  assumes "j < length (requests s)" "request_left r < request_left (requests s ! j)" "requests t = (requests s)[j := r]"
  shows "(t, s) \<in> service_left env"
  using sum_list_replace [OF assms(1), of request_left r] assms(2,3)
  by (simp add: service_left_def requests_left_def)

lemma events_in_replace:
  assumes "j < length (requests s)" "r_msg r = r_msg (requests s ! j)" "requests t = (requests s)[j := r]"
    and "answered t = answered s"
  shows "events_in t = events_in s"
proof -
  from replace_request [OF assms(1)] obtain X where "mset (requests s) = add_mset (requests s ! j) X"
    "mset ((requests s)[j := r]) = add_mset r X" by metis
  with assms(2-4) show ?thesis by (simp add: events_in_def)
qed

text \<open>A step that leaves less to do, and takes no event away.\<close>

definition goes_on :: "('k, 'c, 'r) sender_env \<Rightarrow> http_front \<Rightarrow> ('re \<Rightarrow> string \<Rightarrow> bool)
    \<Rightarrow> ('re, 'k, 'r) program_filters \<Rightarrow> ('k, 'c, 'r) service \<Rightarrow> bool" where
  "goes_on env front matches fs s \<longleftrightarrow>
     (\<exists>t. service_step env front matches fs s t \<and> (t, s) \<in> service_left env \<and> events_in t = events_in s)"

lemma goes_onI:
  "service_step env front matches fs s t \<Longrightarrow> (t, s) \<in> service_left env \<Longrightarrow> events_in t = events_in s
     \<Longrightarrow> goes_on env front matches fs s"
  unfolding goes_on_def by blast

text \<open>A step of a request.\<close>

lemma request_goes_on:
  assumes "service_step env front matches fs s t" "j < length (requests s)" "requests t = (requests s)[j := r]"
    and "answered t = answered s" "r_msg r = r_msg (requests s ! j)" "request_left r < request_left (requests s ! j)"
  shows "goes_on env front matches fs s"
  using goes_onI [OF assms(1) requests_left_replace [OF assms(2,6,3)] events_in_replace [OF assms(2,5,3,4)]] .

text \<open>A dispatcher that has something to do can do it.\<close>

lemma dispatcher_moves:
  assumes "moves env (dispatcher_of (fs ! i)) (program_at s i) p" "alive s" "i < length (programs s)"
  obtains t p' where "service_step env front matches fs s t" "programs t = (programs s)[i := p']"
    "p'\<lparr>p_log := p_log p, p_next := p_next p\<rparr> = p" "requests t = requests s" "answered t = answered s"
  using assms(1) unfolding moves_def
proof (elim disjE exE conjE)
  assume "wstep env (dispatcher_of (fs ! i)) (program_at s i) p"
  from works [OF assms(2,3) this] show thesis
    by (rule that [of _ p]) (simp_all add: put_program_def)
next
  fix r e q
  assume q: "loop_event e" "qstep (returns r) None (p_queue (program_at s i)) e q" "p = (program_at s i)\<lparr>p_queue := q\<rparr>"
  then have "qstep (returns r) None (queue_at s i) e q" by (simp add: program_at_def queue_at_def)
  from loop_runs [OF assms(2,3) q(1) this] show thesis
    by (rule that [of _ "(programs s ! i)\<lparr>p_queue := q\<rparr>"]) (simp_all add: set_queue_def q(3) program_at_def)
qed

lemma some_dispatcher_goes_on:
  assumes "service_inv env fs s" "calm fs s" "i < length fs" "\<not> drained (programs s ! i)"
  shows "goes_on env front matches fs s"
proof -
  let ?p = "program_at s i"
  have len: "length (programs s) = length fs" and inv: "program_inv env (dispatcher_of (fs ! i)) ?p"
    and op: "open_queue (p_queue ?p)"
    using assms(1,3) by (auto simp: service_inv_def program_at_def queue_at_def)
  have calm: "dispatcher_calm ?p" "\<not> drained ?p"
    using assms(2-4) by (auto simp: calm_def program_at_def)
  from dispatcher_goes_on [OF inv calm(1) op calm(2)] obtain p where
    p: "moves env (dispatcher_of (fs ! i)) ?p p" "less_left env p ?p" "producers (p_queue p) = producers (p_queue ?p)"
    by blast
  have i: "i < length (programs s)" using assms(3) len by simp
  from dispatcher_moves [OF p(1) calm_alive [OF assms(2) len] i] obtain t p' where
    t: "service_step env front matches fs s t" "programs t = (programs s)[i := p']"
      "p'\<lparr>p_log := p_log p, p_next := p_next p\<rparr> = p" "requests t = requests s" "answered t = answered s" by metis
  have same: "p_queue p' = p_queue p" "p_subs p' = p_subs p" "head_left env p' = head_left env p"
    by (subst t(3) [symmetric], simp)+
  have ub: "unbound_count p' = unbound_count (programs s ! i)"
    using p(3) by (simp add: unbound_count_def same program_at_def)
  note over = over_all_replace [OF i t(2)]
  have "(t, s) \<in> service_left env"
    using p(2) over [of unbound_count] over [of "loop_left \<circ> p_queue"] over [of "length \<circ> p_subs"]
      over [of "head_left env"] t(4) ub
    by (auto simp: service_left_def requests_left_def less_left_def same program_at_def)
  with t show ?thesis by (intro goes_onI [OF t(1)]) (auto simp: events_in_def)
qed

lemma producer_of_request:
  assumes "account matches fs i s" "r \<in> set (requests s)" "r_adding r = Some i"
  obtains k where "k < length (producers (queue_at s i))" "producer_item (producers (queue_at s i) ! k) = Some (r_msg r)"
proof -
  have "Some (r_msg r) \<in># image_mset (Some \<circ> r_msg) {#r \<in># mset (requests s). r_adding r = Some i#}"
    using assms(2,3) by auto
  then have "Some (r_msg r) \<in># mset (adding (queue_at s i))" using assms(1) by (simp add: account_def)
  then show thesis using that by (auto simp: adding_def in_set_conv_nth)
qed

text \<open>A request that is between filters can always go on.\<close>

lemma visit_goes_on:
  assumes "calm fs s" "alive s" "j < length (requests s)" "request_ok matches fs (requests s ! j)"
    and "requests s ! j = \<lparr>r_msg = m, r_todo = i # js, r_adding = None\<rparr>"
  shows "goes_on env front matches fs s"
proof -
  have "i < length fs" using assms(4,5) by (simp add: request_ok_def)
  then have up: "crashed (queue_at s i) = None" using assms(1) by (simp add: calm_def dispatcher_calm_def queue_at_def)
  show ?thesis
  proof (cases "admits matches (fs ! i) m")
    case False
    with request_goes_on [OF pass_by [OF assms(2,3,5) False] assms(3)] assms(5) show ?thesis
      by (simp add: request_left_def)
  next
    case adm: True
    show ?thesis
    proof (cases "has_room (queue_at s i)")
      case True
      from request_goes_on [OF add_begins [OF assms(2,3,5) adm True add_check [OF up True]] assms(3)] assms(5)
      show ?thesis by (simp add: request_left_def)
    next
      case False
      from request_goes_on [OF add_drops [OF assms(2,3,5) adm False add_drop [OF up False]] assms(3)] assms(5)
      show ?thesis by (simp add: request_left_def)
    qed
  qed
qed

text \<open>A call of \<open>AddItem\<close> can read the channel.\<close>

lemma bind_goes_on:
  assumes "alive s" "i < length (programs s)" "crashed (queue_at s i) = None"
    and "k < length (producers (queue_at s i))" "producers (queue_at s i) ! k = Checked x"
  shows "goes_on env front matches fs s"
proof -
  let ?q = "queue_at s i"
  let ?q' = "?q\<lparr>producers := (producers ?q)[k := SendingTo (items_ref ?q) x]\<rparr>"
  have st: "service_step env front matches fs s (set_queue i ?q' s)"
    by (rule loop_runs [OF assms(1,2) _ add_bind [OF assms(3-5)]]) simp
  have "programs (set_queue i ?q' s) = (programs s)[i := (programs s ! i)\<lparr>p_queue := ?q'\<rparr>]"
    by (simp add: set_queue_def)
  note over = over_all_replace [OF assms(2) this, of unbound_count]
  have "length (filter unbound ((producers ?q)[k := SendingTo (items_ref ?q) x])) < length (filter unbound (producers ?q))"
    by (rule filter_replace [OF assms(4)]) (simp_all add: assms(5))
  with over have "over_all unbound_count (set_queue i ?q' s) < over_all unbound_count s"
    by (simp add: unbound_count_def queue_at_def)
  then show ?thesis by (intro goes_onI [OF st]) (simp_all add: service_left_def requests_left_def events_in_def)
qed

text \<open>A call that is about to send finds room when the queue is drained.\<close>

lemma send_goes_on:
  assumes "service_inv env fs s" "calm fs s" "j < length (requests s)" "i < length fs" "drained (programs s ! i)"
    and "requests s ! j = \<lparr>r_msg = m, r_todo = js, r_adding = Some i\<rparr>"
    and "k < length (producers (queue_at s i))" "producers (queue_at s i) ! k = SendingTo c (Some m)"
  shows "goes_on env front matches fs s"
proof -
  let ?q = "queue_at s i"
  note qs = service_inv_queue [OF assms(1,4)]
  have up: "crashed ?q = None" and cap: "0 < ChannelSize (cfg ?q)"
    using assms(2,4) by (simp_all add: calm_def dispatcher_calm_def queue_at_def)
  have "SendingTo c (Some m) \<in> set (producers ?q)" using assms(7,8) by (metis nth_mem)
  then have "c = 0" using qs(2,3) by (auto simp: open_queue_def queue_inv_def inv_channels_def)
  moreover have "cbuf (heap ?q ! 0) = []" using assms(5) qs(3)
    by (simp add: drained_def waiting_def items_chan_def open_queue_def queue_at_def)
  moreover have "ccap (heap ?q ! 0) = nat (ChannelSize (cfg ?q))" "\<not> cclosed (heap ?q ! 0)"
    using qs(2,3) by (auto simp: queue_inv_def inv_channels_def open_queue_def)
  ultimately have "\<exists>q'. chan_send c (Some m) ?q = Inr (Some q')"
    using cap by (simp add: chan_send_Some)
  then obtain q' where q': "chan_send c (Some m) ?q = Inr (Some q')" by blast
  from add_ends [OF calm_alive [OF assms(2) qs(1)] assms(3,6-8) add_send [OF up assms(7,8) q']] assms(3)
  show ?thesis by (rule request_goes_on [where r = "\<lparr>r_msg = m, r_todo = js, r_adding = None\<rparr>"])
      (use assms(6) in \<open>simp_all add: request_left_def\<close>)
qed

text \<open>With all dispatchers drained, the first request can go on.\<close>

lemma some_request_goes_on:
  assumes "accounts_inv env matches fs s" "calm fs s" "requests s = \<lparr>r_msg = m, r_todo = js, r_adding = a\<rparr> # rs"
    and "\<forall>i < length fs. drained (programs s ! i)"
  shows "goes_on env front matches fs s"
proof -
  have inv: "service_inv env fs s" and len: "length (programs s) = length fs"
    and ok: "request_ok matches fs (requests s ! 0)"
    using assms(1,3) by (auto simp: accounts_inv_def service_inv_def)
  note up = calm_alive [OF assms(2) len]
  have j: "0 < length (requests s)" and r: "requests s ! 0 = \<lparr>r_msg = m, r_todo = js, r_adding = a\<rparr>"
    using assms(3) by simp_all
  consider (last) "a = None" "js = []" | (visit) i js' where "a = None" "js = i # js'" | (add) i where "a = Some i"
    by (cases a; cases js) auto
  then show ?thesis
  proof cases
    case last
    then have "remove_nth 0 (requests s) = rs" using assms(3) by (simp add: remove_nth_def)
    with assms(3) show ?thesis
      by (intro goes_onI [OF replies [OF up j r [unfolded last]]])
        (simp_all add: service_left_def requests_left_def request_left_def events_in_def last)
  next
    case visit
    from visit_goes_on [OF assms(2) up j ok r [unfolded visit]] show ?thesis .
  next
    case add
    have i: "i < length fs" using ok r add by (simp add: request_ok_def)
    then have "account matches fs i s" using assms(1) by (simp add: accounts_inv_def)
    from producer_of_request [OF this, of "requests s ! 0"] obtain k where
      k: "k < length (producers (queue_at s i))" "producer_item (producers (queue_at s i) ! k) = Some m"
      using assms(3) add by auto
    show ?thesis
    proof (cases "producers (queue_at s i) ! k")
      case (Checked x)
      from bind_goes_on [OF up _ _ k(1) Checked] i len assms(2) show ?thesis
        by (simp add: calm_def dispatcher_calm_def queue_at_def)
    next
      case (SendingTo c x)
      with k(2) have "producers (queue_at s i) ! k = SendingTo c (Some m)" by simp
      from send_goes_on [OF inv assms(2) j i _ r [unfolded add] k(1) this] assms(4) i show ?thesis by blast
    qed
  qed
qed

lemma service_can_go_on:
  assumes "accounts_inv env matches fs s" "calm fs s" "requests s \<noteq> [] \<or> (\<exists>i < length fs. \<not> drained (programs s ! i))"
  shows "goes_on env front matches fs s"
proof (cases "\<exists>i < length fs. \<not> drained (programs s ! i)")
  case True
  with assms(1,2) show ?thesis by (auto simp: accounts_inv_def intro: some_dispatcher_goes_on)
next
  case False
  with assms(3) obtain r rs where "requests s = r # rs" by (cases "requests s") auto
  moreover obtain m js a where "r = \<lparr>r_msg = m, r_todo = js, r_adding = a\<rparr>" by (cases r) auto
  ultimately show ?thesis using some_request_goes_on [OF assms(1,2)] False by blast
qed

text \<open>So it comes to rest, if nothing arrives.\<close>

definition at_rest :: "('re, 'k, 'r) program_filters \<Rightarrow> ('k, 'c, 'r) service \<Rightarrow> bool" where
  "at_rest fs s \<longleftrightarrow> requests s = [] \<and> (\<forall>i < length fs. drained (programs s ! i))"

lemma service_run_trans:
  "service_run env front matches fs t u \<Longrightarrow> service_run env front matches fs s t \<Longrightarrow> service_run env front matches fs s u"
  by (induction rule: service_run.induct) (auto intro: service_run.intros)

lemma service_comes_to_rest:
  assumes "counted_answers (env_aws env)" "accounts_inv env matches fs s" "calm fs s"
  shows "\<exists>t. service_run env front matches fs s t \<and> at_rest fs t \<and> events_in t = events_in s"
proof -
  have "wf (service_left env)" by (simp add: service_left_def)
  from this assms(2,3) show ?thesis
  proof (induction s rule: wf_induct_rule)
    case (less s)
    show ?case
    proof (cases "at_rest fs s")
      case True
      then show ?thesis by (intro exI [of _ s]) (simp add: service_begins)
    next
      case False
      with service_can_go_on [OF less.prems] obtain u where
        u: "service_step env front matches fs s u" "(u, s) \<in> service_left env" "events_in u = events_in s"
        unfolding at_rest_def goes_on_def by blast
      from less.IH [OF u(2) accounts_inv_step [OF u(1) less.prems(1)] calm_step [OF u(1) less.prems assms(1)]]
      obtain t where t: "service_run env front matches fs u t" "at_rest fs t" "events_in t = events_in u" by blast
      from service_run_trans [OF t(1) service_goes_on [OF service_begins u(1)]] t(2,3) u(3) show ?thesis by auto
    qed
  qed
qed

end
