(* ===== verification/Service_Rest.thy ===== *)
theory Service_Rest
  imports Service_Progress
begin

text \<open>
  The service that the module builds neither crashes nor gets stuck, and what became of the events
  when it has come to rest.
\<close>

section \<open>The service of the module\<close>

lemma built_calm:
  assumes "honours_libraries l" and "FilterModule l i h = (Inr (Some fm, None), h')"
    and "\<forall>f \<in> set (fm_filters fm). f_batchSize f < 2 ^ 63"
  shows "calm (fm_filters fm) (service_start (fm_filters fm) l0)"
proof -
  have each: "dispatcher_calm (program_start (b_queue (the (dispatcher f))) ss l0)"
    if f: "f \<in> set (fm_filters fm)" for f ss
  proof -
    from f obtain k where "(k, f) \<in> set (filters fm)" by auto
    from program_filters [OF assms(1,2) this] obtain c b where
      b: "dispatcher f = Some b" and pf: "program_filter l i c f b"
      by (auto simp: program_filter_def)
    let ?cfg = "\<lparr>q_Name = f_id f, ChannelSize = f_queueSize f, WorkerPoolSize = f_maxWorkers f,
          BatchSize = f_batchSize f, BatchTimeLimitSeconds = 0, SubmitOnEmptyQueue = False\<rparr>"
    from pf have "cfg (b_queue b) = with_defaults ?cfg"
      unfolding program_filter_def by (blast dest: NewQueue_Some)
    moreover have "f_batchSize f < 2 ^ 63" using assms(3) f by blast
    then have "BatchSize (with_defaults ?cfg) < 2 ^ 63" by (simp add: with_defaults_def queue_defaults Let_def)
    ultimately show ?thesis using with_defaults_pos(2) [of ?cfg] b
      by (simp add: dispatcher_calm_def program_start_def boot_def)
  qed
  show ?thesis unfolding calm_def
  proof (intro allI impI)
    fix j assume j: "j < length (fm_filters fm)"
    from each [OF nth_mem [OF j]] j show "dispatcher_calm (programs (service_start (fm_filters fm) l0) ! j)"
      by (simp add: service_start_def)
  qed
qed

lemma rest_accounts:
  assumes "accounts_inv env matches fs t" "at_rest fs t" "j < length fs"
  shows "p_subs (programs t ! j) = [] \<and> adding (queue_at t j) = []
     \<and> image_mset Some {#m \<in># mset (answered t). admits matches (fs ! j) m#}
       = image_mset Some (refused_at j t) + mset (concat (done_batches (programs t ! j)))"
proof -
  have acc: "account matches fs j t" and rest: "requests t = []" "drained (programs t ! j)"
    using assms by (auto simp: accounts_inv_def at_rest_def)
  with account_places [OF assms(1,3)] show ?thesis
    by (simp add: account_def passed_def drained_def waiting_def queue_at_def)
qed

text \<open>
  C2. The service neither crashes nor gets stuck. Take the manager that the module returns, with
  batch sizes that a Go \<open>int\<close> can hold, and a Kinesis that reports a count of failed records in
  every output. In every interleaving of requests, loops, workers and the steps of their submissions,
  no worker panics. And from every state the service can come to rest without a new event: every
  request under way gets its answer, no dispatcher has anything waiting, held, in \<open>AddItem\<close> or
  in a submission, and at every filter each answered event that it admits was refused or is in a
  batch whose submission returned, once each.
\<close>

theorem service_settles:
  assumes "honours_libraries l" and "FilterModule l i h = (Inr (Some fm, None), h')"
    and "counted_answers (env_aws env)" and "\<forall>f \<in> set (fm_filters fm). f_batchSize f < 2 ^ 63"
    and "service_run env front matches (fm_filters fm) (service_start (fm_filters fm) l0) s"
  shows "alive s \<and> (\<exists>t. service_run env front matches (fm_filters fm) s t \<and> alive t \<and> requests t = []
     \<and> mset (answered t) = mset (answered s) + image_mset r_msg (mset (requests s))
     \<and> (\<forall>j < length (filters fm). drained (programs t ! j) \<and> adding (queue_at t j) = []
          \<and> image_mset Some {#m \<in># mset (answered t). admits matches (fm_filters fm ! j) m#}
            = image_mset Some (refused_at j t) + mset (concat (done_batches (programs t ! j)))))"
proof -
  let ?fs = "fm_filters fm" and ?s = "service_start (fm_filters fm) l0"
  have start: "accounts_inv env matches ?fs ?s" "calm ?fs ?s"
    by (rule built_service_inv [OF assms(1,2)]) (rule built_calm [OF assms(1,2,4)])
  have s: "accounts_inv env matches ?fs s" "calm ?fs s"
    using accounts_inv_run [OF assms(5) start(1)] calm_run [OF assms(5) start assms(3)] .
  from service_comes_to_rest [OF assms(3) s] obtain t where
    t: "service_run env front matches ?fs s t" "at_rest ?fs t" "events_in t = events_in s" by blast
  have inv: "accounts_inv env matches ?fs t" "calm ?fs t"
    using accounts_inv_run [OF t(1) s(1)] calm_run [OF t(1) s assms(3)] .
  have "alive u" if "accounts_inv env matches ?fs u" "calm ?fs u" for u
    using calm_alive [OF that(2)] that(1) by (auto simp: accounts_inv_def service_inv_def)
  with t s inv rest_accounts [OF inv(1) t(2)] show ?thesis
    by (intro conjI exI [of _ t]) (auto simp: at_rest_def events_in_def)
qed

definition service_mid :: "(unit, unit, nat) service" where
  "service_mid = (case service_exec_all sample_env sample_front (=) [module_filter 9] (take 7 service_events)
     (service_start [module_filter 9] []) of Some s \<Rightarrow> s)"

lemma service_mid_run:
  "service_exec_all sample_env sample_front (=) [module_filter 9] (take 7 service_events)
     (service_start [module_filter 9] []) = Some service_mid"
  "answered service_mid = []" "map r_msg (requests service_mid) = [sample_message, sample_message]"
  by (simp_all add: service_mid_def service_events_def service_defs concurrent_defs)

theorem service_settles_witness:
  "alive service_mid
     \<and> (\<exists>t. service_run sample_env sample_front (=) [module_filter 9] service_mid t
          \<and> requests t = [] \<and> drained (programs t ! 0)
          \<and> mset (answered t) = {#sample_message, sample_message#})"
proof -
  let ?fm = "(program_fm sample_libs (module_in 9))\<lparr>filters := [(''s'', module_filter 9)]\<rparr>"
  have run: "service_run sample_env sample_front (=) (fm_filters ?fm) (service_start (fm_filters ?fm) []) service_mid"
    using service_exec_all_run [OF service_mid_run(1) service_begins] by simp
  have "counted_answers (env_aws sample_env)"
    by (auto simp: counted_answers_def sample_env_def accepting_aws_def)
  moreover have "image_mset r_msg (mset (requests service_mid)) = {#sample_message, sample_message#}"
    by (simp add: service_mid_run(3) flip: mset_map)
  ultimately show ?thesis
    using service_settles [OF sample_libs_honoured sample_module _ _ run]
    by (auto simp: service_mid_run(2) module_filter_def sample_fc_def)
qed

end
