(* ===== verification/Spec2Isabelle.thy ===== *)
theory Spec2Isabelle
  imports Batch Install_Properties Container Shutdown_Manager Shared_Properties Service_Rest
begin

text \<open>
  A verification library for xmidt-event-streams: a service that takes device events over HTTP
  and writes them to Kinesis streams.

  \<^bold>\<open>The program and its parts.\<close> A request arrives at \<open>RequestHandler.ServeHTTP\<close>, which decodes a
  WRP event, fixes it up and gives it to the \<open>WrpEventHandler\<close>; this one gives it to
  the \<open>BaseFilterManager\<close>, which offers it to every \<open>BaseFilter\<close>. A filter whose regular
  expressions match queues the event at its \<open>StreamDispatcher\<close>, that is on the channel of a
  \<open>MyQueue\<close>. The loop of the queue collects batches and hands each to a worker, which calls
  \<open>Submit\<close> of the dispatcher: it tries the streams of the filter in order, each through a
  \<open>KinesisSender\<close>, which marshals the batch and puts it with the \<open>KinesisClient\<close>, with retries.
  The workers of a queue do this at the same time, on the same senders and clients. The parts are
  put together by a dependency injection container, from the options of
  \<open>provideAppOptions\<close>, which \<open>main\<close> starts.

  \<^bold>\<open>Theories, in the order of the layers, and the code they model\<close> (paths under \<open>src/\<close>).
  \<^item> \<open>Prelude\<close>: machine integers, errors, panics, slices, chunks of lists, printed numbers.
  \<^item> \<open>Go_Strings\<close>: the functions of Go's \<open>strings\<close> that are used, with UTF-8 decoding.
  \<^item> \<open>Batch\<close>: \<open>internal/batch/batch.go\<close>. \<open>Messages\<close>: the fields of a WRP message that are read.
  \<^item> \<open>Kinesis\<close>: \<open>internal/kinesis/kinesis.go\<close>, the client and the history of its service calls.
  \<^item> \<open>Sender\<close>: \<open>internal/sender/sender.go\<close> and \<open>kinesis_sender.go\<close>.
  \<^item> \<open>Queue\<close>, \<open>Queue_Properties\<close>: \<open>internal/queue/queue.go\<close>, its operations as functions and its
    goroutines as the step relation \<open>qstep\<close>.
  \<^item> \<open>Dispatcher\<close>, \<open>Dispatcher_Properties\<close>: \<open>filter/stream_dispatcher.go\<close>, \<open>dispatcher_factory.go\<close>,
    \<open>queue_provider.go\<close> and the streams of \<open>filter_config.go\<close>.
  \<^item> \<open>Filters\<close>, \<open>Filter_Properties\<close>: \<open>filter/filter.go\<close>, \<open>filter_factory.go\<close>, \<open>filter_config.go\<close>.
  \<^item> \<open>Manager\<close>, \<open>Manager_Properties\<close>: \<open>filter/filter_manager.go\<close>.
  \<^item> \<open>Request_Handler\<close>, \<open>Event_Properties\<close>: \<open>internal/event/request_handler.go\<close>,
    \<open>event_handler.go\<close>.
  \<^item> \<open>Filter_Module\<close>, \<open>Module_Properties\<close>: \<open>filter/filter_module.go\<close>, which builds the manager from
    its configuration, and \<open>internal/sender/sender_module.go\<close>.
  \<^item> \<open>Authentication\<close>: \<open>internal/auth\<close>. \<open>Metrics_Provider\<close>: \<open>internal/metrics\<close>. \<open>My_Time\<close>:
    \<open>internal/mytime\<close>.
  \<^item> \<open>Install\<close>, \<open>Install_Properties\<close>: \<open>internal/install\<close>, the command line, the configuration with
    its defaults, the handlers, the routes, and the program built from all parts.
  \<^item> \<open>Container\<close>: the options of \<open>eventstream.go\<close> and of the modules, each constructor by what it
    needs and gives, and \<open>cmd/eventstream/main.go\<close>.
  \<^item> \<open>Shared_Client\<close>, \<open>Shared_Properties\<close>: \<open>PutRecords\<close>, \<open>refreshClient\<close>, \<open>getClient\<close> and the
    retries of \<open>OnEvent\<close> again, as steps of goroutines that share one client.
  \<^item> \<open>Shutdown\<close>: \<open>StreamDispatcher.Shutdown\<close> as steps between those of the queue. \<open>Shutdown_Manager\<close>:
    \<open>BaseFilterManager.Shutdown\<close> and \<open>BaseFilter.Shutdown\<close> around it, while all dispatchers run.
  \<^item> \<open>Concurrent_Delivery\<close>, \<open>Concurrent_Return\<close>: \<open>Submit\<close> as steps, many at a time, composed with the
    queue; what was acknowledged when it returns, and that it comes to an answer.
  \<^item> \<open>Losses\<close>, \<open>Service\<close>, \<open>Service_Accounts\<close>, \<open>Service_Properties\<close>: all of it at the same time: many
    requests on their way through the filters of \<open>BaseFilterManager.Queue\<close>, and behind every filter a
    dispatcher with its queue, loop and workers, on one shared service; where each event is.
    \<open>Service_Calm\<close>, \<open>Service_Progress\<close>, \<open>Service_Rest\<close>: it does not crash, and it does not get stuck.

  \<^bold>\<open>State.\<close> A struct is a record with the code's fields; a method that changes its receiver returns
  it. A component that acts on others takes the world they live in and returns it: for the sender
  and below the history of service calls, for a dispatcher the counter's increments and the
  senders, for the manager the queues. \<open>go_panic + 'a\<close> is a computation that may panic, a pair
  with a \<open>go_err option\<close> a Go result with an error, \<open>None\<close> a result that never comes (a call that
  blocks for ever). The state of a running queue (\<open>system\<close>) extends \<open>MyQueue\<close> with the place of the
  loop, the items it holds, the workers and the calls of \<open>AddItem\<close> in progress, and with
  lists that only record what happened (\<open>accepted\<close>, \<open>taken\<close>, \<open>launched\<close>, \<open>finished\<close>).
  A goroutine in the middle of a function is a program point with the values of its
  local variables (\<open>worker\<close> in \<open>PutRecords\<close>, \<open>submission\<close> in \<open>Submit\<close>, \<open>shutdown_pc\<close>); what they share
  is beside them (\<open>shared\<close>, \<open>program\<close>), with a log that says who made which call. The state of the whole (\<open>service\<close>) is
  a \<open>program\<close> per filter, the log they share, and the requests that \<open>ServeHTTP\<close> has taken (\<open>event_run\<close>: the
  message, the filters that the loop of \<open>Queue\<close> has yet to visit, and the one whose \<open>AddItem\<close> it is in).

  \<^bold>\<open>Interfaces.\<close> The layers are connected by contracts, locales that are interpreted on the code's
  definitions: \<open>sender_contract\<close> (a call without an error leaves the batch acknowledged) by
  the Kinesis senders; \<open>dispatching\<close> on top of it and, as its sublocale, \<open>submitter_contract\<close> (what
  the queue relies on) by \<open>Submit\<close>; \<open>dispatcher_ops\<close> and \<open>filtering\<close> (what a filter and the manager
  rely on when they queue) by the list of queues; \<open>event_sink\<close> (what the request handler relies
  on) by the manager.

  \<^bold>\<open>What the lemmas show.\<close>
  \<^item> Delivery: \<open>no_silent_loss\<close> is about every interleaving of requests, loops, workers and the steps
    inside their submissions, from the configuration on: every event that passed a filter was dropped
    at a full queue and counted, or is in exactly one of the places between the call of \<open>AddItem\<close> and a
    submission that returned; one that returned without an error was acknowledged by the
    service, and the others are counted as lost. \<open>service_settles\<close>: no worker panics, if Kinesis
    reports its counts, and from every state of the service there are steps that answer all
    requests and empty all dispatchers. \<open>program_delivers_concurrently\<close> says of one dispatcher,
    with callers of any kind, what its submissions leave at the service, and that a count of failed
    records that is honest means that all were accepted. \<open>shared_client_delivers\<close> and
    \<open>shared_client_returns\<close> are what goroutines on one client keep of \<open>OnEvent\<close>,
    \<open>submissions_are_answered\<close> bounds the steps of a submission among all others, and
    \<open>undisturbed_equals_OnEvent\<close> says that the steps are those of the function. With a submission as one
    step, \<open>program_delivers\<close> and \<open>submitted_batches_acknowledged\<close> say it of the functions;
    \<open>Submit_failover\<close>, \<open>OnEvent_attempts\<close>, \<open>PutRecords_requests\<close>, \<open>PutRecords_count_exact\<close> and
    \<open>GetBatches_correct\<close> say exactly what each layer does on the way.
  \<^item> The way in: \<open>program_serves\<close> and \<open>request_reaches_queues\<close> go from a request to the queues of
    exactly the filters that select the event; \<open>ServeHTTP_answers\<close>, \<open>manager_fanout\<close> and
    \<open>filter_decides\<close> are its layers; \<open>outstanding_bound\<close> bounds the requests at work.
  \<^item> The queue: its invariant (\<open>queue_inv\<close>) gives order, accounting and bounds under all
    interleavings, a run of steps that drains it (\<open>queue_drains\<close>), and that the function \<open>AddItem\<close> is
    what its steps do undisturbed (\<open>AddItem_refined\<close>); \<open>calls_accounted\<close>: what became of every call of
    \<open>AddItem\<close>, and that exactly the refused ones and what \<open>Empty\<close> found are counted as dropped.
  \<^item> Construction: what the factories accept and build, that the last configuration of a name wins,
    that the metrics asked for are provided, where the event route is, who gets past its guard;
    \<open>wiring_well_typed\<close>: the container finds everything it needs.
  \<^item> Shutting down, panics and settings that do not do what they promise
    (\<open>shutdown_never_returns\<close>, \<open>Shutdown_hangs_and_crashes\<close>, \<open>manager_shutdown_hangs\<close>, \<open>panic_skips_rest\<close>, \<open>AddItem_race\<close>,
    \<open>configured_retries_ignored\<close>, \<open>max_outstanding_ignored\<close>, \<open>New_auth_swallows\<close>).
  \<^item> Times: numbers and stored times are read back as they were printed and stored.

  \<^bold>\<open>Bounds and fuel.\<close> There is no fuel. \<open>GetBatches\<close>, which does not end for a batch size of 0, is a
  partial function whose result is \<open>None\<close> then; loops over lists are structural; the loops of the
  string functions end because every step takes bytes away. Slices have fewer than \<open>2\<^sup>6\<^sup>3\<close>
  elements (\<open>fits\<close>), which is what a Go \<open>int\<close> can count. Arithmetic is done in 64 or 32 bits
  where the code does it: positions in a batch, counts of failed records, the counter of
  outstanding requests, seconds and microseconds. Sizes that are only compared are \<open>int\<close>.
  A turn of the loop of \<open>PutRecords\<close> takes at most eleven steps, one for each program point, so eleven
  per batch and attempt are enough for a goroutine to return, and one more per stream for \<open>Submit\<close>. The container calls its
  constructors in rounds; 13 are enough, because the types they make have 13 ranks (\<open>type_rank\<close>), each
  above what the constructor needs.

  \<^bold>\<open>Parameters.\<close> Code outside the repository is an argument: the AWS SDK and the clock (\<open>aws\<close>, each
  answer a function of the whole history; \<open>honest_counts\<close> and \<open>counted_answers\<close> are what Kinesis documents
  about its counts of failed records), the JSON encoding, the retry library (\<open>honours_retry\<close>),
  the options library (\<open>honours_opts\<close>), the decoder and the UUIDs of requests, regular
  expressions, the lower-case table outside ASCII, the order of map iteration, \<open>bascule\<close> and \<open>jwx\<close>
  (\<open>honours_jwk\<close>), \<open>ParseFloat\<close> (\<open>reads_digits\<close>), the configuration and logging libraries, the
  command line parser (\<open>kong\<close>), the container (\<open>fx_New\<close>) and the constructors that libraries bring to
  it (\<open>fx_libs\<close>, with \<open>documented\<close>).

  \<^bold>\<open>Not modelled.\<close>
  \<^item> Logging and printing, apart from the panic of a call on a \<open>nil\<close> logger where the code can have
    one. The metrics are counts: what is observed in a histogram is left out but for the number of
    calls, and gauges hold natural numbers.
  \<^item> Torn reads: the fields of the client are not protected by the code; a read or a write of one is
    atomic here, though \<open>credsExpireAt\<close> and \<open>svc\<close> are larger than a machine word. The
    counts of metrics are atomic as in the library. Contexts are never cancelled by the program.
  \<^item> How the container resolves its options, apart from what can be called when: elsewhere the modules
    are functions that are applied in the order of the constructors' needs. What is printed.
  \<^item> What a mux does with a request (\<open>chi\<close>) and what the middleware does around the handler: the
    routes are what is registered. So a request in \<open>program_serves\<close> is one that got through.
  \<^item> In the steps of the service there is no shutdown, change of a batch size or end of a context,
    because nothing in the program asks for one; \<open>Shutdown\<close> and \<open>Queue\<close> have them. A request that is
    refused, or is not an event, touches no queue and has no step there.
  \<^item> The constants of \<open>internal/log\<close>, \<open>event/metrics.go\<close> and \<open>metrics/tags.go\<close>, which name things and
    are mostly unused, and the mocks of the tests.
\<close>

end
